(* ===== verification/Prelude.thy ===== *)
theory Prelude
  imports Main "HOL-Library.Word"
begin

text \<open>
  What the components share: the types the whole model is written in, the bind of the
  result type, the text units (Unicode scalars and their UTF-8 and UTF-16 widths), the
  checked and saturating arithmetic of the fixed-width integers, and the generic list
  lemmas the component proofs use.

  A Rust \<open>String\<close> or \<open>&str\<close> is a list of Unicode scalars, each a natural number; its
  bytes are computed from it by \<open>utf8_bytes\<close>.  A \<open>Vec<u8>\<close> is a list of 8-bit words.
  A \<open>Result<T, E>\<close> is the sum \<open>E + T\<close>, with \<open>Inl\<close> the error.  An unbounded \<open>usize\<close> that
  only ever counts elements in memory is a \<open>nat\<close>; a \<open>u64\<close> or \<open>i64\<close> whose overflow the
  code handles is a word or an integer with the saturation written out.
\<close>

named_theorems unit_simps \<open>lengths of texts in the three offset units\<close>
named_theorems op_defs \<open>definitions a component's branch lemmas unfold\<close>

type_synonym uchar = nat
type_synonym ustr = "uchar list"
type_synonym byte = "8 word"

definition lit :: "string \<Rightarrow> ustr" where
  "lit s = map of_char s"

lemma lit_simps [simp]:
  "lit [] = []" "lit (c # cs) = of_char c # lit cs"
  by (simp_all add: lit_def)

text \<open>\<open>format!\<close> of an unsigned number.\<close>

fun nat_text :: "nat \<Rightarrow> ustr" where
  "nat_text n = (if n < 10 then [48 + n] else nat_text (n div 10) @ [48 + n mod 10])"

declare nat_text.simps [simp del]

section \<open>Results\<close>

definition rbind :: "'e + 'a \<Rightarrow> ('a \<Rightarrow> 'e + 'b) \<Rightarrow> 'e + 'b" where
  "rbind m f = (case m of Inl e \<Rightarrow> Inl e | Inr x \<Rightarrow> f x)"

lemma rbind_simps [simp]:
  "rbind (Inl e) f = Inl e"
  "rbind (Inr x) f = f x"
  by (simp_all add: rbind_def)

lemma rbind_Inr_iff: "rbind m f = Inr y \<longleftrightarrow> (\<exists>x. m = Inr x \<and> f x = Inr y)"
  by (cases m) auto

lemma rbind_Inl_iff: "rbind m f = Inl e \<longleftrightarrow> m = Inl e \<or> (\<exists>x. m = Inr x \<and> f x = Inl e)"
  by (cases m) auto

definition is_ok :: "'e + 'a \<Rightarrow> bool" where
  "is_ok m = (case m of Inl _ \<Rightarrow> False | Inr _ \<Rightarrow> True)"

lemma is_ok_simps [simp]: "is_ok (Inl e) = False" "is_ok (Inr x) = True"
  by (simp_all add: is_ok_def)

definition ok_or :: "'e \<Rightarrow> 'a option \<Rightarrow> 'e + 'a" where
  "ok_or e x = (case x of None \<Rightarrow> Inl e | Some v \<Rightarrow> Inr v)"

lemma ok_or_simps [simp]: "ok_or e None = Inl e" "ok_or e (Some x) = Inr x"
  by (simp_all add: ok_or_def)

section \<open>Sizes in memory\<close>

definition usize_max :: nat where "usize_max = 2 ^ 64 - 1"

definition usize_add :: "nat \<Rightarrow> nat \<Rightarrow> nat" where
  "usize_add a b = min usize_max (a + b)"

definition usize_mul :: "nat \<Rightarrow> nat \<Rightarrow> nat" where
  "usize_mul a b = min usize_max (a * b)"

section \<open>Lists\<close>

lemma ex_le_Suc: "(\<exists>i \<le> Suc n. P i) \<longleftrightarrow> P 0 \<or> (\<exists>i \<le> n. P (Suc i))"
  by (metis Suc_le_mono le0 not0_implies_Suc)

lemma fold_keeps:
  assumes "P s" "\<And>x s. P s \<Longrightarrow> P (f x s)"
  shows "P (fold f xs s)"
  using assms by (induction xs arbitrary: s) simp_all

lemma find_SomeD: "find P xs = Some x \<Longrightarrow> x \<in> set xs \<and> P x"
  by (induction xs) (auto split: if_splits)

lemma take_slice: "i \<le> j \<Longrightarrow> take j t = take i t @ take (j - i) (drop i t)"
  by (metis le_add_diff_inverse take_add)

section \<open>Unicode scalars and their widths\<close>

definition scalar :: "uchar \<Rightarrow> bool" where
  "scalar c \<longleftrightarrow> c < 0xD800 \<or> 0xE000 \<le> c \<and> c < 0x110000"

definition len_utf8 :: "uchar \<Rightarrow> nat" where
  "len_utf8 c = (if c < 0x80 then 1 else if c < 0x800 then 2 else if c < 0x10000 then 3 else 4)"

definition len_utf16 :: "uchar \<Rightarrow> nat" where
  "len_utf16 c = (if c < 0x10000 then 1 else 2)"

definition str_len8 :: "ustr \<Rightarrow> nat" where
  "str_len8 t = sum_list (map len_utf8 t)"

definition str_len16 :: "ustr \<Rightarrow> nat" where
  "str_len16 t = sum_list (map len_utf16 t)"

lemma len_utf8_pos [simp]: "0 < len_utf8 c" "len_utf8 c \<noteq> 0"
  by (simp_all add: len_utf8_def)

lemma len_utf16_pos [simp]: "0 < len_utf16 c" "len_utf16 c \<noteq> 0"
  by (simp_all add: len_utf16_def)

lemma len_utf16_le: "len_utf16 c \<le> 2"
  by (simp add: len_utf16_def)

lemma str_len8_simps [simp, unit_simps]:
  "str_len8 [] = 0"
  "str_len8 (c # t) = len_utf8 c + str_len8 t"
  "str_len8 (s @ t) = str_len8 s + str_len8 t"
  by (simp_all add: str_len8_def)

lemma str_len16_simps [simp, unit_simps]:
  "str_len16 [] = 0"
  "str_len16 (c # t) = len_utf16 c + str_len16 t"
  "str_len16 (s @ t) = str_len16 s + str_len16 t"
  by (simp_all add: str_len16_def)

lemma str_len16_replicate [simp]: "str_len16 (replicate n c) = n * len_utf16 c"
  by (induction n) auto

lemma str_len8_0_iff [simp]: "str_len8 t = 0 \<longleftrightarrow> t = []" "0 < str_len8 t \<longleftrightarrow> t \<noteq> []"
  by (cases t; simp)+

lemma str_len16_0_iff [simp]: "str_len16 t = 0 \<longleftrightarrow> t = []" "0 < str_len16 t \<longleftrightarrow> t \<noteq> []"
  by (cases t; simp)+

lemma str_len8_take_mono: "i \<le> j \<Longrightarrow> str_len8 (take i t) \<le> str_len8 (take j t)"
proof (induction t arbitrary: i j)
  case (Cons c t)
  then show ?case by (cases i; cases j) auto
qed simp

lemma str_len16_take_mono: "i \<le> j \<Longrightarrow> str_len16 (take i t) \<le> str_len16 (take j t)"
proof (induction t arbitrary: i j)
  case (Cons c t)
  then show ?case by (cases i; cases j) auto
qed simp

lemma str_len8_slice:
  "i \<le> j \<Longrightarrow> str_len8 (take (j - i) (drop i t)) = str_len8 (take j t) - str_len8 (take i t)"
  by (simp add: take_slice)

lemma str_len16_slice:
  "i \<le> j \<Longrightarrow> str_len16 (take (j - i) (drop i t)) = str_len16 (take j t) - str_len16 (take i t)"
  by (simp add: take_slice)

lemma str_len16_take_le: "str_len16 (take i t) \<le> str_len16 t"
  using str_len16_take_mono[of i "max i (length t)" t] by simp

lemma str_len8_take_le: "str_len8 (take i t) \<le> str_len8 t"
  using str_len8_take_mono[of i "max i (length t)" t] by simp

section \<open>Refinement\<close>

text \<open>A functional refinement: operations on a concrete state that keep an invariant and are
  carried by an abstraction function onto the operations of a specification.\<close>

locale refines =
  fixes inv :: "'c \<Rightarrow> bool" and abs :: "'c \<Rightarrow> 'a" and cstep :: "'op \<Rightarrow> 'c \<Rightarrow> 'c" and astep :: "'op \<Rightarrow> 'a \<Rightarrow> 'a"
  assumes keeps: "inv c \<Longrightarrow> inv (cstep op c)"
    and simulates: "inv c \<Longrightarrow> abs (cstep op c) = astep op (abs c)"
begin

lemma run_refines: "inv c \<Longrightarrow> inv (fold cstep ops c) \<and> abs (fold cstep ops c) = fold astep ops (abs c)"
  by (induction ops arbitrary: c) (simp_all add: keeps simulates)

end

end
