(* ===== verification/Text_Index.thy ===== *)
theory Text_Index
  imports Prelude
begin

text \<open>
  The offset units of \<open>document/text_index.rs\<close>: the conversions between UTF-8 bytes,
  UTF-16 code units and code points over one text, the strict and the widening ones, and
  the four slices.  Each conversion is the loop of the source over \<open>char_indices\<close>, with the
  running byte and unit counts as its accumulators.  The lemmas characterise every loop by
  the prefix of the text it has passed.
\<close>

section \<open>Definitions\<close>

datatype utf8 = Utf8 nat
datatype utf16 = Utf16 nat
datatype code_point = CodePoint nat
datatype 'u span = Span (span_start: 'u) (span_end: 'u)
datatype off_boundary = OffBoundary

definition len_of_utf16 :: "ustr \<Rightarrow> utf16" where
  "len_of_utf16 t = Utf16 (str_len16 t)"

text \<open>The boundary test and the ranged \<open>get\<close> of Rust's \<open>str\<close>: a byte offset is a character
  boundary when some number of whole characters has exactly that many bytes.\<close>

fun boundary :: "ustr \<Rightarrow> nat \<Rightarrow> nat option" where
  "boundary [] at = (if at = 0 then Some 0 else None)"
| "boundary (c # cs) at =
    (if at = 0 then Some 0
     else if at < len_utf8 c then None
     else map_option Suc (boundary cs (at - len_utf8 c)))"

definition is_char_boundary :: "ustr \<Rightarrow> nat \<Rightarrow> bool" where
  "is_char_boundary t at \<longleftrightarrow> boundary t at \<noteq> None"

definition str_get :: "ustr \<Rightarrow> nat \<Rightarrow> nat \<Rightarrow> ustr option" where
  "str_get t a b =
    (case (boundary t a, boundary t b) of
       (Some i, Some j) \<Rightarrow> if a \<le> b then Some (take (j - i) (drop i t)) else None
     | _ \<Rightarrow> None)"

fun utf8_of_from :: "nat \<Rightarrow> nat \<Rightarrow> ustr \<Rightarrow> nat \<Rightarrow> off_boundary + utf8" where
  "utf8_of_from units byte [] at = (if units = at then Inr (Utf8 byte) else Inl OffBoundary)"
| "utf8_of_from units byte (ch # cs) at =
    (if units = at then Inr (Utf8 byte)
     else if units > at then Inl OffBoundary
     else utf8_of_from (units + len_utf16 ch) (byte + len_utf8 ch) cs at)"

fun utf8_of :: "ustr \<Rightarrow> utf16 \<Rightarrow> off_boundary + utf8" where
  "utf8_of t (Utf16 at) = utf8_of_from 0 0 t at"

fun utf8_floor_from :: "nat \<Rightarrow> nat \<Rightarrow> ustr \<Rightarrow> nat \<Rightarrow> utf8" where
  "utf8_floor_from units byte [] at = Utf8 byte"
| "utf8_floor_from units byte (ch # cs) at =
    (if units + len_utf16 ch > at then Utf8 byte
     else utf8_floor_from (units + len_utf16 ch) (byte + len_utf8 ch) cs at)"

fun utf8_floor :: "ustr \<Rightarrow> utf16 \<Rightarrow> utf8" where
  "utf8_floor t (Utf16 at) = utf8_floor_from 0 0 t at"

fun utf8_ceil_from :: "nat \<Rightarrow> nat \<Rightarrow> ustr \<Rightarrow> nat \<Rightarrow> utf8" where
  "utf8_ceil_from units byte [] at = Utf8 byte"
| "utf8_ceil_from units byte (ch # cs) at =
    (if units \<ge> at then Utf8 byte
     else utf8_ceil_from (units + len_utf16 ch) (byte + len_utf8 ch) cs at)"

fun utf8_ceil :: "ustr \<Rightarrow> utf16 \<Rightarrow> utf8" where
  "utf8_ceil t (Utf16 at) = utf8_ceil_from 0 0 t at"

fun utf16_of :: "ustr \<Rightarrow> utf8 \<Rightarrow> off_boundary + utf16" where
  "utf16_of t (Utf8 at) =
    (case boundary t at of
       None \<Rightarrow> Inl OffBoundary
     | Some i \<Rightarrow> Inr (len_of_utf16 (take i t)))"

fun last_char_start_from :: "nat \<Rightarrow> nat \<Rightarrow> ustr \<Rightarrow> nat \<Rightarrow> nat" where
  "last_char_start_from start units [] to = start"
| "last_char_start_from start units (ch # cs) to =
    (if units \<ge> to then start
     else last_char_start_from units (units + len_utf16 ch) cs to)"

fun last_char_start :: "ustr \<Rightarrow> utf16 \<Rightarrow> utf16" where
  "last_char_start t (Utf16 to) = Utf16 (last_char_start_from 0 0 t to)"

fun slice8 :: "ustr \<Rightarrow> utf8 span \<Rightarrow> ustr option" where
  "slice8 t (Span (Utf8 a) (Utf8 b)) = str_get t a b"

fun slice16 :: "ustr \<Rightarrow> utf16 span \<Rightarrow> ustr option" where
  "slice16 t (Span a b) =
    (case (utf8_of t a, utf8_of t b) of
       (Inr start, Inr fin) \<Rightarrow> slice8 t (Span start fin)
     | _ \<Rightarrow> None)"

fun slice16_widened :: "ustr \<Rightarrow> utf16 span \<Rightarrow> ustr" where
  "slice16_widened t (Span (Utf16 a) (Utf16 b)) =
    (if b \<le> a then []
     else (case slice8 t (Span (utf8_floor t (Utf16 a)) (utf8_ceil t (Utf16 b))) of
             None \<Rightarrow> [] | Some s \<Rightarrow> s))"

definition replacement :: uchar where
  "replacement = 0xFFFD"

fun lossy_scan_from :: "nat \<Rightarrow> ustr \<Rightarrow> nat \<Rightarrow> nat \<Rightarrow> ustr" where
  "lossy_scan_from units [] a b = []"
| "lossy_scan_from units (ch # cs) a b =
    (let nxt = units + len_utf16 ch in
     if units \<ge> b then []
     else (if nxt > a
           then (if units \<ge> a \<and> nxt \<le> b then [ch]
                 else replicate (min nxt b - max units a) replacement)
           else [])
          @ lossy_scan_from nxt cs a b)"

fun slice16_lossy :: "ustr \<Rightarrow> utf16 span \<Rightarrow> ustr" where
  "slice16_lossy t (Span (Utf16 a) (Utf16 b)) =
    (if a \<ge> b then []
     else (case (utf8_of t (Utf16 a), utf8_of t (Utf16 b)) of
             (Inr (Utf8 from), Inr (Utf8 to)) \<Rightarrow> the (str_get t from to)
           | _ \<Rightarrow> lossy_scan_from 0 t a b))"

fun code_point_of_from :: "nat \<Rightarrow> nat \<Rightarrow> ustr \<Rightarrow> nat \<Rightarrow> off_boundary + code_point" where
  "code_point_of_from units n [] at =
    (if units = at then Inr (CodePoint n) else Inl OffBoundary)"
| "code_point_of_from units n (ch # cs) at =
    (if units = at then Inr (CodePoint n)
     else if units > at then Inl OffBoundary
     else code_point_of_from (units + len_utf16 ch) (n + 1) cs at)"

fun code_point_of :: "ustr \<Rightarrow> utf16 \<Rightarrow> off_boundary + code_point" where
  "code_point_of t (Utf16 at) = code_point_of_from 0 0 t at"

section \<open>Each loop is described by the prefix it has passed\<close>

lemma boundary_iff: "boundary t at = Some i \<longleftrightarrow> i \<le> length t \<and> at = str_len8 (take i t)"
proof (induction t arbitrary: at i)
  case (Cons c t)
  show ?case
  proof (cases i)
    case (Suc k)
    have "boundary (c # t) at = Some (Suc k) \<longleftrightarrow> len_utf8 c \<le> at \<and> boundary t (at - len_utf8 c) = Some k"
      by auto
    with Suc show ?thesis by (auto simp: Cons.IH)
  qed auto
qed auto

lemma boundary_take [simp]: "i \<le> length t \<Longrightarrow> boundary t (str_len8 (take i t)) = Some i"
  by (simp add: boundary_iff)

lemma str_len8_take_inj:
  assumes "str_len8 (take i t) = str_len8 (take j t)" "i \<le> length t" "j \<le> length t"
  shows "i = j"
  by (metis assms boundary_take option.inject)

lemma boundary_end [simp]: "boundary t (str_len8 t) = Some (length t)"
  by (simp add: boundary_iff)

lemma utf8_of_from_iff:
  "utf8_of_from u b t at = Inr r \<longleftrightarrow>
    (\<exists>i \<le> length t. at = u + str_len16 (take i t) \<and> r = Utf8 (b + str_len8 (take i t)))"
proof (induction t arbitrary: u b)
  case (Cons c t)
  show ?case
    by (cases "u = at"; cases "u < at") (auto simp: ex_le_Suc Cons.IH add.assoc)
qed auto

lemma utf8_of_iff:
  "utf8_of t (Utf16 at) = Inr r \<longleftrightarrow>
    (\<exists>i \<le> length t. at = str_len16 (take i t) \<and> r = Utf8 (str_len8 (take i t)))"
  by (simp add: utf8_of_from_iff)

lemma utf16_of_iff:
  "utf16_of t (Utf8 at) = Inr r \<longleftrightarrow>
    (\<exists>i \<le> length t. at = str_len8 (take i t) \<and> r = Utf16 (str_len16 (take i t)))"
proof (cases "boundary t at")
  case None
  then show ?thesis by auto
next
  case (Some j)
  then show ?thesis by (auto simp: len_of_utf16_def boundary_iff dest: str_len8_take_inj)
qed

lemma code_point_of_from_iff:
  "code_point_of_from u b t at = Inr r \<longleftrightarrow>
    (\<exists>i \<le> length t. at = u + str_len16 (take i t) \<and> r = CodePoint (b + i))"
proof (induction t arbitrary: u b)
  case (Cons c t)
  show ?case
    by (cases "u = at"; cases "u < at") (auto simp: ex_le_Suc Cons.IH add.assoc)
qed auto

lemma utf8_floor_from_cut:
  "\<exists>i \<le> length t. utf8_floor_from u b t at = Utf8 (b + str_len8 (take i t)) \<and>
     (u \<le> at \<longrightarrow> u + str_len16 (take i t) \<le> at) \<and>
     (i < length t \<longrightarrow> at < u + str_len16 (take (Suc i) t))"
proof (induction t arbitrary: u b)
  case (Cons c t)
  show ?case
  proof (cases "at < u + len_utf16 c")
    case True
    then show ?thesis by (intro exI[of _ 0]) simp
  next
    case False
    from Cons.IH[of "u + len_utf16 c" "b + len_utf8 c"] obtain i where i: "i \<le> length t"
      "utf8_floor_from (u + len_utf16 c) (b + len_utf8 c) t at = Utf8 (b + len_utf8 c + str_len8 (take i t))"
      "u + len_utf16 c \<le> at \<longrightarrow> u + len_utf16 c + str_len16 (take i t) \<le> at"
      "i < length t \<longrightarrow> at < u + len_utf16 c + str_len16 (take (Suc i) t)"
      by blast
    with False show ?thesis by (intro exI[of _ "Suc i"]) (simp add: add.assoc)
  qed
qed simp

lemma utf8_ceil_from_cut:
  "\<exists>i \<le> length t. utf8_ceil_from u b t at = Utf8 (b + str_len8 (take i t)) \<and>
     (at \<le> u + str_len16 (take i t) \<or> i = length t) \<and>
     (0 < i \<longrightarrow> u + str_len16 (take (i - 1) t) < at)"
proof (induction t arbitrary: u b)
  case (Cons c t)
  show ?case
  proof (cases "at \<le> u")
    case True
    then show ?thesis by (intro exI[of _ 0]) simp
  next
    case False
    from Cons.IH[of "u + len_utf16 c" "b + len_utf8 c"] obtain i where i: "i \<le> length t"
      "utf8_ceil_from (u + len_utf16 c) (b + len_utf8 c) t at = Utf8 (b + len_utf8 c + str_len8 (take i t))"
      "at \<le> u + len_utf16 c + str_len16 (take i t) \<or> i = length t"
      "0 < i \<longrightarrow> u + len_utf16 c + str_len16 (take (i - 1) t) < at"
      by blast
    with False show ?thesis
      by (intro exI[of _ "Suc i"]) (cases i; auto simp: add.assoc)
  qed
qed simp

lemma str_get_cut:
  "i \<le> j \<Longrightarrow> j \<le> length t \<Longrightarrow>
    str_get t (str_len8 (take i t)) (str_len8 (take j t)) = Some (take (j - i) (drop i t))"
  by (simp add: str_get_def str_len8_take_mono)

lemma str_len16_cut_le:
  assumes "i \<le> length t" "str_len16 (take i t) < str_len16 (take j t)"
  shows "i \<le> j"
  by (metis assms(2) linorder_le_cases not_le str_len16_take_mono)

lemma lossy_scan_units:
  "a < b \<Longrightarrow> str_len16 (lossy_scan_from u t a b) = min (u + str_len16 t) b - max u a"
proof (induction t arbitrary: u)
  case (Cons c t)
  have "len_utf16 replacement = 1" by (simp add: replacement_def len_utf16_def)
  with Cons len_utf16_pos(1)[of c] show ?case
    by (auto simp: Let_def min_def max_def simp del: len_utf16_pos)
qed auto

section \<open>Properties\<close>

text \<open>C32: the two strict conversions are inverse: a UTF-16 offset converts to a byte offset
  exactly when that byte offset converts back to it.  In particular both are refused together
  off a boundary and neither conversion loses the position.\<close>

theorem utf8_of_utf16_of_inverse: "utf8_of t u = Inr b \<longleftrightarrow> utf16_of t b = Inr u"
  by (cases u; cases b) (auto simp only: utf8_of_iff utf16_of_iff utf8.inject utf16.inject)

text \<open>A range the program derived widens to whole characters and never narrows: the
  slice runs from the character the start falls in to the end of the character the end falls
  in, and one character less on either side would not cover the range.\<close>

theorem slice16_widened_covers:
  assumes "a < b"
  shows "\<exists>i j. i \<le> j \<and> j \<le> length t \<and>
    slice16_widened t (Span (Utf16 a) (Utf16 b)) = take (j - i) (drop i t) \<and>
    str_len16 (take i t) \<le> a \<and> min b (str_len16 t) \<le> str_len16 (take j t) \<and>
    (i < length t \<longrightarrow> a < str_len16 (take (Suc i) t)) \<and>
    (0 < j \<longrightarrow> str_len16 (take (j - 1) t) < b)"
proof -
  from utf8_floor_from_cut[of t 0 0 a] obtain i where i: "i \<le> length t"
    "utf8_floor_from 0 0 t a = Utf8 (str_len8 (take i t))" "str_len16 (take i t) \<le> a"
    "i < length t \<longrightarrow> a < str_len16 (take (Suc i) t)" by auto
  from utf8_ceil_from_cut[of t 0 0 b] obtain j where j: "j \<le> length t"
    "utf8_ceil_from 0 0 t b = Utf8 (str_len8 (take j t))"
    "b \<le> str_len16 (take j t) \<or> j = length t"
    "0 < j \<longrightarrow> str_len16 (take (j - 1) t) < b" by auto
  have "i \<le> j"
  proof (rule ccontr)
    assume "\<not> i \<le> j"
    with i(1) j(3) have "b \<le> str_len16 (take j t)" "j \<le> i" by auto
    with str_len16_take_mono[of j i t] i(3) assms show False by simp
  qed
  with i j assms show ?thesis
    by (intro exI[of _ i] exI[of _ j]) (auto simp: str_get_cut)
qed

theorem slice16_widened_covers_witness:
  "(1::nat) < 3 \<and> (\<exists>i j. i \<le> j \<and> j \<le> length [0x1F600, 97, 98 :: nat] \<and>
    slice16_widened [0x1F600, 97, 98] (Span (Utf16 1) (Utf16 3)) = take (j - i) (drop i [0x1F600, 97, 98]) \<and>
    str_len16 (take i [0x1F600, 97, 98]) \<le> 1 \<and>
    min 3 (str_len16 [0x1F600, 97, 98]) \<le> str_len16 (take j [0x1F600, 97, 98]))"
proof
  show "(1::nat) < 3" by simp
  from slice16_widened_covers[OF this, of "[0x1F600, 97, 98]"]
  show "\<exists>i j. i \<le> j \<and> j \<le> length [0x1F600, 97, 98 :: nat] \<and>
    slice16_widened [0x1F600, 97, 98] (Span (Utf16 1) (Utf16 3)) = take (j - i) (drop i [0x1F600, 97, 98]) \<and>
    str_len16 (take i [0x1F600, 97, 98]) \<le> 1 \<and>
    min 3 (str_len16 [0x1F600, 97, 98]) \<le> str_len16 (take j [0x1F600, 97, 98])"
    by (elim exE conjE) (intro exI conjI, assumption+)
qed

text \<open>A slice for display keeps the width of the range: whatever its ends split, it has
  as many UTF-16 units as the range has inside the text, each lone surrogate standing as one
  U+FFFD.\<close>

theorem slice16_lossy_units:
  "str_len16 (slice16_lossy t (Span (Utf16 a) (Utf16 b))) = min b (str_len16 t) - min a (str_len16 t)"
proof (cases "a < b")
  case False
  then show ?thesis by simp
next
  case ab: True
  show ?thesis
  proof (cases "\<exists>f g. utf8_of t (Utf16 a) = Inr f \<and> utf8_of t (Utf16 b) = Inr g")
    case True
    then obtain i j where ij: "i \<le> length t" "a = str_len16 (take i t)"
      "utf8_of t (Utf16 a) = Inr (Utf8 (str_len8 (take i t)))" "j \<le> length t"
      "b = str_len16 (take j t)" "utf8_of t (Utf16 b) = Inr (Utf8 (str_len8 (take j t)))"
      unfolding utf8_of_iff by blast
    from ij(2,5) ab have "str_len16 (take i t) < str_len16 (take j t)" by metis
    from str_len16_cut_le[OF ij(1) this] have "i \<le> j" .
    have "slice16_lossy t (Span (Utf16 a) (Utf16 b)) = take (j - i) (drop i t)"
      using ab ij(3,6) str_get_cut[OF \<open>i \<le> j\<close> ij(4)] by (simp del: utf8_of.simps)
    moreover have "min a (str_len16 t) = str_len16 (take i t)" "min b (str_len16 t) = str_len16 (take j t)"
      unfolding ij(2,5) by (simp_all add: str_len16_take_le min_absorb1)
    ultimately show ?thesis using str_len16_slice[OF \<open>i \<le> j\<close>, of t] by simp
  next
    case False
    then have "slice16_lossy t (Span (Utf16 a) (Utf16 b)) = lossy_scan_from 0 t a b"
      using ab by (auto simp del: utf8_of.simps split: sum.splits utf8.splits)
    with ab show ?thesis by (simp add: lossy_scan_units)
  qed
qed

text \<open>The code point index of a UTF-16 offset is the number of characters before it, and
  it is refused exactly when the strict byte conversion is.\<close>

theorem code_point_of_prefix:
  "(code_point_of t (Utf16 at) = Inr (CodePoint i) \<longleftrightarrow> i \<le> length t \<and> at = str_len16 (take i t)) \<and>
   is_ok (code_point_of t u) = is_ok (utf8_of t u)"
proof (intro conjI)
  show "code_point_of t (Utf16 at) = Inr (CodePoint i) \<longleftrightarrow> i \<le> length t \<and> at = str_len16 (take i t)"
    by (auto simp: code_point_of_from_iff)
  have ok: "is_ok m \<longleftrightarrow> (\<exists>r. m = Inr r)" for m :: "'e + 'r" by (cases m) auto
  obtain at where "u = Utf16 at" by (cases u)
  then show "is_ok (code_point_of t u) = is_ok (utf8_of t u)"
    by (auto simp: ok code_point_of_from_iff utf8_of_from_iff)
qed

end
