(* ===== verification/Utf8_Bytes.thy ===== *)
theory Utf8_Bytes
  imports Prelude
begin

text \<open>
  The part of Rust's standard library that moves a string to bytes and back: \<open>as_bytes\<close>,
  the big-endian byte arrays of the fixed-width integers, and \<open>String::from_utf8_lossy\<close>
  with the maximal-subpart replacement of \<open>core::str::lossy\<close>.  The lemmas are the round
  trips the row format rests on.
\<close>

section \<open>Definitions\<close>

definition by8 :: "nat \<Rightarrow> byte" where
  "by8 n = word_of_nat n"

definition encode_utf8 :: "uchar \<Rightarrow> byte list" where
  "encode_utf8 c =
    (if c < 0x80 then [by8 c]
     else if c < 0x800 then [by8 (0xC0 + c div 64), by8 (0x80 + c mod 64)]
     else if c < 0x10000 then
       [by8 (0xE0 + c div 4096), by8 (0x80 + c div 64 mod 64), by8 (0x80 + c mod 64)]
     else
       [by8 (0xF0 + c div 262144), by8 (0x80 + c div 4096 mod 64),
        by8 (0x80 + c div 64 mod 64), by8 (0x80 + c mod 64)])"

definition as_bytes :: "ustr \<Rightarrow> byte list" where
  "as_bytes s = concat (map encode_utf8 s)"

definition cont :: "byte \<Rightarrow> bool" where
  "cont b \<longleftrightarrow> 0x80 \<le> unat b \<and> unat b < 0xC0"

text \<open>The second byte a three- or four-byte lead accepts; the leads that could start an
  overlong form, a surrogate or a value past U+10FFFF accept fewer.\<close>

definition second_ok :: "byte \<Rightarrow> byte \<Rightarrow> bool" where
  "second_ok lead b \<longleftrightarrow>
    (let l = unat lead; x = unat b in
     if l = 0xE0 then 0xA0 \<le> x \<and> x < 0xC0
     else if l = 0xED then 0x80 \<le> x \<and> x < 0xA0
     else if l = 0xF0 then 0x90 \<le> x \<and> x < 0xC0
     else if l = 0xF4 then 0x80 \<le> x \<and> x < 0x90
     else 0x80 \<le> x \<and> x < 0xC0)"

definition low6 :: "byte \<Rightarrow> nat" where
  "low6 b = unat b mod 64"

definition lossy_char :: uchar where
  "lossy_char = 0xFFFD"

text \<open>One chunk of the lossy decoder: the character at the head of the bytes, or U+FFFD for
  the longest prefix that could have started one, and what is left.\<close>

definition utf8_next :: "byte \<Rightarrow> byte list \<Rightarrow> uchar \<times> byte list" where
  "utf8_next b bs =
    (let l = unat b in
     if l < 0x80 then (l, bs)
     else if 0xC2 \<le> l \<and> l < 0xE0 then
       (case bs of
          x # r \<Rightarrow> if cont x then ((l - 0xC0) * 64 + low6 x, r) else (lossy_char, bs)
        | [] \<Rightarrow> (lossy_char, []))
     else if 0xE0 \<le> l \<and> l < 0xF0 then
       (case bs of
          x # r \<Rightarrow>
            if second_ok b x then
              (case r of
                 y # q \<Rightarrow>
                   if cont y then ((l - 0xE0) * 4096 + low6 x * 64 + low6 y, q) else (lossy_char, r)
               | [] \<Rightarrow> (lossy_char, []))
            else (lossy_char, bs)
        | [] \<Rightarrow> (lossy_char, []))
     else if 0xF0 \<le> l \<and> l < 0xF5 then
       (case bs of
          x # r \<Rightarrow>
            if second_ok b x then
              (case r of
                 y # q \<Rightarrow>
                   if cont y then
                     (case q of
                        z # p \<Rightarrow>
                          if cont z
                          then ((l - 0xF0) * 262144 + low6 x * 4096 + low6 y * 64 + low6 z, p)
                          else (lossy_char, q)
                      | [] \<Rightarrow> (lossy_char, []))
                   else (lossy_char, r)
               | [] \<Rightarrow> (lossy_char, []))
            else (lossy_char, bs)
        | [] \<Rightarrow> (lossy_char, []))
     else (lossy_char, bs))"

lemma utf8_next_shorter: "length (snd (utf8_next b bs)) \<le> length bs"
  by (auto simp: utf8_next_def Let_def split: list.splits)

function from_utf8_lossy :: "byte list \<Rightarrow> ustr" where
  "from_utf8_lossy [] = []"
| "from_utf8_lossy (b # bs) = fst (utf8_next b bs) # from_utf8_lossy (snd (utf8_next b bs))"
  by pat_completeness auto
termination
  by (relation "measure length") (auto simp: utf8_next_shorter le_imp_less_Suc)

definition be16 :: "16 word \<Rightarrow> byte list" where
  "be16 w = [by8 (unat w div 256), by8 (unat w mod 256)]"

fun be_bytes :: "nat \<Rightarrow> nat \<Rightarrow> byte list" where
  "be_bytes 0 n = []"
| "be_bytes (Suc k) n = be_bytes k (n div 256) @ [by8 (n mod 256)]"

definition be_value :: "byte list \<Rightarrow> nat" where
  "be_value bs = foldl (\<lambda>a b. a * 256 + unat b) 0 bs"

section \<open>Round trips\<close>

lemma unat_by8 [simp]: "n < 256 \<Longrightarrow> unat (by8 n) = n"
  by (simp add: by8_def unat_of_nat take_bit_eq_mod)

lemma length_be_bytes [simp]: "length (be_bytes k n) = k"
  by (induction k arbitrary: n) auto

lemma be_value_be_bytes: "n < 256 ^ k \<Longrightarrow> be_value (be_bytes k n) = n"
proof (induction k arbitrary: n)
  case (Suc k)
  then have "n div 256 < 256 ^ k" by (simp add: less_mult_imp_div_less mult.commute)
  from Suc.IH[OF this] show ?case by (simp add: be_value_def)
qed (simp add: be_value_def)

lemma length_encode_utf8: "length (encode_utf8 c) = len_utf8 c"
  by (simp add: encode_utf8_def len_utf8_def)

lemma length_as_bytes [simp, unit_simps]: "length (as_bytes s) = str_len8 s"
  by (induction s) (auto simp: as_bytes_def length_encode_utf8)

lemma cont_by8: "n < 64 \<Longrightarrow> cont (by8 (0x80 + n))" "n < 64 \<Longrightarrow> low6 (by8 (0x80 + n)) = n"
  using mod_mult_self4[of 64 2 n] by (simp_all add: cont_def low6_def)

lemma second_ok_by8:
  "n < 64 \<Longrightarrow> l < 256 \<Longrightarrow> (l = 0xE0 \<longrightarrow> 32 \<le> n) \<Longrightarrow> (l = 0xED \<longrightarrow> n < 32) \<Longrightarrow>
   (l = 0xF0 \<longrightarrow> 16 \<le> n) \<Longrightarrow> (l = 0xF4 \<longrightarrow> n < 16) \<Longrightarrow> second_ok (by8 l) (by8 (0x80 + n))"
  by (auto simp: second_ok_def Let_def)

lemma radix64: "c div 4096 * 4096 + c div 64 mod 64 * 64 + c mod 64 = (c :: nat)"
proof -
  have "c div 4096 = c div 64 div 64" by (simp flip: div_mult2_eq)
  then show ?thesis using div_mult_mod_eq[of c 64] div_mult_mod_eq[of "c div 64" 64] by linarith
qed

lemma radix64_4:
  "c div 262144 * 262144 + c div 4096 mod 64 * 4096 + c div 64 mod 64 * 64 + c mod 64 = (c :: nat)"
proof -
  have "c div 262144 = c div 4096 div 64" by (simp flip: div_mult2_eq)
  then show ?thesis using radix64[of c] div_mult_mod_eq[of "c div 4096" 64] by linarith
qed

lemma utf8_next_encode:
  assumes "scalar c"
  shows "\<exists>b bs. encode_utf8 c = b # bs \<and> utf8_next b (bs @ r) = (c, r)"
proof -
  have m64: "k mod 64 < 64" for k :: nat by simp
  consider "c < 0x80" | "0x80 \<le> c" "c < 0x800" | "0x800 \<le> c" "c < 0x10000" | "0x10000 \<le> c"
    by linarith
  then show ?thesis
  proof cases
    case 1
    then show ?thesis by (simp add: encode_utf8_def utf8_next_def)
  next
    case 2
    then have "c div 64 < 32" "2 \<le> c div 64" by auto
    with 2 show ?thesis
      by (simp add: encode_utf8_def utf8_next_def Let_def cont_by8[OF m64])
  next
    case 3
    then have l: "c div 4096 < 16" by auto
    have surrogate: "c div 64 mod 64 < 32" if "c < 0xD800" "c div 4096 = 13"
    proof -
      from that(1) have "c div 64 < 864" by auto
      moreover from that(2) have "c div 64 div 64 = 13" by (simp flip: div_mult2_eq)
      ultimately show ?thesis by (simp flip: minus_div_mult_eq_mod)
    qed
    have "second_ok (by8 (0xE0 + c div 4096)) (by8 (0x80 + c div 64 mod 64))"
      using 3 l assms surrogate by (intro second_ok_by8) (auto simp: scalar_def)
    moreover have "c div 4096 * 4096 + c div 64 mod 64 * 64 + c mod 64 = c" by (rule radix64)
    ultimately show ?thesis using 3 l
      by (simp add: encode_utf8_def utf8_next_def Let_def cont_by8[OF m64])
  next
    case 4
    then have l: "c div 262144 < 5" using assms by (auto simp: scalar_def)
    have past: "c div 4096 mod 64 < 16" if "c < 0x110000" "c div 262144 = 4"
    proof -
      from that(1) have "c div 4096 < 272" by auto
      moreover from that(2) have "c div 4096 div 64 = 4" by (simp flip: div_mult2_eq)
      ultimately show ?thesis by (simp flip: minus_div_mult_eq_mod)
    qed
    have "second_ok (by8 (0xF0 + c div 262144)) (by8 (0x80 + c div 4096 mod 64))"
      using 4 l assms past by (intro second_ok_by8) (auto simp: scalar_def)
    moreover have "c div 262144 * 262144 + c div 4096 mod 64 * 4096 + c div 64 mod 64 * 64 + c mod 64 = c"
      by (rule radix64_4)
    ultimately show ?thesis using 4 l
      by (simp add: encode_utf8_def utf8_next_def Let_def cont_by8[OF m64])
  qed
qed

lemma from_utf8_lossy_as_bytes: "\<forall>c \<in> set s. scalar c \<Longrightarrow> from_utf8_lossy (as_bytes s) = s"
proof (induction s)
  case (Cons c s)
  from Cons.prems have "scalar c" by simp
  from utf8_next_encode[OF this, of "as_bytes s"] obtain b bs where
    "encode_utf8 c = b # bs" "utf8_next b (bs @ as_bytes s) = (c, as_bytes s)" by blast
  with Cons show ?case by (simp add: as_bytes_def)
qed (simp add: as_bytes_def)

end
