(* ===== verification/Log_Frame.thy ===== *)
theory Log_Frame
  imports Utf8_Bytes
begin

text \<open>
  The framing of one flushed row of the durable log, \<open>engine/log/frame.rs\<close>: the writer
  (\<open>begin\<close>, \<open>append\<close>, \<open>encode\<close>, \<open>encode_slices\<close>) and the checked reader
  (\<open>decode\<close> over \<open>take\<close>, \<open>take_u16\<close>, \<open>take_u32\<close>, \<open>take_i64\<close>).  Lengths are
  truncated to \<open>u16\<close> and \<open>u32\<close> as the casts of the source do.
\<close>

section \<open>Definitions\<close>

record batch =
  peer_key :: ustr
  client_seq :: "64 word"
  batch_bytes :: "byte list"

datatype frame_error = Empty | UnknownVersion byte | Truncated | Oversized

definition VERSION :: byte where
  "VERSION = by8 1"

definition BATCH_HEADER_BYTES :: nat where
  "BATCH_HEADER_BYTES = 2 + 8 + 4"

definition MAX_PEER_KEY :: nat where
  "MAX_PEER_KEY = 256"

definition ROW_HEADER_BYTES :: nat where
  "ROW_HEADER_BYTES = 1"

definition MAX_BATCH_BYTES :: nat where
  "MAX_BATCH_BYTES = 64 * 1024 * 1024"

definition overhead :: "ustr \<Rightarrow> nat" where
  "overhead key = BATCH_HEADER_BYTES + str_len8 key"

definition begin_row :: "nat \<Rightarrow> byte list" where
  "begin_row body = [VERSION]"

definition append_batch :: "byte list \<Rightarrow> ustr \<Rightarrow> 64 word \<Rightarrow> byte list \<Rightarrow> byte list" where
  "append_batch out key seq bs =
    (let k = as_bytes key in
     out @ be_bytes 2 (unat (word_of_nat (length k) :: 16 word)) @ k
         @ be_bytes 8 (unat seq)
         @ be_bytes 4 (unat (word_of_nat (length bs) :: 32 word)) @ bs)"

definition encode :: "batch list \<Rightarrow> byte list" where
  "encode batches =
    foldl (\<lambda>out b. append_batch out (peer_key b) (client_seq b) (batch_bytes b))
      (begin_row (sum_list (map (\<lambda>b. overhead (peer_key b) + length (batch_bytes b)) batches)))
      batches"

definition encode_slices :: "(ustr \<times> 64 word \<times> byte list) list \<Rightarrow> byte list" where
  "encode_slices batches =
    foldl (\<lambda>out (peer, seq, bs). append_batch out peer seq bs)
      (begin_row (sum_list (map (\<lambda>(peer, _, bs). overhead peer + length bs) batches)))
      batches"

definition take_bytes :: "byte list \<Rightarrow> nat \<Rightarrow> frame_error + byte list \<times> byte list" where
  "take_bytes rest n =
    (if length rest < n then Inl Truncated else Inr (take n rest, drop n rest))"

definition take_u16 :: "byte list \<Rightarrow> frame_error + 16 word \<times> byte list" where
  "take_u16 rest = rbind (take_bytes rest 2) (\<lambda>(bs, rest). Inr (word_of_nat (be_value bs), rest))"

definition take_u32 :: "byte list \<Rightarrow> frame_error + 32 word \<times> byte list" where
  "take_u32 rest = rbind (take_bytes rest 4) (\<lambda>(bs, rest). Inr (word_of_nat (be_value bs), rest))"

definition take_i64 :: "byte list \<Rightarrow> frame_error + 64 word \<times> byte list" where
  "take_i64 rest = rbind (take_bytes rest 8) (\<lambda>(bs, rest). Inr (word_of_nat (be_value bs), rest))"

definition decode_batch :: "byte list \<Rightarrow> frame_error + batch \<times> byte list" where
  "decode_batch rest =
    rbind (take_u16 rest) (\<lambda>(key_len, rest).
    if unat key_len > MAX_PEER_KEY then Inl Oversized
    else rbind (take_bytes rest (unat key_len)) (\<lambda>(key, rest).
    rbind (take_i64 rest) (\<lambda>(seq, rest).
    rbind (take_u32 rest) (\<lambda>(batch_len, rest).
    if unat batch_len > MAX_BATCH_BYTES then Inl Oversized
    else rbind (take_bytes rest (unat batch_len)) (\<lambda>(payload, rest).
    Inr (\<lparr>peer_key = from_utf8_lossy key, client_seq = seq, batch_bytes = payload\<rparr>, rest))))))"

lemma take_bytes_Inr: "take_bytes rest n = Inr (a, r) \<longleftrightarrow> n \<le> length rest \<and> a = take n rest \<and> r = drop n rest"
  by (auto simp: take_bytes_def)

lemmas take_defs = take_u16_def take_u32_def take_i64_def

lemma decode_batch_shape:
  assumes "decode_batch rest = Inr (b, r)"
  shows "\<exists>key. length key \<le> MAX_PEER_KEY \<and> peer_key b = from_utf8_lossy key \<and>
    length (batch_bytes b) \<le> MAX_BATCH_BYTES \<and>
    length rest = BATCH_HEADER_BYTES + length key + length (batch_bytes b) + length r"
  using assms
  by (auto simp: decode_batch_def take_defs rbind_Inr_iff take_bytes_Inr BATCH_HEADER_BYTES_def
      split: if_splits) (intro exI conjI, auto)

function decode_rest :: "byte list \<Rightarrow> frame_error + batch list" where
  "decode_rest rest =
    (if rest = [] then Inr []
     else (case decode_batch rest of
             Inl e \<Rightarrow> Inl e
           | Inr (b, rest') \<Rightarrow> rbind (decode_rest rest') (\<lambda>bs. Inr (b # bs))))"
  by pat_completeness auto
termination
  by (relation "measure length")
     (auto dest!: decode_batch_shape simp: BATCH_HEADER_BYTES_def)

declare decode_rest.simps [simp del]

definition decode :: "byte list \<Rightarrow> frame_error + batch list" where
  "decode bs =
    (case bs of
       [] \<Rightarrow> Inl Empty
     | version # rest \<Rightarrow> if version \<noteq> VERSION then Inl (UnknownVersion version) else decode_rest rest)"

section \<open>The row as a concatenation of framed batches\<close>

definition framed :: "batch \<Rightarrow> byte list" where
  "framed b = append_batch [] (peer_key b) (client_seq b) (batch_bytes b)"

text \<open>What a flush puts into a row: a key that fits the reader's bound and is a string, and a
  payload that fits its bound.\<close>

definition batch_ok :: "batch \<Rightarrow> bool" where
  "batch_ok b \<longleftrightarrow> str_len8 (peer_key b) \<le> MAX_PEER_KEY \<and> (\<forall>c \<in> set (peer_key b). scalar c) \<and>
    length (batch_bytes b) \<le> MAX_BATCH_BYTES"

lemma append_batch_framed:
  "append_batch out (peer_key b) (client_seq b) (batch_bytes b) = out @ framed b"
  by (simp add: append_batch_def framed_def Let_def)

lemma encode_framed: "encode bs = VERSION # concat (map framed bs)"
proof -
  have "foldl (\<lambda>out b. append_batch out (peer_key b) (client_seq b) (batch_bytes b)) out bs
      = out @ concat (map framed bs)" for out
    by (induction bs arbitrary: out) (auto simp: append_batch_framed)
  then show ?thesis by (simp add: encode_def begin_row_def)
qed

lemma length_framed:
  "length (framed b) = overhead (peer_key b) + length (batch_bytes b)"
  by (simp add: framed_def append_batch_def Let_def overhead_def BATCH_HEADER_BYTES_def)

lemma framed_nonempty: "framed b \<noteq> []"
  by (metis length_framed overhead_def BATCH_HEADER_BYTES_def add_is_0 list.size(3) zero_neq_numeral)

lemma unat_small16: "n \<le> 256 \<Longrightarrow> unat (word_of_nat n :: 16 word) = n"
  by (simp add: unat_of_nat take_bit_eq_mod)

lemma unat_small32: "n \<le> MAX_BATCH_BYTES \<Longrightarrow> unat (word_of_nat n :: 32 word) = n"
  by (simp add: unat_of_nat take_bit_eq_mod MAX_BATCH_BYTES_def)

lemma be_value_word [simp]: "be_value (be_bytes 8 (unat (w :: 64 word))) = unat w"
  using unsigned_less[of w] by (intro be_value_be_bytes) simp

lemma framed_parts:
  assumes "batch_ok b"
  shows "framed b = be_bytes 2 (str_len8 (peer_key b)) @ as_bytes (peer_key b) @
    be_bytes 8 (unat (client_seq b)) @ be_bytes 4 (length (batch_bytes b)) @ batch_bytes b"
  using assms
  by (simp add: framed_def append_batch_def Let_def batch_ok_def MAX_PEER_KEY_def unat_small16 unat_small32)

lemma decode_batch_framed:
  assumes "batch_ok b"
  shows "decode_batch (framed b @ r) = Inr (b, r)"
proof -
  from assms have k: "str_len8 (peer_key b) \<le> 256" and s: "\<forall>c \<in> set (peer_key b). scalar c"
    and l: "length (batch_bytes b) \<le> MAX_BATCH_BYTES" by (auto simp: batch_ok_def MAX_PEER_KEY_def)
  have v: "be_value (be_bytes 2 (str_len8 (peer_key b))) = str_len8 (peer_key b)"
    "be_value (be_bytes 4 (length (batch_bytes b))) = length (batch_bytes b)"
    using k l by (auto intro!: be_value_be_bytes simp: MAX_BATCH_BYTES_def)
  show ?thesis
    by (simp add: framed_parts[OF assms] decode_batch_def take_defs take_bytes_def v unat_small16[OF k]
        unat_small32[OF l] MAX_PEER_KEY_def k l not_less from_utf8_lossy_as_bytes[OF s])
qed

text \<open>A framed batch cut short anywhere is \<open>Truncated\<close>: no length it names is impossible, so
  the reader runs out of bytes.\<close>

lemma decode_batch_cut:
  assumes "batch_ok b" "n < length (framed b)"
  shows "decode_batch (take n (framed b)) = Inl Truncated"
proof -
  from assms have k: "str_len8 (peer_key b) \<le> 256"
    and l: "length (batch_bytes b) \<le> MAX_BATCH_BYTES" by (auto simp: batch_ok_def MAX_PEER_KEY_def)
  have v: "be_value (be_bytes 2 (str_len8 (peer_key b))) = str_len8 (peer_key b)"
    "be_value (be_bytes 4 (length (batch_bytes b))) = length (batch_bytes b)"
    using k l by (auto intro!: be_value_be_bytes simp: MAX_BATCH_BYTES_def)
  have n: "n < 14 + str_len8 (peer_key b) + length (batch_bytes b)"
    using assms(2) by (simp add: length_framed overhead_def BATCH_HEADER_BYTES_def)
  consider "n < 2" | "2 \<le> n" "n < 2 + str_len8 (peer_key b)"
    | "2 + str_len8 (peer_key b) \<le> n" "n < 10 + str_len8 (peer_key b)"
    | "10 + str_len8 (peer_key b) \<le> n" "n < 14 + str_len8 (peer_key b)"
    | "14 + str_len8 (peer_key b) \<le> n" by linarith
  then show ?thesis
    using n k l by cases
     (simp_all add: framed_parts[OF assms(1)] decode_batch_def take_defs take_bytes_def v unat_small16
       unat_small32 MAX_PEER_KEY_def)
qed

lemma decode_rest_framed:
  assumes "\<forall>b \<in> set bs. batch_ok b"
  shows "decode_rest (concat (map framed bs) @ r) = rbind (decode_rest r) (\<lambda>more. Inr (bs @ more))"
  using assms
proof (induction bs)
  case Nil
  then show ?case by (cases "decode_rest r") simp_all
next
  case (Cons b bs)
  then have "decode_rest (concat (map framed (b # bs)) @ r)
      = rbind (decode_rest (concat (map framed bs) @ r)) (\<lambda>more. Inr (b # more))"
    by (subst decode_rest.simps) (simp add: framed_nonempty decode_batch_framed)
  with Cons show ?case by (cases "decode_rest r") simp_all
qed

lemma decode_rest_cut:
  assumes "\<forall>b \<in> set bs. batch_ok b"
  shows "decode_rest (take n (concat (map framed bs))) = Inl Truncated \<or>
    (\<exists>k \<le> length bs. decode_rest (take n (concat (map framed bs))) = Inr (take k bs))"
  using assms
proof (induction bs arbitrary: n)
  case Nil
  show ?case by (simp add: decode_rest.simps)
next
  case (Cons b bs)
  show ?case
  proof (cases "n < length (framed b)")
    case cut: True
    show ?thesis
    proof (cases n)
      case 0
      then show ?thesis by (auto simp: decode_rest.simps)
    next
      case (Suc m)
      with cut Cons.prems have "take n (framed b) \<noteq> []" "decode_batch (take n (framed b)) = Inl Truncated"
        by (auto simp: decode_batch_cut)
      with cut show ?thesis by (subst (1 2) decode_rest.simps) (simp add: less_imp_le)
    qed
  next
    case False
    with Cons.prems have "decode_rest (take n (concat (map framed (b # bs)))) =
        rbind (decode_rest (take (n - length (framed b)) (concat (map framed bs)))) (\<lambda>more. Inr (b # more))"
      using decode_rest_framed[of "[b]"] by simp
    with Cons.IH[of "n - length (framed b)"] Cons.prems show ?thesis
      by (auto simp: ex_le_Suc)
  qed
qed

lemma decode_framed_row: "\<forall>b \<in> set bs. batch_ok b \<Longrightarrow> decode (encode bs) = Inr bs"
  using decode_rest_framed[of bs "[]"]
  by (simp add: encode_framed decode_def decode_rest.simps[of "[]"])

definition one_batch :: batch where
  "one_batch = \<lparr>peer_key = [0x61, 0xE9], client_seq = 7, batch_bytes = [1, 2]\<rparr>"

lemma one_batch_ok: "batch_ok one_batch"
  by (simp add: one_batch_def batch_ok_def scalar_def MAX_PEER_KEY_def MAX_BATCH_BYTES_def len_utf8_def)

section \<open>Properties\<close>





lemma decode_rest_bounds:
  "decode_rest r = Inr bs \<Longrightarrow>
    (\<forall>b \<in> set bs. length (batch_bytes b) \<le> MAX_BATCH_BYTES) \<and>
    (\<Sum>b\<leftarrow>bs. BATCH_HEADER_BYTES + length (batch_bytes b)) \<le> length r"
proof (induction r arbitrary: bs rule: decode_rest.induct)
  case (1 r)
  show ?case
  proof (cases "r = []")
    case True
    with 1(2) show ?thesis by (simp add: decode_rest.simps)
  next
    case False
    with 1(2) obtain b r' more where d: "decode_batch r = Inr (b, r')" "decode_rest r' = Inr more" "bs = b # more"
      by (subst (asm) decode_rest.simps) (auto simp: rbind_Inr_iff split: sum.splits)
    from 1(1)[OF False d(1) refl d(2)] decode_batch_shape[OF d(1)] d(3) show ?thesis by auto
  qed
qed

text \<open>C19: whatever bytes a row holds, a decoded row cannot claim more than it has: every
  payload is within the reader's bound and all payloads together, with a header for each,
  fit into the row after its version byte.\<close>

theorem decode_bounds:
  assumes "decode row = Inr bs"
  shows "(\<forall>b \<in> set bs. length (batch_bytes b) \<le> MAX_BATCH_BYTES) \<and>
    ROW_HEADER_BYTES + (\<Sum>b\<leftarrow>bs. BATCH_HEADER_BYTES + length (batch_bytes b)) \<le> length row"
  using assms decode_rest_bounds[of "tl row" bs]
  by (auto simp: decode_def ROW_HEADER_BYTES_def split: list.splits if_splits)

theorem decode_bounds_witness:
  "length (batch_bytes one_batch) \<le> MAX_BATCH_BYTES \<and>
    ROW_HEADER_BYTES + (BATCH_HEADER_BYTES + length (batch_bytes one_batch)) \<le> length (encode [one_batch])"
  using decode_bounds[of "encode [one_batch]" "[one_batch]"] by (simp add: decode_framed_row one_batch_ok)

text \<open>Encoding straight out of the buffer writes the same row as encoding a copied list of
  batches, and a row is exactly as long as its header and the framed batches, which is the
  capacity it was allocated with.\<close>

theorem encode_slices_same_row:
  "encode_slices (map (\<lambda>b. (peer_key b, client_seq b, batch_bytes b)) bs) = encode bs \<and>
   length (encode bs) =
    ROW_HEADER_BYTES + (\<Sum>b\<leftarrow>bs. overhead (peer_key b) + length (batch_bytes b))"
proof (intro conjI)
  show "encode_slices (map (\<lambda>b. (peer_key b, client_seq b, batch_bytes b)) bs) = encode bs"
    by (simp add: encode_slices_def encode_def begin_row_def foldl_map)
  show "length (encode bs) =
    ROW_HEADER_BYTES + (\<Sum>b\<leftarrow>bs. overhead (peer_key b) + length (batch_bytes b))"
    by (simp add: encode_framed ROW_HEADER_BYTES_def length_concat o_def length_framed)
qed

end
