(* ===== verification/Byte_Pool.thy ===== *)
theory Byte_Pool
  imports Prelude
begin

text \<open>
  The byte pool of \<open>engine/log/pool.rs\<close>, on which the decoded-memory budget and the
  pending-source budget both rest: a limit, a 64-bit counter of bytes taken, the checked
  \<open>try_take\<close>, \<open>give_back\<close> and the waiting \<open>take\<close>.  The compare-and-swap loop of
  \<open>try_take\<close> is also given as a step relation over any number of threads, whose every
  reachable state keeps the pool's accounting.  The locale \<open>byte_pool\<close> is the interface the
  two budgets use: what a take and a give-back do to the count, and that a refusal means there
  was no room.
\<close>

section \<open>Definitions\<close>

type_synonym u64 = "64 word"

definition checked_add :: "u64 \<Rightarrow> u64 \<Rightarrow> u64 option" where
  "checked_add a b = (if unat a + unat b < 2 ^ 64 then Some (a + b) else None)"

definition saturating_add :: "u64 \<Rightarrow> u64 \<Rightarrow> u64" where
  "saturating_add a b = (if unat a + unat b < 2 ^ 64 then a + b else - 1)"

definition saturating_mul :: "u64 \<Rightarrow> u64 \<Rightarrow> u64" where
  "saturating_mul a b = (if unat a * unat b < 2 ^ 64 then a * b else - 1)"

record pool =
  pool_limit :: u64
  pool_used :: u64

definition new_pool :: "u64 \<Rightarrow> pool" where
  "new_pool limit = \<lparr>pool_limit = limit, pool_used = 0\<rparr>"

definition try_take :: "pool \<Rightarrow> u64 \<Rightarrow> pool option" where
  "try_take p bytes =
    (case checked_add (pool_used p) bytes of
       None \<Rightarrow> None
     | Some wanted \<Rightarrow>
         if wanted > pool_limit p then None else Some (p\<lparr>pool_used := wanted\<rparr>))"

definition give_back :: "pool \<Rightarrow> u64 \<Rightarrow> pool" where
  "give_back p bytes = p\<lparr>pool_used := pool_used p - bytes\<rparr>"

datatype wait = Until | Forever

text \<open>While \<open>take\<close> waits, other holders move the counter; a wait ends with the counter a
  release left, or with the deadline.\<close>

datatype wake = Released u64 | Elapsed

datatype refused = Refused

text \<open>The loop of \<open>take\<close> over the wakeups it is given.  \<open>None\<close> is a call that is still
  waiting after them.  A caller that waits forever has no deadline to pass.\<close>

fun take_loop :: "pool \<Rightarrow> u64 \<Rightarrow> wait \<Rightarrow> wake list \<Rightarrow> (refused + pool) option" where
  "take_loop p bytes wait wakes =
    (case try_take p bytes of
       Some p' \<Rightarrow> Some (Inr p')
     | None \<Rightarrow>
         (case wakes of
            [] \<Rightarrow> None
          | Released used # rest \<Rightarrow> take_loop (p\<lparr>pool_used := used\<rparr>) bytes wait rest
          | Elapsed # rest \<Rightarrow>
              (case wait of
                 Forever \<Rightarrow> take_loop p bytes wait rest
               | Until \<Rightarrow> Some (Inl Refused))))"

declare take_loop.simps [simp del]

definition pool_take :: "pool \<Rightarrow> u64 \<Rightarrow> wait \<Rightarrow> wake list \<Rightarrow> (refused + pool) option" where
  "pool_take p bytes wait wakes =
    (if bytes > pool_limit p then Some (Inl Refused) else take_loop p bytes wait wakes)"

text \<open>One thread's use of the pool, at the grain of its atomic accesses: it loads the counter,
  then tries to swap in its new value until it succeeds or sees that there is no room.  The
  weak compare-and-exchange may fail although the values agree.\<close>

datatype cthread =
  Idle
| Trying (seen: u64) (amount: u64)
| Holding (amount: u64)
| Turned_away

inductive cas_step :: "pool \<times> cthread list \<Rightarrow> pool \<times> cthread list \<Rightarrow> bool" where
  load: "i < length ts \<Longrightarrow> ts ! i = Idle \<or> ts ! i = Turned_away \<Longrightarrow>
    cas_step (p, ts) (p, ts[i := Trying (pool_used p) n])"
| overflow: "i < length ts \<Longrightarrow> ts ! i = Trying c n \<Longrightarrow> checked_add c n = None \<Longrightarrow>
    cas_step (p, ts) (p, ts[i := Turned_away])"
| full: "i < length ts \<Longrightarrow> ts ! i = Trying c n \<Longrightarrow> checked_add c n = Some w \<Longrightarrow> w > pool_limit p \<Longrightarrow>
    cas_step (p, ts) (p, ts[i := Turned_away])"
| swap: "i < length ts \<Longrightarrow> ts ! i = Trying c n \<Longrightarrow> checked_add c n = Some w \<Longrightarrow> \<not> w > pool_limit p \<Longrightarrow>
    c = pool_used p \<Longrightarrow>
    cas_step (p, ts) (p\<lparr>pool_used := w\<rparr>, ts[i := Holding n])"
| retry: "i < length ts \<Longrightarrow> ts ! i = Trying c n \<Longrightarrow> checked_add c n = Some w \<Longrightarrow> \<not> w > pool_limit p \<Longrightarrow>
    cas_step (p, ts) (p, ts[i := Trying (pool_used p) n])"
| release: "i < length ts \<Longrightarrow> ts ! i = Holding n \<Longrightarrow>
    cas_step (p, ts) (give_back p n, ts[i := Idle])"

inductive cas_reach :: "pool \<times> cthread list \<Rightarrow> pool \<times> cthread list \<Rightarrow> bool" where
  start: "cas_reach s s"
| more: "cas_reach s t \<Longrightarrow> cas_step t u \<Longrightarrow> cas_reach s u"

fun held :: "cthread \<Rightarrow> nat" where
  "held (Holding n) = unat n"
| "held _ = 0"

section \<open>Arithmetic at 64 bits\<close>

lemma unat_add_fits: "unat a + unat b < 2 ^ 64 \<Longrightarrow> unat (a + b) = unat a + unat (b :: u64)"
  by (simp add: unat_word_ariths)

lemma unat_mul_fits: "unat a * unat b < 2 ^ 64 \<Longrightarrow> unat (a * b) = unat a * unat (b :: u64)"
  by (simp add: unat_word_ariths)

lemma unat_bound: "unat (a :: u64) < 2 ^ 64"
  using unsigned_less[of a] by simp

lemma unat_minus_one: "unat (- 1 :: u64) = 2 ^ 64 - 1"
  by (simp add: unsigned_minus_1_eq_mask mask_eq_exp_minus_1)

lemma unat_sub_le: "b \<le> a \<Longrightarrow> unat (a - b) = unat a - unat (b :: u64)"
  by (simp add: unat_sub)

lemma checked_add_Some: "checked_add a b = Some c \<longleftrightarrow> unat a + unat b < 2 ^ 64 \<and> unat c = unat a + unat b"
  unfolding checked_add_def by (auto simp only: word_unat_eq_iff unat_add_fits option.inject option.distinct split: if_splits)

lemma unat_saturating_add: "unat (saturating_add a b) = min (2 ^ 64 - 1) (unat a + unat b)"
  by (simp add: saturating_add_def unat_add_fits unat_minus_one)

lemma unat_saturating_mul: "unat (saturating_mul a b) = min (2 ^ 64 - 1) (unat a * unat b)"
  by (simp add: saturating_mul_def unat_mul_fits unat_minus_one)

section \<open>The interface of a pool\<close>

text \<open>What a budget relies on: a successful take adds exactly the bytes asked for and stays
  within the limit, a refusal means they did not fit, and giving back bytes that were taken
  subtracts exactly them.\<close>

locale byte_pool =
  fixes limit :: "'p \<Rightarrow> nat"
    and used :: "'p \<Rightarrow> nat"
    and acquire :: "'p \<Rightarrow> u64 \<Rightarrow> 'p option"
    and release :: "'p \<Rightarrow> u64 \<Rightarrow> 'p"
  assumes acquire_Some: "acquire p n = Some q \<Longrightarrow>
      limit q = limit p \<and> used q = used p + unat n \<and> used q \<le> limit q"
    and acquire_None: "acquire p n = None \<Longrightarrow> limit p < used p + unat n"
    and release_used: "unat n \<le> used p \<Longrightarrow>
      limit (release p n) = limit p \<and> used (release p n) = used p - unat n"
begin

text \<open>The books balance: the pool counts exactly what its holders hold, within the limit.\<close>

definition balanced :: "'p \<Rightarrow> nat \<Rightarrow> bool" where
  "balanced p whole \<longleftrightarrow> used p = whole \<and> whole \<le> limit p"

lemma balanced_acquire:
  assumes "balanced p whole" "acquire p n = Some q"
  shows "balanced q (whole + unat n)" "limit q = limit p"
  using assms(1) acquire_Some[OF assms(2)] by (simp_all add: balanced_def)

lemma balanced_release:
  assumes "balanced p whole" "unat n \<le> whole"
  shows "balanced (release p n) (whole - unat n)" "limit (release p n) = limit p"
  using assms release_used[of n p] by (auto simp: balanced_def)

lemma balanced_acquire_iff:
  assumes "balanced p whole"
  shows "acquire p n \<noteq> None \<longleftrightarrow> whole + unat n \<le> limit p"
  using assms acquire_None[of p n] acquire_Some[of p n] by (force simp: balanced_def)

text \<open>With nothing held, anything within the limit is granted: refusals are never final.\<close>

lemma acquire_when_idle:
  assumes "balanced p 0" "unat n \<le> limit p"
  shows "acquire p n \<noteq> None"
  using assms balanced_acquire_iff[of p 0 n] by simp

end

interpretation pl: byte_pool "\<lambda>p. unat (pool_limit p)" "\<lambda>p. unat (pool_used p)" try_take give_back
proof
  fix p n q
  assume "try_take p n = Some q"
  then show "unat (pool_limit q) = unat (pool_limit p) \<and>
      unat (pool_used q) = unat (pool_used p) + unat n \<and> unat (pool_used q) \<le> unat (pool_limit q)"
    by (auto simp: try_take_def checked_add_Some not_less word_le_nat_alt split: option.splits if_splits)
next
  fix p n
  assume "try_take p n = None"
  then show "unat (pool_limit p) < unat (pool_used p) + unat n"
    using unat_bound[of "pool_limit p"]
    by (auto simp: try_take_def checked_add_Some word_less_nat_alt split: option.splits if_splits)
       (auto simp: checked_add_def split: if_splits)
next
  fix n :: u64 and p :: pool
  assume "unat n \<le> unat (pool_used p)"
  then show "unat (pool_limit (give_back p n)) = unat (pool_limit p) \<and>
      unat (pool_used (give_back p n)) = unat (pool_used p) - unat n"
    by (simp add: give_back_def unat_sub_le word_le_nat_alt)
qed

section \<open>The waiting take\<close>

lemma take_loop_result:
  "take_loop p n w wakes = Some (Inr q) \<Longrightarrow>
    pool_limit q = pool_limit p \<and> unat (pool_used q) \<le> unat (pool_limit p)"
proof (induction wakes arbitrary: p)
  case Nil
  then show ?case
    by (subst (asm) take_loop.simps) (auto dest: pl.acquire_Some simp: word_unat_eq_iff split: option.splits)
next
  case (Cons k wakes)
  show ?case
  proof (cases "try_take p n")
    case (Some r)
    with Cons.prems pl.acquire_Some[OF Some] show ?thesis
      by (subst (asm) take_loop.simps) (auto simp: word_unat_eq_iff)
  next
    case None
    with Cons.prems obtain p' where "take_loop p' n w wakes = Some (Inr q)" "pool_limit p' = pool_limit p"
      by (subst (asm) take_loop.simps) (auto split: wake.splits wait.splits)
    with Cons.IH[of p'] show ?thesis by simp
  qed
qed

lemma take_loop_forever:
  assumes "unat n \<le> unat (pool_limit p)" "Released u \<in> set wakes" "unat u + unat n \<le> unat (pool_limit p)"
  shows "\<exists>q. take_loop p n Forever wakes = Some (Inr q)"
  using assms
proof (induction wakes arbitrary: p)
  case (Cons k wakes)
  show ?case
  proof (cases "try_take p n")
    case (Some q)
    then show ?thesis by (subst take_loop.simps) simp
  next
    case None
    show ?thesis
    proof (cases "Released u \<in> set wakes")
      case True
      with None Cons show ?thesis
        by (subst take_loop.simps) (auto split: wake.splits)
    next
      case False
      with Cons.prems(2) have k: "k = Released u" by auto
      have "try_take (p\<lparr>pool_used := u\<rparr>) n \<noteq> None"
        using pl.acquire_None[of "p\<lparr>pool_used := u\<rparr>" n] Cons.prems(3) by auto
      then obtain q where "try_take (p\<lparr>pool_used := u\<rparr>) n = Some q" by blast
      then have "take_loop (p\<lparr>pool_used := u\<rparr>) n Forever wakes = Some (Inr q)"
        by (subst take_loop.simps) simp
      with None k show ?thesis by (subst take_loop.simps) simp
    qed
  qed
qed simp

lemma take_loop_forever_not_refused: "take_loop p n Forever wakes \<noteq> Some (Inl Refused)"
proof (induction wakes arbitrary: p)
  case Nil
  show ?case by (subst take_loop.simps) (simp split: option.splits)
next
  case (Cons k wakes)
  then show ?case by (subst take_loop.simps) (simp split: option.splits wake.splits)
qed

section \<open>Threads racing on the counter\<close>

fun cas_inv :: "pool \<times> cthread list \<Rightarrow> bool" where
  "cas_inv (p, ts) \<longleftrightarrow>
    unat (pool_used p) = sum_list (map held ts) \<and> unat (pool_used p) \<le> unat (pool_limit p)"

inductive_cases cas_stepE: "cas_step (p, ts) s"

lemma held_update:
  "i < length ts \<Longrightarrow> sum_list (map held (ts[i := t])) + held (ts ! i) = sum_list (map held ts) + held t"
  using elem_le_sum_list[of i "map held ts"] by (simp add: map_update sum_list_update)

lemma cas_step_inv: "cas_step s t \<Longrightarrow> cas_inv s \<Longrightarrow> cas_inv t"
proof (induction rule: cas_step.induct)
  case (load i ts p n)
  then show ?case using held_update[of i ts "Trying (pool_used p) n"] by auto
next
  case (overflow i ts c n p)
  then show ?case using held_update[of i ts Turned_away] by simp
next
  case (full i ts c n w p)
  then show ?case using held_update[of i ts Turned_away] by simp
next
  case (swap i ts c n w p)
  then show ?case using held_update[of i ts "Holding n"]
    by (auto simp: checked_add_Some word_le_nat_alt not_less)
next
  case (retry i ts c n w p)
  then show ?case using held_update[of i ts "Trying (pool_used p) n"] by simp
next
  case (release i ts n p)
  then have u: "unat n \<le> unat (pool_used p)"
    using elem_le_sum_list[of i "map held ts"] by simp
  with release held_update[of i ts Idle] pl.release_used[OF u] show ?case by force
qed

lemma cas_step_limit: "cas_step s t \<Longrightarrow> pool_limit (fst t) = pool_limit (fst s)"
  by (induction rule: cas_step.induct) (simp_all add: give_back_def)

lemma cas_reach_inv: "cas_reach s t \<Longrightarrow> cas_inv s \<Longrightarrow> cas_inv t"
  by (induction rule: cas_reach.induct) (auto dest: cas_step_inv)

lemma cas_reach_limit: "cas_reach s t \<Longrightarrow> pool_limit (fst t) = pool_limit (fst s)"
  by (induction rule: cas_reach.induct) (auto dest: cas_step_limit)

section \<open>Properties\<close>

text \<open>C20: however any number of threads interleave their loads, swaps, retries and releases,
  the pool counts exactly the bytes they hold and never more than its limit; so no take is
  partial, none is counted twice, and no release makes the counter wrap.\<close>

theorem cas_pool_accounting:
  assumes "cas_reach (new_pool limit, replicate k Idle) (p, ts)"
  shows "unat (pool_used p) = sum_list (map held ts) \<and> unat (pool_used p) \<le> unat limit"
proof -
  have "cas_inv (new_pool limit, replicate k Idle)"
    by (simp add: new_pool_def sum_list_replicate map_replicate)
  from cas_reach_inv[OF assms this] cas_reach_limit[OF assms] show ?thesis
    by (simp add: new_pool_def)
qed

theorem cas_pool_accounting_witness:
  "unat (pool_used \<lparr>pool_limit = 10, pool_used = 7\<rparr>) = sum_list (map held [Holding 7, Trying 0 5]) \<and>
   unat (pool_used \<lparr>pool_limit = 10, pool_used = 7\<rparr>) \<le> unat (10 :: u64)"
proof (rule cas_pool_accounting[of 10 2])
  have s1: "cas_step (new_pool 10, replicate 2 Idle) (new_pool 10, [Trying 0 7, Idle])"
    using cas_step.load[of 0 "replicate 2 Idle" "new_pool 10" 7]
    by (simp add: new_pool_def numeral_2_eq_2)
  have s2: "cas_step (new_pool 10, [Trying 0 7, Idle]) (new_pool 10, [Trying 0 7, Trying 0 5])"
    using cas_step.load[of 1 "[Trying 0 7, Idle]" "new_pool 10" 5] by (simp add: new_pool_def)
  have s3: "cas_step (new_pool 10, [Trying 0 7, Trying 0 5])
      (\<lparr>pool_limit = 10, pool_used = 7\<rparr>, [Holding 7, Trying 0 5])"
    using cas_step.swap[of 0 "[Trying 0 7, Trying 0 5]" 0 7 7 "new_pool 10"]
    by (simp add: new_pool_def checked_add_def)
  show "cas_reach (new_pool 10, replicate 2 Idle)
      (\<lparr>pool_limit = 10, pool_used = 7\<rparr>, [Holding 7, Trying 0 5])"
    by (rule cas_reach.more[OF cas_reach.more[OF cas_reach.more[OF cas_reach.start s1] s2] s3])
qed

text \<open>C21: a mandatory drain, which waits forever, is never refused for want of room unless it
  asks for more than the whole pool, and it gets its bytes as soon as some release leaves
  enough; what it gets keeps the pool within its limit.\<close>

theorem pool_take_forever:
  assumes "unat n \<le> unat (pool_limit p)"
  shows "pool_take p n Forever wakes \<noteq> Some (Inl Refused) \<and>
    (Released u \<in> set wakes \<and> unat u + unat n \<le> unat (pool_limit p) \<longrightarrow>
      (\<exists>q. pool_take p n Forever wakes = Some (Inr q) \<and> pool_limit q = pool_limit p \<and>
        unat (pool_used q) \<le> unat (pool_limit p)))"
proof (intro conjI impI)
  have eq: "pool_take p n Forever wakes = take_loop p n Forever wakes"
    using assms by (simp add: pool_take_def word_less_nat_alt)
  show "pool_take p n Forever wakes \<noteq> Some (Inl Refused)"
    unfolding eq by (rule take_loop_forever_not_refused)
  assume "Released u \<in> set wakes \<and> unat u + unat n \<le> unat (pool_limit p)"
  with take_loop_forever[OF assms] take_loop_result
  show "\<exists>q. pool_take p n Forever wakes = Some (Inr q) \<and> pool_limit q = pool_limit p \<and>
        unat (pool_used q) \<le> unat (pool_limit p)"
    unfolding eq by blast
qed

theorem pool_take_forever_witness:
  "pool_take \<lparr>pool_limit = 10, pool_used = 9\<rparr> 5 Forever [Elapsed] \<noteq> Some (Inl Refused) \<and>
   (\<exists>q. pool_take \<lparr>pool_limit = 10, pool_used = 9\<rparr> 5 Forever [Released 8, Released 2] = Some (Inr q) \<and>
      pool_limit q = pool_limit \<lparr>pool_limit = 10, pool_used = 9\<rparr> \<and>
      unat (pool_used q) \<le> unat (pool_limit \<lparr>pool_limit = 10, pool_used = 9\<rparr>))"
  using pool_take_forever[of 5 "\<lparr>pool_limit = 10, pool_used = 9\<rparr>" "[Elapsed]" 0]
    pool_take_forever[of 5 "\<lparr>pool_limit = 10, pool_used = 9\<rparr>" "[Released 8, Released 2]" 2]
  by simp

end
