(* ===== verification/Budgets.thy ===== *)
theory Budgets
  imports Byte_Pool
begin

text \<open>
  The deployment's byte budgets: the pending-source budget with its two pools
  (\<open>engine/log/pending.rs\<close>), the decoded-memory budget with its reservations and counters
  (\<open>engine/log/budget.rs\<close>), the owner storage ledger (\<open>engine/log/ledger.rs\<close>), and the
  formulas that size them (\<open>base/config/budget.rs\<close>).  A reservation is a value the model
  holds in a list beside the budget; dropping it is an operation, since Rust runs \<open>Drop\<close>
  exactly once for each.  The theorems follow a budget through every sequence of operations.
\<close>

section \<open>The formulas\<close>

definition DEFAULT_EXPANSION :: u64 where "DEFAULT_EXPANSION = 6"

definition BUILD_TRANSIENT_EXPANSION :: u64 where "BUILD_TRANSIENT_EXPANSION = 8"

definition estimate :: "u64 \<Rightarrow> u64 \<Rightarrow> u64" where
  "estimate encoded expansion = max (saturating_mul encoded expansion) (64 * 1024)"

definition FLUSH_TRIGGER_BYTES :: nat where
  "FLUSH_TRIGGER_BYTES = 1024 * 1024"

definition BUFFER_CEILING_BYTES :: nat where
  "BUFFER_CEILING_BYTES = FLUSH_TRIGGER_BYTES * 4"

definition max_update_bytes :: "nat \<Rightarrow> nat" where
  "max_update_bytes quota = quota"

definition max_pending_charge :: "nat \<Rightarrow> nat" where
  "max_pending_charge quota =
    (let single = max_update_bytes quota + (2 + 8 + 4) + 256 in
     if single > BUFFER_CEILING_BYTES then single else BUFFER_CEILING_BYTES)"

definition max_row_bytes :: "nat \<Rightarrow> nat" where
  "max_row_bytes quota = 1 + max_pending_charge quota"

definition SCRATCH_SLACK :: u64 where
  "SCRATCH_SLACK = 8 * 1024"

definition driver_scratch_for :: "u64 \<Rightarrow> u64" where
  "driver_scratch_for row = saturating_mul (saturating_add row SCRATCH_SLACK) 4"

definition scratch_for :: "u64 \<Rightarrow> u64" where
  "scratch_for row = saturating_add row (driver_scratch_for row)"

section \<open>The pending budget\<close>

datatype pressure = Pressure
datatype kind = Retained | Scratch

record reservation =
  res_kind :: kind
  res_bytes :: u64

record pending_budget =
  retained :: pool
  scratch :: pool
  refused_retained :: u64
  refused_scratch :: u64

definition new_pending :: "u64 \<Rightarrow> u64 \<Rightarrow> pending_budget" where
  "new_pending retained_limit scratch_limit =
    \<lparr>retained = new_pool (max retained_limit 1), scratch = new_pool (max scratch_limit 1),
     refused_retained = 0, refused_scratch = 0\<rparr>"

definition try_retain :: "pending_budget \<Rightarrow> u64 \<Rightarrow> pending_budget \<times> (pressure + reservation)" where
  "try_retain b n =
    (case try_take (retained b) n of
       Some p \<Rightarrow> (b\<lparr>retained := p\<rparr>, Inr \<lparr>res_kind = Retained, res_bytes = n\<rparr>)
     | None \<Rightarrow> (b\<lparr>refused_retained := refused_retained b + 1\<rparr>, Inl Pressure))"

definition try_scratch :: "pending_budget \<Rightarrow> u64 \<Rightarrow> pending_budget \<times> (pressure + reservation)" where
  "try_scratch b n =
    (case try_take (scratch b) n of
       Some p \<Rightarrow> (b\<lparr>scratch := p\<rparr>, Inr \<lparr>res_kind = Scratch, res_bytes = n\<rparr>)
     | None \<Rightarrow> (b\<lparr>refused_scratch := refused_scratch b + 1\<rparr>, Inl Pressure))"

text \<open>\<open>None\<close> in the second component is a drain that is still waiting.\<close>

definition reserve_scratch ::
  "pending_budget \<Rightarrow> u64 \<Rightarrow> wake list \<Rightarrow> pending_budget \<times> (pressure + reservation) option" where
  "reserve_scratch b n wakes =
    (if n > pool_limit (scratch b) then (b, Some (Inl Pressure))
     else (case try_scratch b n of
             (b', Inr r) \<Rightarrow> (b', Some (Inr r))
           | (b', Inl _) \<Rightarrow>
               (case pool_take (scratch b') n Forever wakes of
                  None \<Rightarrow> (b', None)
                | Some (Inr p) \<Rightarrow> (b'\<lparr>scratch := p\<rparr>, Some (Inr \<lparr>res_kind = Scratch, res_bytes = n\<rparr>))
                | Some (Inl _) \<Rightarrow> (b', Some (Inl Pressure)))))"

text \<open>\<open>Reservation::split\<close> panics when more is asked for than is held: \<open>None\<close>.\<close>

definition split_reservation :: "reservation \<Rightarrow> u64 \<Rightarrow> (reservation \<times> reservation) option" where
  "split_reservation r n =
    (if n \<le> res_bytes r
     then Some (r\<lparr>res_bytes := res_bytes r - n\<rparr>, \<lparr>res_kind = res_kind r, res_bytes = n\<rparr>)
     else None)"

definition drop_reservation :: "pending_budget \<Rightarrow> reservation \<Rightarrow> pending_budget" where
  "drop_reservation b r =
    (case res_kind r of
       Retained \<Rightarrow> b\<lparr>retained := give_back (retained b) (res_bytes r)\<rparr>
     | Scratch \<Rightarrow> b\<lparr>scratch := give_back (scratch b) (res_bytes r)\<rparr>)"

text \<open>A process's use of the budget: the live reservations and the operations on them.\<close>

datatype pending_op = Try_Retain u64 | Try_Scratch u64 | Split_At nat u64 | Drop_At nat

fun pending_step ::
  "pending_op \<Rightarrow> pending_budget \<times> reservation list \<Rightarrow> pending_budget \<times> reservation list" where
  "pending_step (Try_Retain n) (b, rs) =
    (case try_retain b n of (b', Inr r) \<Rightarrow> (b', r # rs) | (b', Inl _) \<Rightarrow> (b', rs))"
| "pending_step (Try_Scratch n) (b, rs) =
    (case try_scratch b n of (b', Inr r) \<Rightarrow> (b', r # rs) | (b', Inl _) \<Rightarrow> (b', rs))"
| "pending_step (Split_At i n) (b, rs) =
    (if i < length rs
     then (case split_reservation (rs ! i) n of
             Some (left, right) \<Rightarrow> (b, right # rs[i := left]) | None \<Rightarrow> (b, rs))
     else (b, rs))"
| "pending_step (Drop_At i) (b, rs) =
    (if i < length rs then (drop_reservation b (rs ! i), take i rs @ drop (Suc i) rs) else (b, rs))"

definition pending_run :: "pending_op list \<Rightarrow> pending_budget \<times> reservation list \<Rightarrow> pending_budget \<times> reservation list" where
  "pending_run ops s = fold pending_step ops s"

section \<open>The decoded-memory budget\<close>

datatype busy = Busy

record budget =
  mem_pool :: pool
  expansion :: u64
  evicted :: u64
  refused_busy :: u64
  builds :: u64
  build_failures :: u64
  build_millis :: u64

definition new_budget :: "u64 \<Rightarrow> u64 \<Rightarrow> budget" where
  "new_budget limit_bytes exp =
    \<lparr>mem_pool = new_pool (max limit_bytes 1), expansion = max exp 1, evicted = 0, refused_busy = 0,
     builds = 0, build_failures = 0, build_millis = 0\<rparr>"

definition note_evicted :: "budget \<Rightarrow> u64 \<Rightarrow> budget" where
  "note_evicted b entries = b\<lparr>evicted := evicted b + entries\<rparr>"

definition note_built :: "budget \<Rightarrow> u64 \<Rightarrow> budget" where
  "note_built b elapsed_ms = b\<lparr>builds := builds b + 1, build_millis := build_millis b + elapsed_ms\<rparr>"

definition note_build_failed :: "budget \<Rightarrow> budget" where
  "note_build_failed b = b\<lparr>build_failures := build_failures b + 1\<rparr>"

definition refuse :: "budget \<Rightarrow> budget" where
  "refuse b = b\<lparr>refused_busy := refused_busy b + 1\<rparr>"

definition try_reserve :: "budget \<Rightarrow> u64 \<Rightarrow> (budget \<times> u64) option" where
  "try_reserve b n = map_option (\<lambda>p. (b\<lparr>mem_pool := p\<rparr>, n)) (try_take (mem_pool b) n)"

definition drop_memory :: "budget \<Rightarrow> u64 \<Rightarrow> budget" where
  "drop_memory b n = b\<lparr>mem_pool := give_back (mem_pool b) n\<rparr>"

definition try_reserve_now :: "budget \<Rightarrow> u64 \<Rightarrow> budget \<times> (busy + u64)" where
  "try_reserve_now b n =
    (case try_reserve b n of Some (b', r) \<Rightarrow> (b', Inr r) | None \<Rightarrow> (refuse b, Inl Busy))"

text \<open>The waiting reservation.  The probe that decides whether to evict takes the bytes and
  drops them again at once.  The evictor is whoever the registry named, if anyone; \<open>wakes\<close> is
  what the wait sees.\<close>

definition reserve ::
  "budget \<Rightarrow> u64 \<Rightarrow> (budget \<Rightarrow> u64 \<Rightarrow> budget) option \<Rightarrow> wake list \<Rightarrow> budget \<times> (busy + u64) option" where
  "reserve b n evictor wakes =
    (if n > pool_limit (mem_pool b) then (refuse b, Some (Inl Busy))
     else
       (let b1 = (case try_reserve b n of
                    Some (b', r) \<Rightarrow> drop_memory b' r
                  | None \<Rightarrow> (case evictor of None \<Rightarrow> b | Some evict \<Rightarrow> evict b n)) in
        case pool_take (mem_pool b1) n Until wakes of
          None \<Rightarrow> (b1, None)
        | Some (Inr p) \<Rightarrow> (b1\<lparr>mem_pool := p\<rparr>, Some (Inr n))
        | Some (Inl _) \<Rightarrow> (refuse b1, Some (Inl Busy))))"

definition try_grow_to :: "budget \<Rightarrow> u64 \<Rightarrow> u64 \<Rightarrow> budget \<times> (busy + u64)" where
  "try_grow_to b own n =
    (if n \<le> own then (b, Inr own)
     else (case try_reserve_now b (n - own) of
             (b', Inl Busy) \<Rightarrow> (b', Inl Busy)
           | (b', Inr growth) \<Rightarrow> (drop_memory b' 0, Inr n)))"

datatype memory_op = Reserve_Now u64 | Grow_At nat u64 | Drop_Memory nat

fun memory_step :: "memory_op \<Rightarrow> budget \<times> u64 list \<Rightarrow> budget \<times> u64 list" where
  "memory_step (Reserve_Now n) (b, rs) =
    (case try_reserve_now b n of (b', Inr r) \<Rightarrow> (b', r # rs) | (b', Inl _) \<Rightarrow> (b', rs))"
| "memory_step (Grow_At i n) (b, rs) =
    (if i < length rs
     then (case try_grow_to b (rs ! i) n of (b', Inr r) \<Rightarrow> (b', rs[i := r]) | (b', Inl _) \<Rightarrow> (b', rs))
     else (b, rs))"
| "memory_step (Drop_Memory i) (b, rs) =
    (if i < length rs then (drop_memory b (rs ! i), take i rs @ drop (Suc i) rs) else (b, rs))"

definition memory_run :: "memory_op list \<Rightarrow> budget \<times> u64 list \<Rightarrow> budget \<times> u64 list" where
  "memory_run ops s = fold memory_step ops s"

section \<open>The storage ledger\<close>

definition i64_max :: int where "i64_max = 2 ^ 63 - 1"
definition i64_min :: int where "i64_min = - (2 ^ 63)"

definition saturating_add_i64 :: "int \<Rightarrow> int \<Rightarrow> int" where
  "saturating_add_i64 a b = max i64_min (min i64_max (a + b))"

record 'owner ledger =
  owners :: "'owner \<rightharpoonup> int"
  deployment :: "int option"

definition new_ledger :: "'owner ledger" where
  "new_ledger = \<lparr>owners = Map.empty, deployment = None\<rparr>"

text \<open>The two figures are what the catalog's \<open>durable_usage_bytes\<close> answers for the owner and
  for the whole deployment; a failed query leaves what was written before it.\<close>

definition refresh_ledger :: "'owner ledger \<Rightarrow> 'owner \<Rightarrow> 'e + int \<Rightarrow> 'e + int \<Rightarrow> 'owner ledger \<times> ('e + unit)" where
  "refresh_ledger l owner owner_usage total_usage =
    (case owner_usage of
       Inl e \<Rightarrow> (l, Inl e)
     | Inr n \<Rightarrow>
         (let l1 = l\<lparr>owners := (owners l)(owner \<mapsto> n)\<rparr> in
          if deployment l1 = None
          then (case total_usage of
                  Inl e \<Rightarrow> (l1, Inl e)
                | Inr whole \<Rightarrow> (l1\<lparr>deployment := Some whole\<rparr>, Inr ()))
          else (l1, Inr ())))"

definition owner_bytes :: "'owner ledger \<Rightarrow> 'owner \<Rightarrow> int" where
  "owner_bytes l owner = (case owners l owner of None \<Rightarrow> 0 | Some n \<Rightarrow> n)"

definition charge_ledger :: "'owner ledger \<Rightarrow> 'owner \<Rightarrow> int \<Rightarrow> 'owner ledger" where
  "charge_ledger l owner delta =
    l\<lparr>owners := (owners l)(owner \<mapsto> max 0 (saturating_add_i64 (owner_bytes l owner) delta)),
      deployment := map_option (\<lambda>n. max 0 (saturating_add_i64 n delta)) (deployment l)\<rparr>"

datatype quota_reason = Storage_Quota | Deployment_Storage

definition would_exceed :: "'owner ledger \<Rightarrow> 'owner \<Rightarrow> int \<Rightarrow> int \<Rightarrow> int \<Rightarrow> quota_reason option" where
  "would_exceed l owner n owner_limit deployment_limit =
    (if saturating_add_i64 (owner_bytes l owner) n > owner_limit then Some Storage_Quota
     else (case deployment l of
             Some whole \<Rightarrow>
               if saturating_add_i64 whole n > deployment_limit then Some Deployment_Storage else None
           | None \<Rightarrow> None))"

section \<open>Lists of reservations\<close>

definition held_of :: "kind \<Rightarrow> reservation list \<Rightarrow> nat" where
  "held_of k rs = sum_list (map (\<lambda>r. if res_kind r = k then unat (res_bytes r) else 0) rs)"

lemma sum_drop_nth:
  fixes f :: "'a \<Rightarrow> nat"
  assumes "i < length xs"
  shows "sum_list (map f xs) = f (xs ! i) + sum_list (map f (take i xs @ drop (Suc i) xs))"
  by (subst id_take_nth_drop[OF assms]) simp

lemma sum_update_nth:
  fixes f :: "'a \<Rightarrow> nat"
  assumes "i < length xs"
  shows "sum_list (map f (xs[i := y])) + f (xs ! i) = sum_list (map f xs) + f y"
  using assms elem_le_sum_list[of i "map f xs"] by (simp add: map_update sum_list_update)

lemma held_of_Cons [simp]:
  "held_of k (r # rs) = (if res_kind r = k then unat (res_bytes r) else 0) + held_of k rs"
  by (simp add: held_of_def)

lemma held_of_drop_nth:
  "i < length rs \<Longrightarrow> held_of k rs =
    (if res_kind (rs ! i) = k then unat (res_bytes (rs ! i)) else 0) + held_of k (take i rs @ drop (Suc i) rs)"
  unfolding held_of_def by (rule sum_drop_nth)

lemma held_of_split:
  assumes "i < length rs" "split_reservation (rs ! i) n = Some (l, r)"
  shows "held_of k (r # rs[i := l]) = held_of k rs"
proof -
  from assms(2) have p: "n \<le> res_bytes (rs ! i)" "l = (rs ! i)\<lparr>res_bytes := res_bytes (rs ! i) - n\<rparr>"
    "r = \<lparr>res_kind = res_kind (rs ! i), res_bytes = n\<rparr>"
    by (auto simp: split_reservation_def split: if_splits)
  have "unat (res_bytes (rs ! i) - n) + unat n = unat (res_bytes (rs ! i))"
    using p(1) by (simp add: unat_sub_le word_le_nat_alt)
  with sum_update_nth[OF assms(1), of "\<lambda>r. if res_kind r = k then unat (res_bytes r) else 0" l] p
  show ?thesis by (auto simp: held_of_def split: if_splits)
qed

section \<open>Every operation keeps the books\<close>

definition pending_inv :: "u64 \<Rightarrow> u64 \<Rightarrow> pending_budget \<times> reservation list \<Rightarrow> bool" where
  "pending_inv rl sl s \<longleftrightarrow>
    pl.balanced (retained (fst s)) (held_of Retained (snd s)) \<and>
    pl.balanced (scratch (fst s)) (held_of Scratch (snd s)) \<and>
    pool_limit (retained (fst s)) = rl \<and> pool_limit (scratch (fst s)) = sl"

lemma try_take_limit: "try_take p n = Some q \<Longrightarrow> pool_limit q = pool_limit p"
  by (auto simp: try_take_def split: option.splits if_splits)

lemma give_back_limit [simp]: "pool_limit (give_back p n) = pool_limit p"
  by (simp add: give_back_def)

lemma pending_step_inv: "pending_inv rl sl s \<Longrightarrow> pending_inv rl sl (pending_step op s)"
proof (cases s)
  case (Pair b rs)
  assume "pending_inv rl sl s"
  with Pair have inv: "pl.balanced (retained b) (held_of Retained rs)"
    "pl.balanced (scratch b) (held_of Scratch rs)"
    "pool_limit (retained b) = rl" "pool_limit (scratch b) = sl" by (auto simp: pending_inv_def)
  show "pending_inv rl sl (pending_step op s)"
  proof (cases op)
    case (Try_Retain n)
    with Pair inv pl.balanced_acquire(1)[OF inv(1), of n] show ?thesis
      by (auto simp: pending_inv_def try_retain_def try_take_limit add.commute split: option.splits)
  next
    case (Try_Scratch n)
    with Pair inv pl.balanced_acquire(1)[OF inv(2), of n] show ?thesis
      by (auto simp: pending_inv_def try_scratch_def try_take_limit add.commute split: option.splits)
  next
    case (Split_At i n)
    with Pair inv show ?thesis
      by (auto simp: pending_inv_def held_of_split simp del: held_of_Cons split: option.splits)
  next
    case (Drop_At i)
    show ?thesis
    proof (cases "i < length rs")
      case True
      note d = held_of_drop_nth[OF True]
      show ?thesis
        using Drop_At Pair inv True d[of Retained] d[of Scratch]
          pl.balanced_release(1)[OF inv(1), of "res_bytes (rs ! i)"]
          pl.balanced_release(1)[OF inv(2), of "res_bytes (rs ! i)"]
        by (cases "res_kind (rs ! i)") (auto simp: pending_inv_def drop_reservation_def)
    next
      case False
      with Drop_At Pair inv show ?thesis by (simp add: pending_inv_def)
    qed
  qed
qed

lemma pending_run_inv: "pending_inv rl sl s \<Longrightarrow> pending_inv rl sl (pending_run ops s)"
  unfolding pending_run_def by (rule fold_keeps) (simp_all add: pending_step_inv)

lemma pending_new_inv: "pending_inv (max rl 1) (max sl 1) (new_pending rl sl, [])"
  by (simp add: pending_inv_def new_pending_def new_pool_def pl.balanced_def held_of_def)

definition memory_inv :: "u64 \<Rightarrow> budget \<times> u64 list \<Rightarrow> bool" where
  "memory_inv limit s \<longleftrightarrow>
    pl.balanced (mem_pool (fst s)) (sum_list (map unat (snd s))) \<and> pool_limit (mem_pool (fst s)) = limit"

lemma give_back_0 [simp]: "give_back p 0 = p"
  by (simp add: give_back_def)

lemma drop_memory_0 [simp]: "drop_memory b 0 = b"
  by (simp add: drop_memory_def)

lemma try_reserve_now_cases:
  obtains (taken) p where "try_take (mem_pool b) n = Some p" "try_reserve_now b n = (b\<lparr>mem_pool := p\<rparr>, Inr n)"
  | (refused) "try_take (mem_pool b) n = None" "try_reserve_now b n = (refuse b, Inl Busy)"
  by (cases "try_take (mem_pool b) n") (auto simp: try_reserve_now_def try_reserve_def)

lemma memory_inv_refuse [simp]: "memory_inv limit (refuse b, rs) = memory_inv limit (b, rs)"
  by (simp add: memory_inv_def refuse_def)

lemma memory_step_inv: "memory_inv limit s \<Longrightarrow> memory_inv limit (memory_step op s)"
proof (cases s)
  case (Pair b rs)
  assume m: "memory_inv limit s"
  with Pair have inv: "pl.balanced (mem_pool b) (sum_list (map unat rs))" "pool_limit (mem_pool b) = limit"
    by (auto simp: memory_inv_def)
  show "memory_inv limit (memory_step op s)"
  proof (cases op)
    case (Reserve_Now n)
    then show ?thesis using Pair inv m
      by (cases rule: try_reserve_now_cases[of b n])
         (auto simp: memory_inv_def try_take_limit add.commute refuse_def dest: pl.balanced_acquire(1))
  next
    case (Grow_At i n)
    show ?thesis
    proof (cases "i < length rs \<and> rs ! i < n")
      case True
      then have g: "unat (n - rs ! i) + unat (rs ! i) = unat n"
        by (simp add: unat_sub_le word_le_nat_alt word_less_nat_alt)
      from True sum_update_nth[of i rs unat n] g
      have "sum_list (map unat rs) + unat (n - rs ! i) = sum_list (map unat (rs[i := n]))" by simp
      with True Grow_At Pair inv m show ?thesis
        by (cases rule: try_reserve_now_cases[of b "n - rs ! i"])
           (auto simp: memory_inv_def try_grow_to_def try_take_limit refuse_def dest: pl.balanced_acquire(1))
    next
      case False
      with Grow_At Pair m show ?thesis by (auto simp: try_grow_to_def not_less)
    qed
  next
    case (Drop_Memory i)
    with Pair inv m sum_drop_nth[of i rs unat] pl.balanced_release(1)[OF inv(1), of "rs ! i"] show ?thesis
      by (auto simp: memory_inv_def drop_memory_def)
  qed
qed

lemma memory_run_inv: "memory_inv limit s \<Longrightarrow> memory_inv limit (memory_run ops s)"
  unfolding memory_run_def by (rule fold_keeps) (simp_all add: memory_step_inv)

lemma memory_new_inv: "memory_inv (max limit 1) (new_budget limit e, [])"
  by (simp add: memory_inv_def new_budget_def new_pool_def pl.balanced_def)

section \<open>Properties\<close>

text \<open>C22: through every sequence of retains, scratch takes, splits and drops, each pool of the
  pending budget counts exactly the bytes of the live reservations of its kind and stays
  within its own limit.\<close>

theorem pending_books_balance:
  assumes "pending_run ops (new_pending rl sl, []) = (b, rs)"
  shows "unat (pool_used (retained b)) = held_of Retained rs \<and> held_of Retained rs \<le> unat (max rl 1) \<and>
    unat (pool_used (scratch b)) = held_of Scratch rs \<and> held_of Scratch rs \<le> unat (max sl 1)"
  using pending_run_inv[OF pending_new_inv, of rl sl ops] assms
  by (auto simp: pending_inv_def pl.balanced_def)

theorem pending_books_balance_witness:
  "unat (pool_used (retained (fst (pending_run [Try_Retain 60, Split_At 0 20, Try_Scratch 7, Drop_At 2]
      (new_pending 100 50, []))))) = 20 \<and>
   unat (pool_used (scratch (fst (pending_run [Try_Retain 60, Split_At 0 20, Try_Scratch 7, Drop_At 2]
      (new_pending 100 50, []))))) = 7"
  using pending_books_balance[of "[Try_Retain 60, Split_At 0 20, Try_Scratch 7, Drop_At 2]" 100 50,
      OF surjective_pairing]
  by (simp add: pending_run_def new_pending_def new_pool_def try_retain_def try_scratch_def
      try_take_def checked_add_def split_reservation_def drop_reservation_def give_back_def held_of_def)

text \<open>C23: unsaved work can never take the room needed to save it: in every reachable state a
  scratch request is granted exactly when it fits beside the scratch reservations alone,
  however full the retained pool is, so one that fits the whole pool is granted once no other
  write is in flight.\<close>

theorem pending_drain_never_starved:
  assumes "pending_run ops (new_pending rl sl, []) = (b, rs)"
  shows "(is_ok (snd (try_scratch b n)) \<longleftrightarrow> held_of Scratch rs + unat n \<le> unat (max sl 1)) \<and>
    scratch (fst (try_retain b n)) = scratch b"
proof (intro conjI)
  from pending_run_inv[OF pending_new_inv, of rl sl ops] assms
  have "pl.balanced (scratch b) (held_of Scratch rs)" "pool_limit (scratch b) = max sl 1"
    by (simp_all add: pending_inv_def)
  from pl.balanced_acquire_iff[OF this(1), of n] this(2)
  show "is_ok (snd (try_scratch b n)) \<longleftrightarrow> held_of Scratch rs + unat n \<le> unat (max sl 1)"
    by (auto simp: try_scratch_def split: option.splits)
  show "scratch (fst (try_retain b n)) = scratch b"
    by (simp add: try_retain_def split: option.splits)
qed

theorem pending_drain_never_starved_witness:
  "is_ok (snd (try_scratch (fst (pending_run [Try_Retain 100] (new_pending 100 50, []))) 50))
    \<and> scratch (fst (try_retain (fst (pending_run [Try_Retain 100] (new_pending 100 50, []))) 1))
      = scratch (fst (pending_run [Try_Retain 100] (new_pending 100 50, [])))"
  using pending_drain_never_starved[of "[Try_Retain 100]" 100 50, OF surjective_pairing, of 50]
    pending_drain_never_starved[of "[Try_Retain 100]" 100 50, OF surjective_pairing, of 1]
  by (simp add: pending_run_def new_pending_def new_pool_def try_retain_def
      try_take_def checked_add_def held_of_def)

text \<open>C24: through every sequence of reservations, growths and drops the memory budget counts
  exactly what is reserved, within its limit; growing a reservation charges only the
  difference, and a growth that is refused leaves the reservation and the pool as they were
  and is counted.\<close>

theorem memory_books_balance:
  assumes "memory_run ops (new_budget limit e, []) = (b, rs)"
  shows "unat (pool_used (mem_pool b)) = sum_list (map unat rs) \<and>
    sum_list (map unat rs) \<le> unat (max limit 1) \<and>
    (snd (try_grow_to b own n) = Inl Busy \<longrightarrow>
      fst (try_grow_to b own n) = b\<lparr>refused_busy := refused_busy b + 1\<rparr>)"
proof (intro conjI impI)
  from memory_run_inv[OF memory_new_inv[of limit e], of ops] assms
  show "unat (pool_used (mem_pool b)) = sum_list (map unat rs)" "sum_list (map unat rs) \<le> unat (max limit 1)"
    by (auto simp: memory_inv_def pl.balanced_def)
  show "snd (try_grow_to b own n) = Inl Busy \<Longrightarrow>
      fst (try_grow_to b own n) = b\<lparr>refused_busy := refused_busy b + 1\<rparr>"
    by (cases rule: try_reserve_now_cases[of b "n - own"])
       (auto simp: try_grow_to_def refuse_def split: if_splits)
qed

theorem memory_books_balance_witness:
  "sum_list (map unat (snd (memory_run [Reserve_Now 30, Grow_At 0 45, Reserve_Now 60] (new_budget 100 6, [])))) \<le> 100 \<and>
   unat (pool_used (mem_pool (fst (memory_run [Reserve_Now 30, Grow_At 0 45, Reserve_Now 60] (new_budget 100 6, [])))))
     = sum_list (map unat (snd (memory_run [Reserve_Now 30, Grow_At 0 45, Reserve_Now 60] (new_budget 100 6, [])))) \<and>
   fst (try_grow_to (new_budget 100 6) 30 200)
     = (new_budget 100 6)\<lparr>refused_busy := refused_busy (new_budget 100 6) + 1\<rparr>"
  using memory_books_balance[of "[Reserve_Now 30, Grow_At 0 45, Reserve_Now 60]" 100 6, OF surjective_pairing]
    memory_books_balance[of "[]" 100 6 "new_budget 100 6" "[]" 30 200]
  by (simp add: memory_run_def try_grow_to_def try_reserve_now_def try_reserve_def new_budget_def
      new_pool_def try_take_def checked_add_def)



text \<open>The ledger admits a charge exactly when neither figure would pass its limit, a
  figure it keeps is never negative, and charging one owner leaves every other owner's figure
  alone.\<close>

theorem ledger_charge:
  assumes "\<forall>o'. 0 \<le> owner_bytes l o'" "\<forall>d. deployment l = Some d \<longrightarrow> 0 \<le> d"
  shows "(would_exceed l own n lim dlim = None \<longleftrightarrow>
      saturating_add_i64 (owner_bytes l own) n \<le> lim \<and>
      (\<forall>d. deployment l = Some d \<longrightarrow> saturating_add_i64 d n \<le> dlim)) \<and>
    0 \<le> owner_bytes (charge_ledger l own n) o' \<and>
    (deployment (charge_ledger l own n) = Some d \<longrightarrow> 0 \<le> d) \<and>
    (o' \<noteq> own \<longrightarrow> owner_bytes (charge_ledger l own n) o' = owner_bytes l o')"
proof (intro conjI impI)
  show "would_exceed l own n lim dlim = None \<longleftrightarrow>
      saturating_add_i64 (owner_bytes l own) n \<le> lim \<and>
      (\<forall>d. deployment l = Some d \<longrightarrow> saturating_add_i64 d n \<le> dlim)"
    by (auto simp: would_exceed_def split: option.splits)
  show "0 \<le> owner_bytes (charge_ledger l own n) o'"
    using assms(1) by (auto simp: owner_bytes_def charge_ledger_def split: option.splits)
  show "deployment (charge_ledger l own n) = Some d \<Longrightarrow> 0 \<le> d"
    by (auto simp: charge_ledger_def)
  show "o' \<noteq> own \<Longrightarrow> owner_bytes (charge_ledger l own n) o' = owner_bytes l o'"
    by (simp add: owner_bytes_def charge_ledger_def)
qed

theorem ledger_charge_witness:
  "owner_bytes (charge_ledger (new_ledger :: nat ledger) 1 (- 5)) 1 \<ge> 0 \<and>
   owner_bytes (charge_ledger (new_ledger :: nat ledger) 1 (- 5)) 2 = owner_bytes new_ledger 2"
  using ledger_charge[of "new_ledger :: nat ledger" 1 "- 5" 0 0 1 0]
    ledger_charge[of "new_ledger :: nat ledger" 1 "- 5" 0 0 2 0]
  by (simp add: new_ledger_def owner_bytes_def)

end
