(* ===== verification/Retry.thy ===== *)
theory Retry
  imports Prelude
begin

text \<open>
  The exponential backoff of \<open>base/retry.rs\<close>.  A \<open>Duration\<close> is its nanoseconds, at most
  \<open>DURATION_MAX\<close>.  The share a jittered wait draws comes from the random number generator, so
  the wait it makes is a parameter, capped as the code caps it.  The operation \<open>run\<close> retries is
  a function of how often it has run already; \<open>run\<close> itself may never return, when no attempt
  limit is set, so it is a partial function into \<open>option\<close> that also reports the waits it slept.
\<close>

section \<open>Definitions\<close>

definition u32_max :: nat where "u32_max = 2 ^ 32 - 1"

definition DURATION_MAX :: nat where "DURATION_MAX = (2 ^ 64 - 1) * 10 ^ 9 + 999999999"

definition from_secs :: "nat \<Rightarrow> nat" where "from_secs n = n * 10 ^ 9"

record retry_policy =
  base :: nat
  ceiling :: nat
  max_attempts :: "nat option"
  jitter :: bool

definition checked_shl_one :: "nat \<Rightarrow> nat option" where
  "checked_shl_one n = (if n < 32 then Some (2 ^ n) else None)"

definition plain_delay :: "retry_policy \<Rightarrow> nat \<Rightarrow> nat" where
  "plain_delay p failures =
    min (min DURATION_MAX (base p * (case checked_shl_one (failures - 1) of None \<Rightarrow> u32_max | Some k \<Rightarrow> k))) (ceiling p)"

definition delay :: "(nat \<Rightarrow> nat) \<Rightarrow> retry_policy \<Rightarrow> nat \<Rightarrow> nat" where
  "delay drawn p failures =
    (let wait = plain_delay p failures in if \<not> jitter p then wait else min (drawn wait) wait)"

partial_function (option) run_from ::
    "(nat \<Rightarrow> nat) \<Rightarrow> retry_policy \<Rightarrow> (nat \<Rightarrow> 'e + 'a) \<Rightarrow> ('e \<Rightarrow> bool) \<Rightarrow> nat \<Rightarrow> nat \<Rightarrow> nat list \<Rightarrow> (('e + 'a) \<times> nat list) option" where
  "run_from drawn p op retryable runs failures waits =
    (case op runs of
       Inr v \<Rightarrow> Some (Inr v, waits)
     | Inl e \<Rightarrow>
         (let failures = min u32_max (failures + 1);
              spent = (case max_attempts p of None \<Rightarrow> False | Some most \<Rightarrow> failures \<ge> most) in
          if spent \<or> \<not> retryable e then Some (Inl e, waits)
          else run_from drawn p op retryable (runs + 1) failures (waits @ [delay drawn p failures])))"

definition run_retry :: "(nat \<Rightarrow> nat) \<Rightarrow> retry_policy \<Rightarrow> (nat \<Rightarrow> 'e + 'a) \<Rightarrow> ('e \<Rightarrow> bool) \<Rightarrow> (('e + 'a) \<times> nat list) option" where
  "run_retry drawn p op retryable = run_from drawn p op retryable 0 0 []"

section \<open>Delays\<close>

lemma delay_le_ceiling: "delay d p n \<le> ceiling p"
  by (auto simp: delay_def plain_delay_def Let_def intro: min.coboundedI2)

lemma shl_factor_mono:
  "m \<le> n \<Longrightarrow> (case checked_shl_one m of None \<Rightarrow> u32_max | Some k \<Rightarrow> k) \<le> (case checked_shl_one n of None \<Rightarrow> u32_max | Some k \<Rightarrow> k)"
proof -
  assume le: "m \<le> n"
  have "(2::nat) ^ m \<le> u32_max" if "m < 32"
  proof -
    have "(2::nat) ^ m \<le> 2 ^ 31" using that by (intro power_increasing) auto
    then show ?thesis by (simp add: u32_max_def)
  qed
  with le show ?thesis by (auto simp: checked_shl_one_def power_increasing)
qed

lemma plain_delay_mono: "m \<le> n \<Longrightarrow> plain_delay p m \<le> plain_delay p n"
  unfolding plain_delay_def
  by (intro min.mono mult_le_mono order_refl shl_factor_mono) auto

section \<open>The retry loop\<close>

text \<open>The tries the loop makes: the operation runs again after every failure that may be
  retried while tries remain.\<close>

definition allowed :: "retry_policy \<Rightarrow> nat \<Rightarrow> bool" where
  "allowed p n \<longleftrightarrow> (case max_attempts p of None \<Rightarrow> True | Some most \<Rightarrow> n < most)"

lemma run_from_ends:
  assumes le: "runs \<le> fin" "fin < u32_max"
    and mid: "\<And>k. runs \<le> k \<Longrightarrow> k < fin \<Longrightarrow> \<exists>e. op k = Inl e \<and> retryable e \<and> allowed p (k + 1)"
    and stop: "case op fin of Inr _ \<Rightarrow> True | Inl e \<Rightarrow> \<not> retryable e \<or> \<not> allowed p (fin + 1)"
  shows "run_from d p op retryable runs runs ws =
    Some (op fin, ws @ map (delay d p) [Suc runs..<Suc fin])"
  using assms
proof (induction "fin - runs" arbitrary: runs ws)
  case 0
  then have "runs = fin" by simp
  with 0 show ?case
    by (subst run_from.simps) (auto simp: allowed_def Let_def split: sum.splits option.splits)
next
  case (Suc n)
  from Suc.hyps(2) have lt: "runs < fin" by simp
  from Suc.prems(3)[of runs] lt obtain e where e: "op runs = Inl e" "retryable e" "allowed p (runs + 1)" by auto
  have "run_from d p op retryable runs runs ws =
      run_from d p op retryable (Suc runs) (Suc runs) (ws @ [delay d p (Suc runs)])"
    using e lt Suc.prems(2)
    by (subst run_from.simps) (auto simp: allowed_def Let_def min_def split: option.splits)
  also have "\<dots> = Some (op fin, (ws @ [delay d p (Suc runs)]) @ map (delay d p) [Suc (Suc runs)..<Suc fin])"
    using Suc.hyps(2) Suc.prems lt by (intro Suc.hyps(1)) auto
  also have "\<dots> = Some (op fin, ws @ map (delay d p) [Suc runs..<Suc fin])"
    using lt upt_conv_Cons[of "Suc runs" "Suc fin"] by simp
  finally show ?case .
qed

lemma first_stop:
  assumes "\<exists>k\<le>(n::nat). Q k"
  shows "\<exists>l\<le>n. Q l \<and> (\<forall>k<l. \<not> Q k)"
  using assms exists_least_iff[of "\<lambda>k. k \<le> n \<and> Q k"] by (meson le_trans less_imp_le)

section \<open>Properties\<close>

text \<open>C29: with an attempt limit the retry loop returns, whatever the operation does: it has
  then run it at most that often (once when the limit is zero), returns what the last run gave,
  and slept one delay, at most the ceiling, before every run but the first.\<close>

theorem run_retry_returns:
  assumes "max_attempts p = Some most" "most \<le> u32_max"
  shows "\<exists>l < max 1 most. run_retry d p op retryable = Some (op l, map (delay d p) [1..<Suc l]) \<and>
    (\<forall>w \<in> set (map (delay d p) [1..<Suc l]). w \<le> ceiling p)"
proof -
  define stops where "stops k \<longleftrightarrow> (case op k of Inr _ \<Rightarrow> True | Inl e \<Rightarrow> \<not> retryable e \<or> \<not> allowed p (k + 1))" for k
  have "stops (most - 1)" using assms(1) by (auto simp: stops_def allowed_def split: sum.splits)
  then obtain l where l: "l \<le> most - 1" "stops l" "\<forall>k<l. \<not> stops k" using first_stop[of "most - 1" stops] by blast
  have "run_from d p op retryable 0 0 [] = Some (op l, [] @ map (delay d p) [Suc 0..<Suc l])"
  proof (rule run_from_ends)
    show "\<exists>e. op k = Inl e \<and> retryable e \<and> allowed p (k + 1)" if "k < l" for k
      using l(3)[rule_format, OF that] by (cases "op k") (auto simp: stops_def)
    show "case op l of Inl e \<Rightarrow> \<not> retryable e \<or> \<not> allowed p (l + 1) | Inr x \<Rightarrow> True"
      using l(2) by (simp add: stops_def)
    show "l < u32_max" using l(1) assms(2) by (cases most) (auto simp: u32_max_def)
  qed simp
  with l(1) show ?thesis by (intro exI[of _ l]) (auto simp: run_retry_def delay_le_ceiling)
qed

theorem run_retry_returns_witness:
  "\<exists>l < 3. run_retry id \<lparr>base = from_secs 1, ceiling = from_secs 5, max_attempts = Some 3, jitter = False\<rparr>
      (\<lambda>k. if k < 7 then Inl k else Inr k) (\<lambda>_. True) =
    Some (if l < 7 then Inl l else Inr l, map (delay id \<lparr>base = from_secs 1, ceiling = from_secs 5, max_attempts = Some 3, jitter = False\<rparr>) [1..<Suc l])"
  using run_retry_returns[of "\<lparr>base = from_secs 1, ceiling = from_secs 5, max_attempts = Some 3, jitter = False\<rparr>" 3 id
      "\<lambda>k. if k < 7 then Inl k else Inr k" "\<lambda>_. True"]
  by (auto simp: u32_max_def)

end
