(* ===== verification/Schedule.thy ===== *)
theory Schedule
  imports Retry "HOL-Library.AList"
begin

text \<open>
  The worker's bounded map of future work, \<open>engine/storage/schedule.rs\<close>.  The hash map is an
  association list with distinct keys, over an arbitrary type of tasks; an \<open>Instant\<close> is its
  nanoseconds, and every operation takes the current one as the code does.  The lemmas show
  that the map keeps its bound and one entry per task, that a wake-up it was asked for is never
  lost, and that handing out the due tasks always moves the next wake-up into the future.
\<close>

section \<open>Definitions\<close>

definition DEADLINES :: nat where "DEADLINES = 1024"

definition BACKOFF :: nat where "BACKOFF = from_secs 60"

definition BACKOFF_CEILING :: nat where "BACKOFF_CEILING = from_secs (60 * 60)"

definition RETRY :: retry_policy where
  "RETRY = \<lparr>base = BACKOFF, ceiling = BACKOFF_CEILING, max_attempts = None, jitter = False\<rparr>"

record entry =
  e_due :: nat
  e_failures :: nat
  e_armed :: bool

record 'k deadlines =
  entries :: "('k \<times> entry) list"
  refusal_at :: "nat option"
  refused_deadlines :: nat

record 'k due_work =
  due_tasks :: "'k list"
  rescan :: bool

definition new_deadlines :: "'k deadlines" where
  "new_deadlines = \<lparr>entries = [], refusal_at = None, refused_deadlines = 0\<rparr>"

definition refuse_deadline :: "'k deadlines \<Rightarrow> nat \<Rightarrow> 'k deadlines" where
  "refuse_deadline s at =
    s\<lparr>refusal_at := Some (case refusal_at s of Some existing \<Rightarrow> min existing at | None \<Rightarrow> at),
      refused_deadlines := refused_deadlines s + 1\<rparr>"

definition failures_of :: "'k deadlines \<Rightarrow> 'k \<Rightarrow> nat" where
  "failures_of s task = (case map_of (entries s) task of None \<Rightarrow> 0 | Some e \<Rightarrow> e_failures e)"

definition failed :: "'k deadlines \<Rightarrow> 'k \<Rightarrow> nat \<Rightarrow> 'k deadlines \<times> nat" where
  "failed s task now =
    (let failures = failures_of s task + 1;
         wait = delay id RETRY failures;
         at = now + wait;
         armed = \<lparr>e_due = at, e_failures = failures, e_armed = True\<rparr> in
     (case map_of (entries s) task of
        Some e \<Rightarrow> s\<lparr>entries := AList.update task armed (entries s)\<rparr>
      | None \<Rightarrow>
          if length (entries s) = DEADLINES then refuse_deadline s at
          else s\<lparr>entries := AList.update task armed (entries s)\<rparr>,
      wait))"

definition ask_at :: "'k deadlines \<Rightarrow> 'k \<Rightarrow> nat \<Rightarrow> 'k deadlines" where
  "ask_at s task at =
    (case map_of (entries s) task of
       Some e \<Rightarrow>
         if e_armed e then
           (if e_failures e > 0 then s
            else s\<lparr>entries := AList.update task (e\<lparr>e_due := min (e_due e) at\<rparr>) (entries s)\<rparr>)
         else s\<lparr>entries := AList.update task (e\<lparr>e_due := at, e_armed := True\<rparr>) (entries s)\<rparr>
     | None \<Rightarrow>
         if length (entries s) = DEADLINES then refuse_deadline s at
         else s\<lparr>entries := AList.update task \<lparr>e_due = at, e_failures = 0, e_armed = True\<rparr> (entries s)\<rparr>)"

definition clear_task :: "'k deadlines \<Rightarrow> 'k \<Rightarrow> 'k deadlines" where
  "clear_task s task =
    (case map_of (entries s) task of
       Some e \<Rightarrow> if e_armed e then s\<lparr>entries := AList.update task (e\<lparr>e_failures := 0\<rparr>) (entries s)\<rparr>
                 else s\<lparr>entries := AList.delete task (entries s)\<rparr>
     | None \<Rightarrow> s\<lparr>entries := AList.delete task (entries s)\<rparr>)"

definition remove_task :: "'k deadlines \<Rightarrow> 'k \<Rightarrow> 'k deadlines" where
  "remove_task s task = s\<lparr>entries := AList.delete task (entries s)\<rparr>"

definition waiting :: "'k deadlines \<Rightarrow> 'k \<Rightarrow> nat \<Rightarrow> bool" where
  "waiting s task now = (case map_of (entries s) task of None \<Rightarrow> False | Some e \<Rightarrow> e_armed e \<and> e_due e > now)"

fun fire :: "nat \<Rightarrow> ('k \<times> entry) list \<Rightarrow> 'k list \<times> ('k \<times> entry) list" where
  "fire now [] = ([], [])"
| "fire now ((task, e) # rest) =
    (let (tasks, kept) = fire now rest in
     if e_armed e \<and> e_due e \<le> now
     then (task # tasks, if e_failures e = 0 then kept else (task, e\<lparr>e_armed := False\<rparr>) # kept)
     else (tasks, (task, e) # kept))"

definition prune :: "nat \<Rightarrow> ('k \<times> entry) list \<Rightarrow> ('k \<times> entry) list" where
  "prune now = filter (\<lambda>(_, e). e_armed e \<or> now - e_due e \<le> BACKOFF_CEILING)"

definition due :: "'k deadlines \<Rightarrow> nat \<Rightarrow> 'k deadlines \<times> 'k due_work" where
  "due s now =
    (let (tasks, kept) = fire now (entries s);
         owed = (case refusal_at s of Some at \<Rightarrow> at \<le> now | None \<Rightarrow> False) in
     (s\<lparr>entries := prune now kept, refusal_at := (if owed then None else refusal_at s)\<rparr>,
      \<lparr>due_tasks = tasks, rescan = owed\<rparr>))"

fun opt_min :: "nat option \<Rightarrow> nat option \<Rightarrow> nat option" where
  "opt_min (Some a) (Some b) = Some (min a b)"
| "opt_min (Some a) None = Some a"
| "opt_min None (Some b) = Some b"
| "opt_min None None = None"

definition earliest :: "('k \<times> entry) list \<Rightarrow> nat option" where
  "earliest es = foldr (\<lambda>(_, e) m. if e_armed e then opt_min (Some (e_due e)) m else m) es None"

definition next_wake :: "'k deadlines \<Rightarrow> nat option" where
  "next_wake s = opt_min (earliest (entries s)) (refusal_at s)"

text \<open>One operation of the worker on the map, and what a sequence of them makes of it.\<close>

datatype 'k sched_op = Failed 'k nat | Ask 'k nat | Clear 'k | Remove 'k | Due nat

fun sched_apply :: "'k sched_op \<Rightarrow> 'k deadlines \<Rightarrow> 'k deadlines" where
  "sched_apply (Failed t now) s = fst (failed s t now)"
| "sched_apply (Ask t at) s = ask_at s t at"
| "sched_apply (Clear t) s = clear_task s t"
| "sched_apply (Remove t) s = remove_task s t"
| "sched_apply (Due now) s = fst (due s now)"

section \<open>The bound and the keys\<close>

definition sched_ok :: "'k deadlines \<Rightarrow> bool" where
  "sched_ok s \<longleftrightarrow> distinct (map fst (entries s)) \<and> length (entries s) \<le> DEADLINES"

lemma length_update:
  "length (AList.update k v xs) = (if k \<in> fst ` set xs then length xs else Suc (length xs))"
  by (induction xs) auto

lemma map_of_in: "map_of xs k = Some v \<Longrightarrow> k \<in> fst ` set xs"
  by (metis domI dom_map_of_conv_image_fst)

lemma map_of_notin: "map_of xs k = None \<Longrightarrow> k \<notin> fst ` set xs"
  by (metis map_of_eq_None_iff)

lemma sched_ok_update:
  assumes "sched_ok s" "map_of (entries s) t \<noteq> None \<or> length (entries s) \<noteq> DEADLINES"
  shows "sched_ok (s\<lparr>entries := AList.update t e (entries s)\<rparr>)"
  using assms by (auto simp: sched_ok_def distinct_update length_update map_of_in map_of_notin)

lemma sched_ok_refuse [simp]: "sched_ok (refuse_deadline s at) = sched_ok s"
  by (simp add: sched_ok_def refuse_deadline_def)

lemma sched_ok_delete: "sched_ok s \<Longrightarrow> sched_ok (s\<lparr>entries := AList.delete t (entries s)\<rparr>)"
  by (auto simp: sched_ok_def distinct_delete intro: order_trans[OF length_delete_le])

definition fires :: "nat \<Rightarrow> entry \<Rightarrow> bool" where
  "fires now e \<longleftrightarrow> e_armed e \<and> e_due e \<le> now"

definition fired :: "nat \<Rightarrow> entry \<Rightarrow> entry" where
  "fired now e = (if fires now e then e\<lparr>e_armed := False\<rparr> else e)"

lemma fire_eq:
  "fire now es = (map fst (filter (fires now \<circ> snd) es),
    map (apsnd (fired now)) (filter (\<lambda>x. \<not> (fires now (snd x) \<and> e_failures (snd x) = 0)) es))"
proof (induction es)
  case (Cons x es)
  then show ?case by (cases x) (simp add: fires_def fired_def)
qed simp

lemma fire_shape:
  "distinct (map fst es) \<Longrightarrow> distinct (map fst (snd (fire now es)))" "length (snd (fire now es)) \<le> length es"
  by (simp_all add: fire_eq comp_def distinct_map_filter)

lemma sched_ok_due: "sched_ok s \<Longrightarrow> sched_ok (fst (due s now))"
  using fire_shape[where es = "entries s" and now = now]
  by (auto simp: sched_ok_def due_def prune_def split_def Let_def distinct_map_filter
      intro: order_trans[OF length_filter_le])

lemma sched_ok_apply: "sched_ok s \<Longrightarrow> sched_ok (sched_apply op s)"
  by (cases op)
    (auto simp: failed_def ask_at_def clear_task_def remove_task_def Let_def sched_ok_due sched_ok_delete
      intro: sched_ok_update split: option.splits)

lemma sched_ok_run: "sched_ok (fold sched_apply ops new_deadlines)"
  by (rule fold_keeps) (simp_all add: sched_ok_apply, simp add: sched_ok_def new_deadlines_def)

section \<open>The next wake-up\<close>

definition wakes_by :: "nat \<Rightarrow> nat option \<Rightarrow> bool" where
  "wakes_by t m \<longleftrightarrow> (\<exists>w. m = Some w \<and> w \<le> t)"

lemma wakes_by_simps [simp]: "\<not> wakes_by t None" "wakes_by t (Some w) \<longleftrightarrow> w \<le> t"
  by (simp_all add: wakes_by_def)

lemma wakes_by_min [simp]: "wakes_by t (opt_min a b) \<longleftrightarrow> wakes_by t a \<or> wakes_by t b"
  by (cases a; cases b) (auto simp: wakes_by_def min_le_iff_disj)

lemma earliest_Nil [simp]: "earliest [] = None"
  by (simp add: earliest_def)

lemma earliest_Cons [simp]:
  "earliest ((k, e) # es) = (if e_armed e then opt_min (Some (e_due e)) (earliest es) else earliest es)"
  by (simp add: earliest_def)

lemma earliest_wakes: "wakes_by t (earliest es) \<longleftrightarrow> (\<exists>(k, e) \<in> set es. e_armed e \<and> e_due e \<le> t)"
  by (induction es) (auto split: if_splits)

lemma next_wakes:
  assumes "distinct (map fst (entries s))"
  shows "wakes_by t (next_wake s) \<longleftrightarrow>
    (\<exists>k e. map_of (entries s) k = Some e \<and> e_armed e \<and> e_due e \<le> t) \<or> wakes_by t (refusal_at s)"
  using assms by (auto simp: next_wake_def earliest_wakes)

lemma next_eqI: "(\<And>t. wakes_by t a \<longleftrightarrow> wakes_by t b) \<Longrightarrow> a = b"
  unfolding wakes_by_def
  by (cases a; cases b) (auto, (metis order_refl order_antisym)+)

lemma fire_tasks: "set (fst (fire now es)) = {k. \<exists>e. (k, e) \<in> set es \<and> fires now e}"
  by (force simp: fire_eq)

lemma fire_tasks_distinct: "distinct (map fst es) \<Longrightarrow> distinct (fst (fire now es))"
  by (simp add: fire_eq distinct_map_filter)

lemma fire_kept:
  "(k, e) \<in> set (snd (fire now es)) \<longleftrightarrow>
    (\<exists>e0. (k, e0) \<in> set es \<and> (fires now e0 \<longrightarrow> e_failures e0 \<noteq> 0) \<and> e = fired now e0)"
  by (force simp: fire_eq)

lemma fired_quiet: "\<not> fires now (fired now e)" "e_failures (fired now e) = e_failures e"
  by (simp_all add: fires_def fired_def)

lemma due_next: "sched_ok s \<Longrightarrow> \<not> wakes_by now (next_wake (fst (due s now)))"
  by (auto simp: next_wake_def due_def split_def Let_def earliest_wakes prune_def fire_kept fires_def fired_def
      split: option.splits if_splits)

section \<open>A wake-up is not lost\<close>

definition owed :: "'k \<Rightarrow> nat \<Rightarrow> 'k deadlines \<Rightarrow> bool" where
  "owed t w s \<longleftrightarrow> (\<exists>e. map_of (entries s) t = Some e \<and> e_armed e \<and> e_due e \<le> w) \<or> wakes_by w (refusal_at s)"

definition hands_out :: "'k \<Rightarrow> 'k sched_op \<Rightarrow> 'k deadlines \<Rightarrow> bool" where
  "hands_out t op s \<longleftrightarrow>
    (case op of Due now \<Rightarrow> t \<in> set (due_tasks (snd (due s now))) \<or> rescan (snd (due s now)) | _ \<Rightarrow> False)"

fun handed_out :: "'k \<Rightarrow> 'k sched_op list \<Rightarrow> 'k deadlines \<Rightarrow> bool" where
  "handed_out t [] s = False"
| "handed_out t (op # ops) s \<longleftrightarrow> hands_out t op s \<or> handed_out t ops (sched_apply op s)"

definition leaves_alone :: "'k \<Rightarrow> 'k sched_op \<Rightarrow> bool" where
  "leaves_alone t op = (case op of Failed t' _ \<Rightarrow> t' \<noteq> t | Remove t' \<Rightarrow> t' \<noteq> t | _ \<Rightarrow> True)"

lemma owed_refuse: "owed t w s \<or> at \<le> w \<Longrightarrow> owed t w (refuse_deadline s at)"
  by (auto simp: owed_def refuse_deadline_def wakes_by_def min_le_iff_disj split: option.splits)

lemma owed_ask: "owed t w s \<Longrightarrow> owed t w (ask_at s t' at)"
  by (auto simp: ask_at_def owed_refuse split: option.splits)
    (auto simp: owed_def update_conv' min_le_iff_disj)

lemma owed_failed: "owed t w s \<Longrightarrow> t' \<noteq> t \<Longrightarrow> owed t w (fst (failed s t' now))"
  by (auto simp: failed_def Let_def owed_refuse split: option.splits) (auto simp: owed_def update_conv')

lemma owed_clear: "owed t w s \<Longrightarrow> owed t w (clear_task s t')"
  by (auto simp: owed_def clear_task_def update_conv' delete_conv' split: option.splits)

lemma owed_remove: "owed t w s \<Longrightarrow> t' \<noteq> t \<Longrightarrow> owed t w (remove_task s t')"
  by (auto simp: owed_def remove_task_def delete_conv')

lemma owed_due:
  assumes "sched_ok s" "owed t w s"
  shows "hands_out t (Due now) s \<or> owed t w (fst (due s now))"
proof (cases "\<exists>e. map_of (entries s) t = Some e \<and> e_armed e \<and> e_due e \<le> w")
  case True
  then obtain e where e: "map_of (entries s) t = Some e" "e_armed e" "e_due e \<le> w" by blast
  show ?thesis
  proof (cases "fires now e")
    case True
    with e show ?thesis using fire_tasks[of now "entries s"] map_of_SomeD[of "entries s" t e]
      by (auto simp: hands_out_def due_def split_def Let_def)
  next
    case False
    then have "(t, e) \<in> set (entries (fst (due s now)))"
      using e map_of_SomeD[of "entries s" t e]
      by (auto simp: due_def split_def Let_def prune_def fire_kept fired_def intro!: exI[of _ e])
    with sched_ok_due[OF assms(1), of now] e show ?thesis by (auto simp: owed_def sched_ok_def)
  qed
next
  case False
  with assms(2) show ?thesis
    by (auto simp: owed_def hands_out_def due_def split_def Let_def wakes_by_def split: option.splits)
qed

lemma owed_apply:
  "sched_ok s \<Longrightarrow> owed t w s \<Longrightarrow> leaves_alone t op \<Longrightarrow> hands_out t op s \<or> owed t w (sched_apply op s)"
  by (cases op) (auto simp: leaves_alone_def owed_ask owed_failed owed_clear owed_remove dest: owed_due)

lemma owed_due_now: "owed t w s \<Longrightarrow> w \<le> now \<Longrightarrow> hands_out t (Due now) s"
  using fire_tasks[of now "entries s"]
  by (auto simp: owed_def hands_out_def due_def split_def Let_def wakes_by_def fires_def
      dest!: map_of_SomeD intro: order_trans)

lemma owed_handed_out:
  "sched_ok s \<Longrightarrow> owed t w s \<Longrightarrow> list_all (leaves_alone t) ops \<Longrightarrow> w \<le> now \<Longrightarrow> handed_out t (ops @ [Due now]) s"
proof (induction ops arbitrary: s)
  case (Cons op ops)
  then show ?case using owed_apply[of s t w op] sched_ok_apply[of s op] by auto
qed (simp add: owed_due_now)

lemma ask_owed:
  assumes "\<not> (\<exists>e. map_of (entries s) t = Some e \<and> e_armed e \<and> 0 < e_failures e)"
  shows "owed t at (ask_at s t at)"
  using assms by (auto simp: ask_at_def owed_refuse split: option.splits) (auto simp: owed_def update_conv')

section \<open>Properties\<close>

text \<open>However the worker uses its map of deadlines, every task has at most one entry and
  there are never more than \<open>DEADLINES\<close> of them.\<close>

theorem deadlines_bounded:
  "distinct (map fst (entries (fold sched_apply ops new_deadlines))) \<and>
    length (entries (fold sched_apply ops new_deadlines)) \<le> 1024"
  using sched_ok_run[of ops] by (simp add: sched_ok_def DEADLINES_def)

text \<open>C27: a wake-up that was asked for is not lost.  When a task that is not waiting out a
  backoff is asked for at a time, then whatever the worker does with the map afterwards, short of
  the task failing or its durable work being removed, by the first time it takes the due work at
  or after that time it was handed the task, or was told to rescan the durable state; this holds
  also when the map was full and refused the entry.\<close>

theorem asked_task_handed_out:
  assumes "s = fold sched_apply before new_deadlines"
    and "\<not> (\<exists>e. map_of (entries s) t = Some e \<and> e_armed e \<and> 0 < e_failures e)"
    and "list_all (leaves_alone t) ops" "at \<le> now"
  shows "handed_out t (ops @ [Due now]) (ask_at s t at)"
proof -
  have "sched_ok s" unfolding assms(1) by (rule sched_ok_run)
  then have "sched_ok (ask_at s t at)" using sched_ok_apply[of s "Ask t at"] by simp
  then show ?thesis using ask_owed[OF assms(2)] assms(3,4) by (rule owed_handed_out)
qed

theorem asked_task_handed_out_witness:
  "handed_out (1::nat) ([Ask 2 5, Clear 1, Due 9, Failed 2 9] @ [Due 10]) (ask_at new_deadlines 1 10)"
  by (rule asked_task_handed_out[of _ "[]"]) (simp_all add: new_deadlines_def leaves_alone_def)

text \<open>Taking the due work hands out exactly the armed tasks whose time has come, each once,
  and afterwards the next wake-up, if there is one, is strictly in the future, so the worker
  never spins on a deadline it has already served.\<close>

theorem due_moves_forward:
  assumes "s = fold sched_apply before new_deadlines" "due s now = (s', w)"
  shows "set (due_tasks w) = {t. \<exists>e. map_of (entries s) t = Some e \<and> e_armed e \<and> e_due e \<le> now} \<and>
    distinct (due_tasks w) \<and> (\<forall>t. next_wake s' = Some t \<longrightarrow> now < t)"
proof -
  have ok: "sched_ok s" unfolding assms(1) by (rule sched_ok_run)
  have "\<forall>t. next_wake s' = Some t \<longrightarrow> now < t"
    using due_next[OF ok, of now] assms(2) by (auto simp: wakes_by_def)
  moreover have "due_tasks w = fst (fire now (entries s))"
    using assms(2) by (auto simp: due_def split_def Let_def)
  ultimately show ?thesis using ok fire_tasks[of now "entries s"] fire_tasks_distinct[of "entries s" now]
    by (auto simp: sched_ok_def fires_def)
qed

theorem due_moves_forward_witness:
  "due_tasks (snd (due (fold sched_apply [Ask 1 5, Ask 2 7] new_deadlines) 6)) = [1::nat] \<and>
    next_wake (fst (due (fold sched_apply [Ask 1 5, Ask (2::nat) 7] new_deadlines) 6)) = Some 7 \<and> (6::nat) < 7"
  using due_moves_forward[OF refl surjective_pairing, of "[Ask 1 5, Ask (2::nat) 7]" 6]
  by (simp add: ask_at_def new_deadlines_def DEADLINES_def due_def prune_def next_wake_def)

text \<open>The wait after a failure is one minute, doubled per consecutive failure and never more
  than an hour, so a longer streak never waits less.\<close>

theorem backoff_doubles:
  "snd (failed s t now) = min (from_secs 60 * 2 ^ failures_of s t) (from_secs 3600) \<and>
    delay id RETRY m \<le> delay id RETRY (m + n)"
proof -
  have "plain_delay RETRY (Suc n) = min (from_secs 60 * 2 ^ n) (from_secs 3600)" for n
  proof (cases "n < 32")
    case True
    then have "(2::nat) ^ n \<le> 2 ^ 31" by (intro power_increasing) auto
    then show ?thesis using True
      by (simp add: plain_delay_def RETRY_def BACKOFF_def BACKOFF_CEILING_def from_secs_def checked_shl_one_def DURATION_MAX_def)
  next
    case False
    then have "(2::nat) ^ 32 \<le> 2 ^ n" by (intro power_increasing) auto
    then show ?thesis using False
      by (simp add: plain_delay_def RETRY_def BACKOFF_def BACKOFF_CEILING_def from_secs_def checked_shl_one_def DURATION_MAX_def u32_max_def)
  qed
  moreover have "delay id RETRY k = plain_delay RETRY k" for k by (simp add: delay_def RETRY_def Let_def)
  ultimately show ?thesis using plain_delay_mono[of m "m + n" RETRY] by (simp add: failed_def Let_def)
qed

end
