(* ===== verification/Schedule_Spec.thy ===== *)
theory Schedule_Spec
  imports Schedule
begin

text \<open>
  What the deadline map promises, without its representation: a finite map from tasks to entries
  with a bound on its size, the earliest refused wake-up and the count of refusals.  Every
  operation of \<open>Schedule\<close> implements the operation here of the same name, and the answers the
  worker reads are functions of the abstract state.
\<close>

section \<open>The abstract deadlines\<close>

record 'k spec_deadlines =
  sp_entries :: "'k \<Rightarrow> entry option"
  sp_refusal :: "nat option"
  sp_refused :: nat

definition spec_new :: "'k spec_deadlines" where
  "spec_new = \<lparr>sp_entries = (\<lambda>_. None), sp_refusal = None, sp_refused = 0\<rparr>"

definition spec_full :: "'k spec_deadlines \<Rightarrow> bool" where
  "spec_full s \<longleftrightarrow> card (dom (sp_entries s)) = DEADLINES"

text \<open>A wake-up for a task that has no entry: refused when the map is full.\<close>

definition spec_put :: "'k \<Rightarrow> entry \<Rightarrow> 'k spec_deadlines \<Rightarrow> 'k spec_deadlines" where
  "spec_put t e s =
    (if sp_entries s t = None \<and> spec_full s
     then s\<lparr>sp_refusal := opt_min (sp_refusal s) (Some (e_due e)), sp_refused := sp_refused s + 1\<rparr>
     else s\<lparr>sp_entries := (sp_entries s)(t \<mapsto> e)\<rparr>)"

definition spec_ask :: "'k \<Rightarrow> nat \<Rightarrow> 'k spec_deadlines \<Rightarrow> 'k spec_deadlines" where
  "spec_ask t at s =
    (case sp_entries s t of
       None \<Rightarrow> spec_put t \<lparr>e_due = at, e_failures = 0, e_armed = True\<rparr> s
     | Some e \<Rightarrow>
         if e_armed e \<and> e_failures e > 0 then s
         else spec_put t \<lparr>e_due = (if e_armed e then min (e_due e) at else at), e_failures = e_failures e, e_armed = True\<rparr> s)"

definition spec_failures :: "'k spec_deadlines \<Rightarrow> 'k \<Rightarrow> nat" where
  "spec_failures s t = (case sp_entries s t of None \<Rightarrow> 0 | Some e \<Rightarrow> e_failures e)"

definition spec_failed :: "'k \<Rightarrow> nat \<Rightarrow> 'k spec_deadlines \<Rightarrow> 'k spec_deadlines" where
  "spec_failed t now s =
    spec_put t \<lparr>e_due = now + delay id RETRY (Suc (spec_failures s t)), e_failures = Suc (spec_failures s t), e_armed = True\<rparr> s"

definition spec_clear :: "'k \<Rightarrow> 'k spec_deadlines \<Rightarrow> 'k spec_deadlines" where
  "spec_clear t s =
    s\<lparr>sp_entries := (sp_entries s)(t :=
      (case sp_entries s t of None \<Rightarrow> None | Some e \<Rightarrow> if e_armed e then Some (e\<lparr>e_failures := 0\<rparr>) else None))\<rparr>"

definition spec_remove :: "'k \<Rightarrow> 'k spec_deadlines \<Rightarrow> 'k spec_deadlines" where
  "spec_remove t s = s\<lparr>sp_entries := (sp_entries s)(t := None)\<rparr>"

text \<open>What becomes of an entry when the due work is taken: a first wake-up is consumed, one in a
  backoff stays disarmed with its count, and one long disarmed is forgotten.\<close>

definition spec_after :: "nat \<Rightarrow> entry \<Rightarrow> entry option" where
  "spec_after now e =
    (if fires now e \<and> e_failures e = 0 then None
     else if \<not> e_armed (fired now e) \<and> now - e_due e > BACKOFF_CEILING then None
     else Some (fired now e))"

definition spec_due :: "nat \<Rightarrow> 'k spec_deadlines \<Rightarrow> 'k spec_deadlines" where
  "spec_due now s =
    s\<lparr>sp_entries := (\<lambda>t. case sp_entries s t of None \<Rightarrow> None | Some e \<Rightarrow> spec_after now e),
      sp_refusal := (if wakes_by now (sp_refusal s) then None else sp_refusal s)\<rparr>"

fun spec_apply :: "'k sched_op \<Rightarrow> 'k spec_deadlines \<Rightarrow> 'k spec_deadlines" where
  "spec_apply (Failed t now) s = spec_failed t now s"
| "spec_apply (Ask t at) s = spec_ask t at s"
| "spec_apply (Clear t) s = spec_clear t s"
| "spec_apply (Remove t) s = spec_remove t s"
| "spec_apply (Due now) s = spec_due now s"

text \<open>The answers the worker reads.\<close>

definition spec_tasks :: "nat \<Rightarrow> 'k spec_deadlines \<Rightarrow> 'k set" where
  "spec_tasks now s = {t. \<exists>e. sp_entries s t = Some e \<and> fires now e}"

definition spec_wakes :: "'k spec_deadlines \<Rightarrow> nat set" where
  "spec_wakes s = {e_due e | e t. sp_entries s t = Some e \<and> e_armed e} \<union> set_option (sp_refusal s)"

section \<open>The map implements them\<close>

definition abs_sched :: "'k deadlines \<Rightarrow> 'k spec_deadlines" where
  "abs_sched s = \<lparr>sp_entries = map_of (entries s), sp_refusal = refusal_at s, sp_refused = refused_deadlines s\<rparr>"

lemma abs_sched_sel [simp]:
  "sp_entries (abs_sched s) = map_of (entries s)" "sp_refusal (abs_sched s) = refusal_at s"
  "sp_refused (abs_sched s) = refused_deadlines s"
  by (simp_all add: abs_sched_def)

lemma abs_full: "sched_ok s \<Longrightarrow> spec_full (abs_sched s) \<longleftrightarrow> length (entries s) = DEADLINES"
  by (simp add: spec_full_def sched_ok_def dom_map_of_conv_image_fst distinct_card flip: set_map)

lemma abs_update: "abs_sched (s\<lparr>entries := AList.update t e (entries s)\<rparr>) = (abs_sched s)\<lparr>sp_entries := (map_of (entries s))(t \<mapsto> e)\<rparr>"
  by (simp add: abs_sched_def update_conv')

lemma abs_delete: "abs_sched (s\<lparr>entries := AList.delete t (entries s)\<rparr>) = (abs_sched s)\<lparr>sp_entries := (map_of (entries s))(t := None)\<rparr>"
  by (simp add: abs_sched_def delete_conv')

lemma abs_refuse: "abs_sched (refuse_deadline s at) =
    (abs_sched s)\<lparr>sp_refusal := opt_min (refusal_at s) (Some at), sp_refused := refused_deadlines s + 1\<rparr>"
  by (simp add: abs_sched_def refuse_deadline_def split: option.splits)

lemmas abs_simps = abs_update abs_delete abs_refuse abs_full

lemma entry_eq: "e\<lparr>e_due := d, e_armed := True\<rparr> = \<lparr>e_due = d, e_failures = e_failures e, e_armed = True\<rparr>"
  "e_armed e \<Longrightarrow> e\<lparr>e_due := d\<rparr> = \<lparr>e_due = d, e_failures = e_failures e, e_armed = True\<rparr>" for e :: entry
  by (cases e; simp)+

lemma abs_ask: "sched_ok s \<Longrightarrow> abs_sched (ask_at s t at) = spec_ask t at (abs_sched s)"
  by (auto simp: entry_eq ask_at_def spec_ask_def spec_put_def abs_simps split: option.splits)

lemma abs_failed: "sched_ok s \<Longrightarrow> abs_sched (fst (failed s t now)) = spec_failed t now (abs_sched s)"
  by (auto simp: failed_def spec_failed_def spec_put_def failures_of_def spec_failures_def abs_simps Let_def split: option.splits)

lemma abs_clear: "abs_sched (clear_task s t) = spec_clear t (abs_sched s)"
  by (auto simp: clear_task_def spec_clear_def abs_simps split: option.splits)

lemma abs_remove: "abs_sched (remove_task s t) = spec_remove t (abs_sched s)"
  by (simp add: remove_task_def spec_remove_def abs_simps)

lemma prune_fire:
  assumes "distinct (map fst es)"
  shows "map_of (prune now (snd (fire now es))) t = (case map_of es t of None \<Rightarrow> None | Some e \<Rightarrow> spec_after now e)"
  using assms
proof (induction es)
  case (Cons x es)
  obtain k e where x: "x = (k, e)" by fastforce
  show ?case
  proof (cases "k = t")
    case True
    then have "map_of es t = None" using Cons.prems x by (simp add: map_of_eq_None_iff)
    with Cons True x show ?thesis
      by (auto simp: fire_eq prune_def spec_after_def fired_def fires_def)
  next
    case False
    with Cons x show ?thesis by (auto simp: fire_eq prune_def)
  qed
qed (simp add: prune_def)

lemma abs_due: "sched_ok s \<Longrightarrow> abs_sched (fst (due s now)) = spec_due now (abs_sched s)"
  by (auto simp: abs_sched_def spec_due_def due_def split_def Let_def sched_ok_def prune_fire wakes_by_def split: option.splits)

interpretation sched: refines sched_ok abs_sched sched_apply spec_apply
proof
  fix s :: "'k deadlines" and op
  assume "sched_ok s"
  then show "sched_ok (sched_apply op s)" by (rule sched_ok_apply)
  show "abs_sched (sched_apply op s) = spec_apply op (abs_sched s)"
    using \<open>sched_ok s\<close> by (cases op) (simp_all add: abs_ask abs_failed abs_clear abs_remove abs_due)
qed

lemma wakes_by_iff: "wakes_by t (next_wake s) \<longleftrightarrow> (\<exists>w \<in> spec_wakes (abs_sched s). w \<le> t)" if "sched_ok s"
proof -
  have "distinct (map fst (entries s))" using that by (simp add: sched_ok_def)
  from next_wakes[OF this] show ?thesis by (cases "refusal_at s") (auto simp: spec_wakes_def wakes_by_def)
qed

section \<open>Property\<close>

text \<open>C28: the association list of deadlines refines the abstract map: after any sequence of
  operations its abstraction is what the same sequence makes of the abstract deadlines, and the
  tasks handed out, the rescan flag and the next wake-up are what the abstract state says.\<close>

theorem deadlines_refine_spec:
  assumes "s = fold sched_apply ops new_deadlines" "a = fold spec_apply ops spec_new"
  shows "abs_sched s = a \<and> set (due_tasks (snd (due s now))) = spec_tasks now a \<and>
    rescan (snd (due s now)) = wakes_by now (sp_refusal a) \<and>
    (next_wake s = None \<longleftrightarrow> spec_wakes a = {}) \<and>
    (\<forall>w. next_wake s = Some w \<longrightarrow> w \<in> spec_wakes a \<and> (\<forall>v \<in> spec_wakes a. w \<le> v))"
proof -
  have new: "sched_ok (new_deadlines :: 'a deadlines)" "abs_sched (new_deadlines :: 'a deadlines) = spec_new"
    by (simp_all add: sched_ok_def new_deadlines_def abs_sched_def spec_new_def)
  then have ok: "sched_ok s" and abs: "abs_sched s = a" using assms sched.run_refines[of new_deadlines ops] by simp_all
  have "due_tasks (snd (due s now)) = fst (fire now (entries s))" by (simp add: due_def split_def Let_def)
  then have 1: "set (due_tasks (snd (due s now))) = spec_tasks now a"
    using ok by (auto simp: fire_tasks spec_tasks_def abs[symmetric] sched_ok_def)
  have 2: "rescan (snd (due s now)) = wakes_by now (sp_refusal a)"
    by (auto simp: due_def split_def Let_def abs[symmetric] wakes_by_def split: option.splits)
  note w = wakes_by_iff[OF ok, unfolded abs]
  have 3: "next_wake s = None \<longleftrightarrow> spec_wakes a = {}"
  proof
    show "spec_wakes a = {} \<Longrightarrow> next_wake s = None" using w by (cases "next_wake s") auto
    show "next_wake s = None \<Longrightarrow> spec_wakes a = {}" using w by auto
  qed
  have 4: "v \<in> spec_wakes a \<and> (\<forall>u \<in> spec_wakes a. v \<le> u)" if "next_wake s = Some v" for v
  proof -
    have le: "v \<le> u" if "u \<in> spec_wakes a" for u using w[of u] \<open>next_wake s = Some v\<close> that by auto
    moreover obtain u where "u \<in> spec_wakes a" "u \<le> v" using w[of v] \<open>next_wake s = Some v\<close> by (auto simp: wakes_by_def)
    ultimately show ?thesis by (metis order_antisym)
  qed
  show ?thesis using abs 1 2 3 4 by blast
qed

theorem deadlines_refine_spec_witness:
  "abs_sched (fold sched_apply [Ask (1::nat) 5, Failed 2 7] new_deadlines) = fold spec_apply [Ask 1 5, Failed 2 7] spec_new \<and>
   next_wake (fold sched_apply [Ask (1::nat) 5, Failed 2 7] new_deadlines) = Some 5"
  using deadlines_refine_spec[OF refl refl, of "[Ask (1::nat) 5, Failed 2 7]" 6]
  by (simp add: ask_at_def failed_def failures_of_def new_deadlines_def DEADLINES_def next_wake_def Let_def)

end
