(* ===== verification/Loro_Interface.thy ===== *)
theory Loro_Interface
  imports Prelude "HOL-Library.FSet"
begin

text \<open>
  What the sequencer calls of the CRDT library: version vectors, the header of an update blob,
  and importing a blob into a document.  The library is not part of the repository, so it is a
  record of operations every definition takes as an argument; the locale \<open>loro_laws\<close> states the
  documented behaviour the proofs use.  \<open>covers\<close> and \<open>decode_vector\<close> are the sequencer's own
  helpers over it.  The interpretation \<open>ops\<close> is the reading the library's documentation gives:
  a version vector is a finite set of operations, ordered by inclusion and merged by union.
\<close>

section \<open>Definitions\<close>

datatype vv_ordering = VLess | VEqual | VGreater

record 'v header =
  change_num :: nat
  partial_start_vv :: 'v
  partial_end_vv :: 'v

record ('v, 'd) loro =
  vv_default :: 'v
  vv_merge :: "'v \<Rightarrow> 'v \<Rightarrow> 'v"
  vv_cmp :: "'v \<Rightarrow> 'v \<Rightarrow> vv_ordering option"
  vv_is_empty :: "'v \<Rightarrow> bool"
  vv_encode :: "'v \<Rightarrow> byte list"
  vv_decode :: "byte list \<Rightarrow> ustr + 'v"
  blob_meta :: "byte list \<Rightarrow> ustr + 'v header"
  new_doc :: 'd
  doc_import :: "'d \<Rightarrow> byte list \<Rightarrow> ustr + 'd"
  doc_digest :: "'d \<Rightarrow> ustr"

definition covers :: "('v, 'd) loro \<Rightarrow> 'v \<Rightarrow> 'v \<Rightarrow> bool" where
  "covers L holder wanted = (case vv_cmp L holder wanted of Some VGreater \<Rightarrow> True | Some VEqual \<Rightarrow> True | _ \<Rightarrow> False)"

definition decode_vector :: "('v, 'd) loro \<Rightarrow> byte list \<Rightarrow> ustr + 'v" where
  "decode_vector L bs = (if bs = [] then Inr (vv_default L) else vv_decode L bs)"

section \<open>The laws of version vectors\<close>

definition merge_ends :: "('v, 'd) loro \<Rightarrow> 'v \<Rightarrow> 'v list \<Rightarrow> 'v" where
  "merge_ends L = foldl (vv_merge L)"

text \<open>A sequence of headers is causally ordered from a vector when each starts from what the
  vector and the ends before it cover.\<close>

fun causal :: "('v, 'd) loro \<Rightarrow> 'v \<Rightarrow> 'v header list \<Rightarrow> bool" where
  "causal L v [] = True"
| "causal L v (h # hs) \<longleftrightarrow> covers L v (partial_start_vv h) \<and> causal L (vv_merge L v (partial_end_vv h)) hs"

lemma merge_ends_simps [simp]:
  "merge_ends L v [] = v"
  "merge_ends L v (e # es) = merge_ends L (vv_merge L v e) es"
  "merge_ends L v (es @ fs) = merge_ends L (merge_ends L v es) fs"
  by (simp_all add: merge_ends_def)

locale loro_laws =
  fixes L :: "('v, 'd) loro"
  assumes cov_refl: "covers L a a"
    and cov_trans: "covers L a b \<Longrightarrow> covers L b c \<Longrightarrow> covers L a c"
    and merge_left: "covers L (vv_merge L a b) a"
    and merge_right: "covers L (vv_merge L a b) b"
    and merge_least: "covers L c a \<Longrightarrow> covers L c b \<Longrightarrow> covers L c (vv_merge L a b)"
    and default_least: "covers L a (vv_default L)"
    and encode_roundtrip: "decode_vector L (vv_encode L a) = Inr a"
begin

lemma merge_ends_grows: "covers L (merge_ends L v es) v"
proof (induction es arbitrary: v)
  case (Cons e es)
  show ?case by (simp, rule cov_trans[OF Cons merge_left])
qed (simp add: cov_refl)

lemma merge_ends_covers: "e \<in> set es \<Longrightarrow> covers L (merge_ends L v es) e"
proof (induction es arbitrary: v)
  case (Cons x es)
  then show ?case by (auto intro: cov_trans[OF merge_ends_grows merge_right])
qed simp

lemma merge_ends_least: "covers L c v \<Longrightarrow> \<forall>e \<in> set es. covers L c e \<Longrightarrow> covers L c (merge_ends L v es)"
  by (induction es arbitrary: v) (simp_all add: merge_least)

lemma merge_ends_mono: "covers L w v \<Longrightarrow> covers L (merge_ends L w es) (merge_ends L v es)"
  by (rule merge_ends_least) (auto intro: cov_trans[OF merge_ends_grows] merge_ends_covers)

lemma causal_append: "causal L v (hs @ ks) \<longleftrightarrow> causal L v hs \<and> causal L (merge_ends L v (map partial_end_vv hs)) ks"
  by (induction hs arbitrary: v) auto

lemma merge_mono: "covers L w v \<Longrightarrow> covers L (vv_merge L w e) (vv_merge L v e)"
  using merge_ends_mono[of w v "[e]"] by simp

lemma causal_mono: "covers L w v \<Longrightarrow> causal L v hs \<Longrightarrow> causal L w hs"
proof (induction hs arbitrary: v w)
  case (Cons h hs)
  from Cons.prems have "covers L w (partial_start_vv h)" by (auto intro: cov_trans[OF Cons.prems(1)])
  moreover have "causal L (vv_merge L w (partial_end_vv h)) hs"
    by (rule Cons.IH[OF merge_mono[OF Cons.prems(1)]]) (use Cons.prems(2) in simp)
  ultimately show ?case by simp
qed simp

lemma encode_inj: "vv_encode L a = vv_encode L b \<Longrightarrow> a = b"
  by (metis encode_roundtrip sum.inject(2))

end

section \<open>Version vectors as sets of operations\<close>

text \<open>An update of the reading is its start's operations, the byte zero, and the operations it
  adds; a document is the operations it holds.\<close>

definition op_cmp :: "byte fset \<Rightarrow> byte fset \<Rightarrow> vv_ordering option" where
  "op_cmp a b = (if a = b then Some VEqual else if b |\<subseteq>| a then Some VGreater else if a |\<subseteq>| b then Some VLess else None)"

definition op_blob :: "byte list \<Rightarrow> ustr + byte fset header" where
  "op_blob bs = (let start = takeWhile (\<lambda>b. b \<noteq> 0) bs; added = drop (length start + 1) bs in
    Inr \<lparr>change_num = length added, partial_start_vv = fset_of_list start,
         partial_end_vv = fset_of_list added\<rparr>)"

definition op_loro :: "(byte fset, byte fset) loro" where
  "op_loro = \<lparr>vv_default = {||}, vv_merge = (|\<union>|), vv_cmp = op_cmp, vv_is_empty = (\<lambda>v. v = {||}),
    vv_encode = sorted_list_of_fset, vv_decode = (\<lambda>bs. Inr (fset_of_list bs)), blob_meta = op_blob,
    new_doc = {||}, doc_import = (\<lambda>d bs. map_sum id (\<lambda>h. d |\<union>| partial_end_vv h) (op_blob bs)),
    doc_digest = (\<lambda>d. [])\<rparr>"

lemma op_loro_simps [simp]:
  "vv_default op_loro = {||}" "vv_merge op_loro a b = a |\<union>| b" "vv_encode op_loro = sorted_list_of_fset"
  "vv_decode op_loro bs = Inr (fset_of_list bs)" "blob_meta op_loro = op_blob" "vv_is_empty op_loro v = (v = {||})"
  "doc_digest op_loro d = []"
  by (simp_all add: op_loro_def)

lemma op_covers [simp]: "covers op_loro a b \<longleftrightarrow> b |\<subseteq>| a"
  by (auto simp: covers_def op_loro_def op_cmp_def)

lemma op_sorted [simp]: "fset_of_list (sorted_list_of_fset a) = a"
  by (metis fset_inverse fset_of_list.rep_eq sorted_list_of_fset.rep_eq sorted_list_of_set(1) finite_fset)

lemma op_encode_empty [simp]: "sorted_list_of_fset ({||} :: byte fset) = []"
  by (simp add: sorted_list_of_fset.rep_eq)

interpretation ops: loro_laws op_loro
proof
  show "decode_vector op_loro (vv_encode op_loro a) = Inr a" for a
    using op_sorted[of a] by (cases "sorted_list_of_fset a = []") (simp_all add: decode_vector_def op_loro_def)
qed auto

end
