(* ===== verification/Durable_Log.thy ===== *)
theory Durable_Log
  imports Loro_Interface Log_Frame Budgets
begin

text \<open>
  One document's durable log as the catalog keeps it, \<open>engine/storage/postgres/document_log.rs\<close>:
  the head sequence, the rows above the compaction base and the base, with the reads the
  sequencer makes and the two writes that change it.  A transaction is one step; a query is the
  function it computes.  \<open>chain\<close> says what a well-formed log is: consecutive rows, each causally
  ordered after what the vector before it covers, each carrying the vector it leads to.
\<close>

section \<open>Definitions\<close>

record log_row =
  update_sequence :: int
  update_bytes :: "byte list"
  row_vector :: "byte list"

record db =
  db_sequence :: int
  db_rows :: "log_row list"
  db_base :: "(int \<times> byte list) option"

datatype db_error = Invalid_Argument | Conflict | Owner_Quota | Deployment_Quota

definition log_coverage :: "db \<Rightarrow> (int \<times> byte list) list" where
  "log_coverage db = map (\<lambda>r. (update_sequence r, row_vector r)) (db_rows db)"

definition log_rows :: "db \<Rightarrow> int \<Rightarrow> int option \<Rightarrow> db_error + log_row list" where
  "log_rows db after through =
    (if after < 0 then Inl Invalid_Argument
     else Inr (filter (\<lambda>r. update_sequence r > after \<and>
       (case through of None \<Rightarrow> True | Some t \<Rightarrow> update_sequence r \<le> t)) (db_rows db)))"

definition insert_log_row :: "db \<Rightarrow> int \<Rightarrow> byte list \<Rightarrow> byte list \<Rightarrow> db_error + db \<times> int" where
  "insert_log_row db expected bytes vector =
    (if bytes = [] then Inl Invalid_Argument
     else if db_sequence db \<noteq> expected then Inl Conflict
     else (let n = db_sequence db + 1 in
       Inr (db\<lparr>db_sequence := n,
         db_rows := db_rows db @ [\<lparr>update_sequence = n, update_bytes = bytes, row_vector = vector\<rparr>]\<rparr>, n)))"

text \<open>The whole insert.  \<open>removed\<close> are the bytes of the pending reservations the transaction found
  and deleted, the usages what the quota queries answer inside it.\<close>

record usage =
  u_owner :: int
  u_deployment :: int
  u_owner_limit :: int
  u_deployment_limit :: int

definition known_format :: "ustr \<Rightarrow> bool" where
  "known_format f \<longleftrightarrow> f \<in> {lit ''markdown'', lit ''html'', lit ''typst'', lit ''latex'', lit ''quarto''}"

definition insert_log_row_reserved ::
  "db \<Rightarrow> int \<Rightarrow> byte list \<Rightarrow> byte list \<Rightarrow> ustr option \<Rightarrow> byte list list \<Rightarrow> int \<Rightarrow> int list \<Rightarrow> usage \<Rightarrow> db_error + db \<times> int" where
  "insert_log_row_reserved db expected bytes vector format keys reserved removed u =
    (if bytes = [] then Inl Invalid_Argument
     else if (case format of None \<Rightarrow> False | Some f \<Rightarrow> \<not> known_format f) then Inl Invalid_Argument
     else if reserved < 0 \<or> (keys = []) \<noteq> (reserved = 0) then Inl Invalid_Argument
     else if reserved > 0 \<and> (length removed \<noteq> length keys \<or> foldl saturating_add_i64 0 removed \<noteq> reserved) then Inl Conflict
     else (let incoming = min (int (length bytes)) (2 ^ 63 - 1) in
       if saturating_add_i64 (u_owner u) incoming > u_owner_limit u then Inl Owner_Quota
       else if saturating_add_i64 (u_deployment u) incoming > u_deployment_limit u then Inl Deployment_Quota
       else insert_log_row db expected bytes vector))"

text \<open>\<open>Inr None\<close> is a stale activation, which changes nothing; otherwise the counters of what is
  left come back.  \<open>old\<close> and \<open>new\<close> are the usages before and after the base and the deleted rows.\<close>

definition activate_log_base ::
  "db \<Rightarrow> int \<Rightarrow> byte list \<Rightarrow> int \<Rightarrow> bool \<Rightarrow> usage \<Rightarrow> usage \<Rightarrow> bool \<Rightarrow> db_error + (db \<times> int \<times> int) option" where
  "activate_log_base db through vector snapshot_bytes key_empty old new replace_equal =
    (if through < 0 \<or> snapshot_bytes < 0 \<or> key_empty then Inl Invalid_Argument
     else if through > db_sequence db then Inl Conflict
     else if (case db_base db of None \<Rightarrow> False
              | Some (t, _) \<Rightarrow> if replace_equal then t > through else t \<ge> through) then Inr None
     else if u_owner new > u_owner_limit new \<and> u_owner new > u_owner old then Inl Owner_Quota
     else if u_deployment new > u_deployment_limit new \<and> u_deployment new > u_deployment old then Inl Deployment_Quota
     else (let rest = filter (\<lambda>r. update_sequence r > through) (db_rows db) in
       Inr (Some (db\<lparr>db_base := Some (through, vector), db_rows := rest\<rparr>, int (length rest),
         int (sum_list (map (length \<circ> update_bytes) rest))))))"

section \<open>Well-formed logs\<close>

definition head_of :: "('v, 'd) loro \<Rightarrow> byte list \<Rightarrow> 'v header" where
  "head_of L bs = projr (blob_meta L bs)"

definition meta_ok :: "('v, 'd) loro \<Rightarrow> byte list \<Rightarrow> bool" where
  "meta_ok L bs \<longleftrightarrow> (\<exists>h. blob_meta L bs = Inr h)"

definition ends_of :: "('v, 'd) loro \<Rightarrow> byte list list \<Rightarrow> 'v list" where
  "ends_of L bss = map (partial_end_vv \<circ> head_of L) bss"

definition payloads :: "log_row \<Rightarrow> byte list list" where
  "payloads r = (case decode (update_bytes r) of Inl _ \<Rightarrow> [] | Inr bs \<Rightarrow> map batch_bytes bs)"

definition row_to :: "('v, 'd) loro \<Rightarrow> 'v \<Rightarrow> log_row \<Rightarrow> 'v" where
  "row_to L v r = merge_ends L v (ends_of L (payloads r))"

definition row_ok :: "('v, 'd) loro \<Rightarrow> 'v \<Rightarrow> log_row \<Rightarrow> bool" where
  "row_ok L v r \<longleftrightarrow> is_ok (decode (update_bytes r)) \<and> update_bytes r \<noteq> [] \<and> list_all (meta_ok L) (payloads r) \<and>
    causal L v (map (head_of L) (payloads r)) \<and> row_vector r = vv_encode L (row_to L v r)"

fun chain :: "('v, 'd) loro \<Rightarrow> int \<Rightarrow> 'v \<Rightarrow> log_row list \<Rightarrow> int \<Rightarrow> 'v \<Rightarrow> bool" where
  "chain L n v [] m w \<longleftrightarrow> m = n \<and> w = v"
| "chain L n v (r # rs) m w \<longleftrightarrow> update_sequence r = n + 1 \<and> row_ok L v r \<and> chain L (n + 1) (row_to L v r) rs m w"

definition base_through :: "db \<Rightarrow> int" where
  "base_through db = (case db_base db of None \<Rightarrow> 0 | Some (t, _) \<Rightarrow> t)"

definition base_vec :: "('v, 'd) loro \<Rightarrow> db \<Rightarrow> 'v" where
  "base_vec L db = (case db_base db of None \<Rightarrow> vv_default L | Some (_, bs) \<Rightarrow> projr (decode_vector L bs))"

text \<open>The vector the base and every row cover.\<close>

definition durable_vector :: "('v, 'd) loro \<Rightarrow> db \<Rightarrow> 'v" where
  "durable_vector L db = merge_ends L (base_vec L db) (ends_of L (concat (map payloads (db_rows db))))"

definition db_ok :: "('v, 'd) loro \<Rightarrow> db \<Rightarrow> bool" where
  "db_ok L db \<longleftrightarrow> 0 \<le> base_through db \<and>
    chain L (base_through db) (base_vec L db) (db_rows db) (db_sequence db) (durable_vector L db)"

lemma ends_of_append [simp]: "ends_of L (xs @ ys) = ends_of L xs @ ends_of L ys" "ends_of L [] = []"
  by (simp_all add: ends_of_def)

lemma chain_append: "chain L n v (xs @ ys) m w \<longleftrightarrow> (\<exists>k u. chain L n v xs k u \<and> chain L k u ys m w)"
  by (induction xs arbitrary: n v) auto

lemma chain_to: "chain L n v rs m w \<Longrightarrow> m = n + int (length rs) \<and> w = merge_ends L v (ends_of L (concat (map payloads rs)))"
proof (induction rs arbitrary: n v)
  case (Cons r rs)
  from Cons.prems have "chain L (n + 1) (row_to L v r) rs m w" by simp
  from Cons.IH[OF this] show ?case by (simp add: row_to_def)
qed simp

lemma chain_sequences: "chain L n v rs m w \<Longrightarrow> r \<in> set rs \<Longrightarrow> n < update_sequence r \<and> update_sequence r \<le> m"
proof (induction rs arbitrary: n v)
  case (Cons a rs)
  from Cons.prems(1) have "chain L (n + 1) (row_to L v a) rs m w" "update_sequence a = n + 1" by auto
  moreover from this(1) have "n + 1 \<le> m" using chain_to by fastforce
  ultimately show ?case using Cons.prems(2) Cons.IH[of "n + 1" "row_to L v a"] by auto
qed simp

lemma chain_decodes: "chain L n v rs m w \<Longrightarrow> r \<in> set rs \<Longrightarrow> is_ok (decode (update_bytes r))"
  by (induction rs arbitrary: n v) (auto simp: row_ok_def)

lemma chain_split_at:
  assumes "chain L n v rs m w" "n \<le> k" "k \<le> m"
  shows "\<exists>xs ys u. rs = xs @ ys \<and> chain L n v xs k u \<and> chain L k u ys m w"
proof -
  have "length (take (nat (k - n)) rs) = nat (k - n)" using assms chain_to[OF assms(1)] by auto
  moreover from assms(1) obtain j u where "chain L n v (take (nat (k - n)) rs) j u" "chain L j u (drop (nat (k - n)) rs) m w"
    by (metis append_take_drop_id chain_append)
  moreover from chain_to[OF this(1)] have "j = n + int (length (take (nat (k - n)) rs))" by (rule conjunct1)
  ultimately have "j = k" using assms(2) by simp
  with \<open>chain L n v (take (nat (k - n)) rs) j u\<close> \<open>chain L j u (drop (nat (k - n)) rs) m w\<close>
  show ?thesis by (metis append_take_drop_id)
qed

lemma chain_filter_after:
  assumes "chain L n v xs k u" "chain L k u ys m w"
  shows "filter (\<lambda>r. update_sequence r > k) (xs @ ys) = ys"
  using chain_sequences[OF assms(1)] chain_sequences[OF assms(2)] by (fastforce simp: filter_empty_conv intro: filter_True)

context loro_laws
begin

lemma row_to_grows: "covers L (row_to L v r) v"
  by (simp add: row_to_def merge_ends_grows)

lemma chain_grows: "chain L n v rs m w \<Longrightarrow> covers L w v"
proof (induction rs arbitrary: n v)
  case (Cons r rs)
  then show ?case using cov_trans[OF _ row_to_grows] by fastforce
qed (simp add: cov_refl)

lemma chain_causal: "chain L n v rs m w \<Longrightarrow> causal L v (map (head_of L) (concat (map payloads rs)))"
  by (induction rs arbitrary: n v) (auto simp: causal_append row_ok_def row_to_def ends_of_def comp_def)

end

section \<open>The writes keep the log well formed\<close>

lemma insert_ok:
  assumes "db_ok L db" "insert_log_row db expected bytes vector = Inr (db', n)"
    and "row_ok L (durable_vector L db) \<lparr>update_sequence = db_sequence db + 1, update_bytes = bytes, row_vector = vector\<rparr>"
  shows "db_ok L db' \<and> n = expected + 1 \<and> db_sequence db = expected \<and> db_sequence db' = expected + 1 \<and> db_base db' = db_base db \<and>
    db_rows db' = db_rows db @ [\<lparr>update_sequence = db_sequence db + 1, update_bytes = bytes, row_vector = vector\<rparr>] \<and>
    durable_vector L db' = row_to L (durable_vector L db) \<lparr>update_sequence = db_sequence db + 1, update_bytes = bytes, row_vector = vector\<rparr>"
proof -
  let ?r = "\<lparr>update_sequence = db_sequence db + 1, update_bytes = bytes, row_vector = vector\<rparr>"
  from assms(2) have db': "db' = db\<lparr>db_sequence := db_sequence db + 1, db_rows := db_rows db @ [?r]\<rparr>"
    and n: "n = db_sequence db + 1" and e: "db_sequence db = expected"
    by (auto simp: insert_log_row_def Let_def split: if_splits)
  have b: "base_through db' = base_through db" "base_vec L db' = base_vec L db" by (simp_all add: db' base_through_def base_vec_def)
  have d: "durable_vector L db' = row_to L (durable_vector L db) ?r"
    using b(2) by (simp add: durable_vector_def row_to_def db')
  have "chain L (base_through db) (base_vec L db) (db_rows db @ [?r]) (db_sequence db + 1) (row_to L (durable_vector L db) ?r)"
    using assms(1,3) by (auto simp: chain_append db_ok_def)
  then show ?thesis using assms(1) n e d b by (simp add: db_ok_def db')
qed

lemma insert_reserved_Inr:
  "insert_log_row_reserved db e bytes vector format keys reserved removed u = Inr x \<Longrightarrow> insert_log_row db e bytes vector = Inr x"
  by (auto simp: insert_log_row_reserved_def Let_def split: if_splits option.splits)

lemma activate_ok:
  assumes ok: "db_ok L db" and law: "loro_laws L"
    and act: "activate_log_base db through (vv_encode L u) sb ke old new eq = Inr (Some (db', n, bytes))"
    and split: "db_rows db = xs @ ys" "chain L (base_through db) (base_vec L db) xs through u"
      "chain L through u ys (db_sequence db) w"
  shows "db_ok L db' \<and> db_rows db' = ys \<and> db_sequence db' = db_sequence db \<and> base_through db' = through \<and>
    base_vec L db' = u \<and> durable_vector L db' = durable_vector L db"
proof -
  have db': "db' = db\<lparr>db_base := Some (through, vv_encode L u), db_rows := ys\<rparr>" and nn: "0 \<le> through"
    using act chain_filter_after[OF split(2,3)] split(1)
    by (auto simp: activate_log_base_def Let_def split: if_splits option.splits)
  have bv: "base_vec L db' = u" using loro_laws.encode_roundtrip[OF law, of u] by (simp add: db' base_vec_def)
  have w: "w = durable_vector L db"
    using chain_to[OF split(2)] chain_to[OF split(3)] split(1) by (simp add: durable_vector_def)
  moreover have "durable_vector L db' = w" using chain_to[OF split(3)] bv by (simp add: durable_vector_def db')
  ultimately show ?thesis using split(3) bv nn by (simp add: db_ok_def base_through_def db')
qed

end
