(* ===== verification/Socket_Budget.thy ===== *)
theory Socket_Budget
  imports Prelude "HOL-Library.AList"
begin

text \<open>
  The admission meter for live sockets, \<open>base/config/socket_budget.rs\<close>: the policy, the
  counters kept per principal and per document beside the table of active sockets, \<open>admit\<close>,
  \<open>release\<close> and the queue meter.  The hash maps are association lists with distinct keys.  The
  two plain subtractions of \<open>release\<close> panic below zero, which is \<open>None\<close> here; the invariant
  shows that no sequence of admissions and releases reaches it.
\<close>

section \<open>Definitions\<close>

definition SOCKETS_PER_MIB :: nat where "SOCKETS_PER_MIB = 8"

definition deployment_sockets :: "64 word \<Rightarrow> nat" where
  "deployment_sockets memory = max (usize_mul (unat (drop_bit 20 memory)) SOCKETS_PER_MIB) 64"

record socket_policy =
  deployment_max :: nat
  principal_max :: nat
  document_max :: nat
  document_editors_max :: nat
  queue_bytes_max :: nat
  idle_seconds :: nat

definition default_policy :: socket_policy where
  "default_policy = \<lparr>deployment_max = deployment_sockets (push_bit 20 512), principal_max = 64,
    document_max = 256, document_editors_max = 32, queue_bytes_max = 16 * 1024 * 1024,
    idle_seconds = 30 * 60\<rparr>"

datatype socket_role = Socket_Reader | Socket_Commenter | Socket_Editor

fun role_limit :: "socket_policy \<Rightarrow> socket_role \<Rightarrow> nat option" where
  "role_limit p Socket_Editor = Some (document_editors_max p)"
| "role_limit p _ = None"

record socket_identity =
  principal :: ustr
  document :: ustr
  s_role :: "socket_role option"

record document_sockets =
  d_total :: nat
  d_roles :: "socket_role \<Rightarrow> nat"

definition no_sockets :: document_sockets where
  "no_sockets = \<lparr>d_total = 0, d_roles = (\<lambda>_. 0)\<rparr>"

record sockets =
  active :: "(nat \<times> socket_identity) list"
  principals :: "(ustr \<times> nat) list"
  documents :: "(ustr \<times> document_sockets) list"
  queue_frames :: nat
  queue_bytes :: nat

definition new_sockets :: sockets where
  "new_sockets = \<lparr>active = [], principals = [], documents = [], queue_frames = 0, queue_bytes = 0\<rparr>"

datatype refusal = Refuse_Deployment | Refuse_Principal | Refuse_Document | Refuse_Document_Editors

definition principal_key :: "socket_identity \<Rightarrow> ustr" where
  "principal_key i = (if principal i = [] then lit ''anonymous'' else principal i)"

definition get_or :: "'v \<Rightarrow> 'v option \<Rightarrow> 'v" where
  "get_or d x = (case x of None \<Rightarrow> d | Some v \<Rightarrow> v)"

definition add_document :: "socket_identity \<Rightarrow> document_sockets \<Rightarrow> document_sockets" where
  "add_document i d =
    (let d = d\<lparr>d_total := d_total d + 1\<rparr> in
     case s_role i of None \<Rightarrow> d | Some r \<Rightarrow> d\<lparr>d_roles := (d_roles d)(r := d_roles d r + 1)\<rparr>)"

definition admit :: "socket_policy \<Rightarrow> sockets \<Rightarrow> nat \<Rightarrow> socket_identity \<Rightarrow> refusal + sockets" where
  "admit p s sid i =
    (if length (active s) \<ge> deployment_max p then Inl Refuse_Deployment
     else if get_or 0 (map_of (principals s) (principal_key i)) \<ge> principal_max p then Inl Refuse_Principal
     else if (case map_of (documents s) (document i) of None \<Rightarrow> 0 | Some d \<Rightarrow> d_total d) \<ge> document_max p
       then Inl Refuse_Document
     else if (case s_role i of
          None \<Rightarrow> False
        | Some r \<Rightarrow> (case role_limit p r of
             None \<Rightarrow> False
           | Some l \<Rightarrow> (case map_of (documents s) (document i) of None \<Rightarrow> 0 | Some d \<Rightarrow> d_roles d r) \<ge> l))
       then Inl Refuse_Document_Editors
     else Inr (s\<lparr>
       principals := AList.update (principal_key i)
         (get_or 0 (map_of (principals s) (principal_key i)) + 1) (principals s),
       documents := AList.update (document i)
         (add_document i (get_or no_sockets (map_of (documents s) (document i)))) (documents s),
       active := AList.update sid i (active s)\<rparr>))"

definition decrement :: "(ustr \<times> nat) list \<Rightarrow> ustr \<Rightarrow> (ustr \<times> nat) list" where
  "decrement m k =
    (case map_of m k of
       None \<Rightarrow> m
     | Some v \<Rightarrow> if v - 1 = 0 then AList.delete k m else AList.update k (v - 1) m)"

definition drop_document :: "socket_identity \<Rightarrow> document_sockets \<Rightarrow> document_sockets option" where
  "drop_document i d =
    (if d_total d = 0 then None
     else (let d = d\<lparr>d_total := d_total d - 1\<rparr> in
       case s_role i of
         None \<Rightarrow> Some d
       | Some r \<Rightarrow> if d_roles d r = 0 then None else Some (d\<lparr>d_roles := (d_roles d)(r := d_roles d r - 1)\<rparr>)))"

definition release :: "sockets \<Rightarrow> nat \<Rightarrow> socket_identity \<Rightarrow> sockets option" where
  "release s sid i =
    (let s1 = s\<lparr>active := AList.delete sid (active s), principals := decrement (principals s) (principal_key i)\<rparr> in
     case map_of (documents s1) (document i) of
       None \<Rightarrow> Some s1
     | Some d \<Rightarrow>
         (case drop_document i d of
            None \<Rightarrow> None
          | Some d' \<Rightarrow> Some (s1\<lparr>documents :=
              (if d_total d' = 0 then AList.delete (document i) (documents s1)
               else AList.update (document i) d' (documents s1))\<rparr>)))"

definition queue_add :: "sockets \<Rightarrow> nat \<Rightarrow> nat \<Rightarrow> sockets" where
  "queue_add s frames bytes =
    s\<lparr>queue_frames := usize_add (queue_frames s) frames, queue_bytes := usize_add (queue_bytes s) bytes\<rparr>"

definition queue_admit :: "socket_policy \<Rightarrow> sockets \<Rightarrow> nat \<Rightarrow> sockets \<times> bool" where
  "queue_admit p s bytes =
    (if usize_add (queue_bytes s) bytes > queue_bytes_max p then (s, False)
     else (s\<lparr>queue_frames := usize_add (queue_frames s) 1, queue_bytes := usize_add (queue_bytes s) bytes\<rparr>, True))"

definition queue_remove :: "sockets \<Rightarrow> nat \<Rightarrow> nat \<Rightarrow> sockets" where
  "queue_remove s frames bytes =
    s\<lparr>queue_frames := queue_frames s - frames, queue_bytes := queue_bytes s - bytes\<rparr>"

text \<open>A permit holds the id and the identity it was admitted with; dropping it releases exactly
  those.  A process hands every socket a new id.\<close>

inductive sockets_step :: "socket_policy \<Rightarrow> sockets \<Rightarrow> sockets option \<Rightarrow> bool" for p where
  admit: "sid \<notin> fst ` set (active s) \<Longrightarrow> admit p s sid i = Inr s' \<Longrightarrow> sockets_step p s (Some s')"
| drop: "(sid, i) \<in> set (active s) \<Longrightarrow> sockets_step p s (release s sid i)"
| queue: "queue_admit p s n = (s', ok) \<Longrightarrow> sockets_step p s (Some s')"
| enqueue: "sockets_step p s (Some (queue_add s f n))"
| dequeue: "sockets_step p s (Some (queue_remove s f n))"

inductive sockets_reach :: "socket_policy \<Rightarrow> sockets option \<Rightarrow> bool" for p where
  start: "sockets_reach p (Some new_sockets)"
| step: "sockets_reach p (Some s) \<Longrightarrow> sockets_step p s s' \<Longrightarrow> sockets_reach p s'"

section \<open>The counters count the active sockets\<close>

definition count_active :: "sockets \<Rightarrow> (socket_identity \<Rightarrow> bool) \<Rightarrow> nat" where
  "count_active s P = length (filter P (map snd (active s)))"

definition doc_total :: "sockets \<Rightarrow> ustr \<Rightarrow> nat" where
  "doc_total s d = (case map_of (documents s) d of None \<Rightarrow> 0 | Some x \<Rightarrow> d_total x)"

definition doc_role :: "sockets \<Rightarrow> ustr \<Rightarrow> socket_role \<Rightarrow> nat" where
  "doc_role s d r = (case map_of (documents s) d of None \<Rightarrow> 0 | Some x \<Rightarrow> d_roles x r)"

definition counted :: "sockets \<Rightarrow> bool" where
  "counted s \<longleftrightarrow>
    distinct (map fst (active s)) \<and> distinct (map fst (principals s)) \<and> distinct (map fst (documents s)) \<and>
    (\<forall>k. get_or 0 (map_of (principals s) k) = count_active s (\<lambda>i. principal_key i = k)) \<and>
    (\<forall>k v. map_of (principals s) k = Some v \<longrightarrow> 0 < v) \<and>
    (\<forall>d. doc_total s d = count_active s (\<lambda>i. document i = d)) \<and>
    (\<forall>d x. map_of (documents s) d = Some x \<longrightarrow> 0 < d_total x) \<and>
    (\<forall>d r. doc_role s d r = count_active s (\<lambda>i. document i = d \<and> s_role i = Some r))"

definition within :: "socket_policy \<Rightarrow> sockets \<Rightarrow> bool" where
  "within p s \<longleftrightarrow> length (active s) \<le> deployment_max p \<and>
    (\<forall>k. count_active s (\<lambda>i. principal_key i = k) \<le> principal_max p) \<and>
    (\<forall>d. count_active s (\<lambda>i. document i = d) \<le> document_max p) \<and>
    (\<forall>d. count_active s (\<lambda>i. document i = d \<and> s_role i = Some Socket_Editor) \<le> document_editors_max p)"

lemma update_new: "k \<notin> fst ` set al \<Longrightarrow> AList.update k v al = al @ [(k, v)]"
  by (induction al) auto

lemma filter_delete:
  "distinct (map fst al) \<Longrightarrow> (k, v) \<in> set al \<Longrightarrow>
    length (filter P (map snd al)) = (if P v then 1 else 0) + length (filter P (map snd (AList.delete k al)))"
proof (induction al)
  case (Cons x al)
  show ?case
  proof (cases "fst x = k")
    case True
    with Cons.prems have x: "x = (k, v)" "k \<notin> fst ` set al" by (auto simp: image_iff)
    then have "AList.delete k al = al" by (intro AList.delete_id)
    with x show ?thesis by (simp add: AList.delete_eq)
  next
    case False
    with Cons show ?thesis by (auto simp: AList.delete_eq)
  qed
qed simp

lemma length_delete: "distinct (map fst al) \<Longrightarrow> (k, v) \<in> set al \<Longrightarrow> length al = Suc (length (AList.delete k al))"
  using filter_delete[of al k v "\<lambda>_. True"] by simp

lemma count_admit:
  assumes "sid \<notin> fst ` set (active s)" "active s' = AList.update sid i (active s)"
  shows "count_active s' P = count_active s P + (if P i then 1 else 0)"
  using assms by (simp add: count_active_def update_new)

lemma count_drop:
  assumes "distinct (map fst (active s))" "(sid, i) \<in> set (active s)" "active s' = AList.delete sid (active s)"
  shows "count_active s P = count_active s' P + (if P i then 1 else 0)"
  using filter_delete[OF assms(1,2), of P] assms(3) by (simp add: count_active_def)

lemma admit_parts:
  assumes "admit p s sid i = Inr s'"
  shows "length (active s) < deployment_max p" "get_or 0 (map_of (principals s) (principal_key i)) < principal_max p"
    "doc_total s (document i) < document_max p"
    "s_role i = Some Socket_Editor \<Longrightarrow> doc_role s (document i) Socket_Editor < document_editors_max p"
    "active s' = AList.update sid i (active s)"
    "principals s' = AList.update (principal_key i) (get_or 0 (map_of (principals s) (principal_key i)) + 1) (principals s)"
    "documents s' = AList.update (document i) (add_document i (get_or no_sockets (map_of (documents s) (document i)))) (documents s)"
  using assms by (auto simp: admit_def doc_total_def doc_role_def not_le split: if_splits option.splits)

lemma counted_admit:
  assumes "counted s" "sid \<notin> fst ` set (active s)" "admit p s sid i = Inr s'"
  shows "counted s'"
proof -
  note a = admit_parts[OF assms(3)]
  note c = count_admit[OF assms(2) a(5)]
  from assms(1) have inv: "\<And>k. get_or 0 (map_of (principals s) k) = count_active s (\<lambda>i. principal_key i = k)"
    "\<And>d. doc_total s d = count_active s (\<lambda>i. document i = d)"
    "\<And>d r. doc_role s d r = count_active s (\<lambda>i. document i = d \<and> s_role i = Some r)"
    by (auto simp: counted_def)
  have pr: "get_or 0 (map_of (principals s') k) = count_active s' (\<lambda>i. principal_key i = k)" for k
    unfolding a(6) c update_conv' by (simp add: get_or_def inv(1)[unfolded get_or_def])
  have dt: "doc_total s' d = count_active s' (\<lambda>i. document i = d)" for d
    using inv(2)[of d] unfolding doc_total_def a(7) c update_conv'
    by (auto simp: get_or_def no_sockets_def add_document_def Let_def split: option.splits)
  have dr: "doc_role s' d r = count_active s' (\<lambda>i. document i = d \<and> s_role i = Some r)" for d r
    using inv(3)[of d r] unfolding doc_role_def a(7) c update_conv'
    by (auto simp: get_or_def no_sockets_def add_document_def Let_def split: option.splits)
  have pos: "map_of (principals s') k = Some v \<Longrightarrow> 0 < v" "map_of (documents s') d = Some x \<Longrightarrow> 0 < d_total x" for k v d x
    using assms(1) by (auto simp: counted_def a(6,7) update_conv' add_document_def Let_def split: if_splits option.splits)
  show ?thesis unfolding counted_def
    using pr dt dr pos assms(1) by (simp add: a(5,6,7) distinct_update counted_def)
qed

lemma decrement_lookup: "get_or 0 (map_of (decrement m k) k') = get_or 0 (map_of m k') - (if k' = k then 1 else 0)"
  by (auto simp: decrement_def get_or_def update_conv' delete_conv' split: option.splits)

lemma decrement_pos: "\<forall>k v. map_of m k = Some v \<longrightarrow> 0 < v \<Longrightarrow> map_of (decrement m k) k' = Some v \<Longrightarrow> 0 < v"
  by (auto simp: decrement_def update_conv' delete_conv' split: option.splits if_splits)

lemma decrement_distinct: "distinct (map fst m) \<Longrightarrow> distinct (map fst (decrement m k))"
  by (auto simp: decrement_def distinct_update distinct_delete split: option.splits)

lemma filter_length_mono: "(\<And>x. P x \<Longrightarrow> Q x) \<Longrightarrow> length (filter P xs) \<le> length (filter Q xs)"
  by (induction xs) (auto intro: le_SucI)

lemma count_mono: "(\<And>i. P i \<Longrightarrow> Q i) \<Longrightarrow> count_active s P \<le> count_active s Q"
  unfolding count_active_def by (rule filter_length_mono)

lemma release_counted:
  assumes inv: "counted s" and i: "(sid, i) \<in> set (active s)"
  shows "\<exists>s'. release s sid i = Some s' \<and> counted s' \<and> active s' = AList.delete sid (active s)"
proof -
  from inv have d: "distinct (map fst (active s))"
    and pr: "\<And>k. get_or 0 (map_of (principals s) k) = count_active s (\<lambda>i. principal_key i = k)"
    and dt: "\<And>d. doc_total s d = count_active s (\<lambda>i. document i = d)"
    and dr: "\<And>d r. doc_role s d r = count_active s (\<lambda>i. document i = d \<and> s_role i = Some r)"
    by (auto simp: counted_def)
  note c = count_drop[OF d i]
  obtain x where x: "map_of (documents s) (document i) = Some x"
    using dt[of "document i"] c[of "s\<lparr>active := AList.delete sid (active s)\<rparr>" "\<lambda>j. document j = document i"]
    by (auto simp: doc_total_def split: option.splits)
  have tot: "d_total x = count_active s (\<lambda>j. document j = document i)" using dt[of "document i"] x by (simp add: doc_total_def)
  have rol: "d_roles x r = count_active s (\<lambda>j. document j = document i \<and> s_role j = Some r)" for r
    using dr[of "document i" r] x by (simp add: doc_role_def)
  have pos: "d_total x \<noteq> 0" "s_role i = Some r \<Longrightarrow> d_roles x r \<noteq> 0" for r
    unfolding tot rol using c[of "s\<lparr>active := AList.delete sid (active s)\<rparr>"] by simp_all
  then obtain x' where x': "drop_document i x = Some x'" "d_total x' = d_total x - 1"
    "\<And>r. d_roles x' r = d_roles x r - (if s_role i = Some r then 1 else 0)"
    by (cases "s_role i") (auto simp: drop_document_def Let_def)
  define s' where "s' = s\<lparr>active := AList.delete sid (active s), principals := decrement (principals s) (principal_key i),
    documents := if d_total x' = 0 then AList.delete (document i) (documents s) else AList.update (document i) x' (documents s)\<rparr>"
  have rel: "release s sid i = Some s'" using x x'(1) by (simp add: release_def Let_def s'_def)
  have act: "active s' = AList.delete sid (active s)" by (simp add: s'_def)
  note c' = c[OF act]
  have dt': "doc_total s' d = count_active s' (\<lambda>i. document i = d)" for d
    using dt[of d] c'[of "\<lambda>i. document i = d"] x x'(2)
    by (auto simp: doc_total_def s'_def update_conv' delete_conv')
  have dr': "doc_role s' d r = count_active s' (\<lambda>i. document i = d \<and> s_role i = Some r)" for d r
  proof (cases "d = document i \<and> d_total x' = 0")
    case True
    then have "count_active s' (\<lambda>i. document i = d) = 0"
      using dt'[of d] by (simp add: doc_total_def s'_def delete_conv')
    then have "count_active s' (\<lambda>i. document i = d \<and> s_role i = Some r) = 0"
      using count_mono[of "\<lambda>i. document i = d \<and> s_role i = Some r" "\<lambda>i. document i = d" s'] by simp
    with True show ?thesis by (simp add: doc_role_def s'_def delete_conv')
  next
    case False
    then show ?thesis using dr[of d r] c'[of "\<lambda>i. document i = d \<and> s_role i = Some r"] x x'(3)[of r]
      by (auto simp: doc_role_def s'_def update_conv' delete_conv')
  qed
  have "get_or 0 (map_of (principals s') k) = count_active s' (\<lambda>i. principal_key i = k)" for k
    using pr[of k] c'[of "\<lambda>i. principal_key i = k"] by (auto simp: s'_def decrement_lookup)
  moreover from inv have pp: "\<forall>k v. map_of (principals s) k = Some v \<longrightarrow> 0 < v"
    and dp: "\<forall>d y. map_of (documents s) d = Some y \<longrightarrow> 0 < d_total y" unfolding counted_def by blast+
  have "\<forall>k v. map_of (principals s') k = Some v \<longrightarrow> 0 < v"
  proof (intro allI impI)
    fix k v assume "map_of (principals s') k = Some v"
    then have "map_of (decrement (principals s) (principal_key i)) k = Some v" by (simp add: s'_def)
    from decrement_pos[OF pp this] show "0 < v" .
  qed
  moreover have "\<forall>d y. map_of (documents s') d = Some y \<longrightarrow> 0 < d_total y"
  proof (intro allI impI)
    fix d y assume "map_of (documents s') d = Some y"
    then have "y = x' \<and> d_total x' \<noteq> 0 \<or> map_of (documents s) d = Some y"
      by (auto simp: s'_def update_conv' delete_conv' split: if_splits)
    then show "0 < d_total y"
    proof (elim disjE)
      assume "y = x' \<and> d_total x' \<noteq> 0"
      then show ?thesis by simp
    next
      assume "map_of (documents s) d = Some y"
      then show ?thesis by (rule dp[rule_format])
    qed
  qed
  moreover have "distinct (map fst (active s'))" "distinct (map fst (principals s'))" "distinct (map fst (documents s'))"
    using inv by (auto simp: s'_def counted_def distinct_update distinct_delete decrement_distinct simp del: map_of_eq_Some_iff)
  ultimately have "counted s'" unfolding counted_def using dt' dr' by blast
  with rel act show ?thesis by blast
qed

lemma within_admit:
  assumes "counted s" "within p s" "sid \<notin> fst ` set (active s)" "admit p s sid i = Inr s'"
  shows "within p s'"
proof -
  note a = admit_parts[OF assms(4)]
  note c = count_admit[OF assms(3) a(5)]
  have lims: "count_active s (\<lambda>j. principal_key j = principal_key i) < principal_max p"
    "count_active s (\<lambda>j. document j = document i) < document_max p"
    "s_role i = Some Socket_Editor \<Longrightarrow> count_active s (\<lambda>j. document j = document i \<and> s_role j = Some Socket_Editor) < document_editors_max p"
    using a(2,3,4) assms(1) by (auto simp: counted_def)
  show ?thesis unfolding within_def c
    using assms(2,3) a(1,5) lims by (auto simp: within_def update_new Suc_le_eq)
qed

lemma within_drop:
  assumes "counted s" "within p s" "(sid, i) \<in> set (active s)" "active s' = AList.delete sid (active s)"
  shows "within p s'"
proof -
  from assms(1) have d: "distinct (map fst (active s))" by (simp add: counted_def)
  have le: "count_active s' P \<le> count_active s P" for P using count_drop[OF d assms(3,4), of P] by simp
  have "length (active s') \<le> length (active s)" using length_delete[OF d assms(3)] assms(4) by simp
  with assms(2) le show ?thesis unfolding within_def by (meson order_trans)
qed

lemma counted_queue:
  "counted (s\<lparr>queue_frames := f, queue_bytes := b\<rparr>) = counted s" "within p (s\<lparr>queue_frames := f, queue_bytes := b\<rparr>) = within p s"
  by (simp_all add: counted_def within_def count_active_def doc_total_def doc_role_def)

lemma sockets_step_inv:
  "sockets_step p s r \<Longrightarrow> counted s \<and> within p s \<Longrightarrow> \<exists>s'. r = Some s' \<and> counted s' \<and> within p s'"
proof (induction rule: sockets_step.induct)
  case (admit sid s i s')
  then show ?case by (auto intro: counted_admit within_admit)
next
  case (drop sid i s)
  then show ?case using release_counted[of s sid i] within_drop by blast
next
  case (queue s n s' ok)
  then show ?case by (auto simp: queue_admit_def counted_queue split: if_splits)
next
  case (enqueue s f n)
  then show ?case by (simp add: queue_add_def counted_queue)
next
  case (dequeue s f n)
  then show ?case by (simp add: queue_remove_def counted_queue)
qed

lemma sockets_reach_inv: "sockets_reach p r \<Longrightarrow> \<exists>s. r = Some s \<and> counted s \<and> within p s"
proof (induction rule: sockets_reach.induct)
  case start
  show ?case by (simp add: counted_def within_def new_sockets_def count_active_def doc_total_def doc_role_def get_or_def)
next
  case (step s s')
  then show ?case using sockets_step_inv by blast
qed

section \<open>Properties\<close>



end
