(* ===== verification/Outgoing.thy ===== *)
theory Outgoing
  imports Socket_Budget
begin

text \<open>
  The bounded delivery queue of one socket, \<open>engine/storage/outgoing.rs\<close>.  The payload of a
  text frame is a parameter type with its length in bytes.  A sender holds the channel, the
  counters of what is reserved, and the two closures of the process-wide queue meter, which act
  on the meter's state.  A reservation lives with its frame: in the channel, or with the writer
  that took the frame out, until it is dropped.  The lemmas show that the counters are the sum of
  the alive reservations, that both limits hold, and that the slot beyond the budget is always
  there for the frame that closes the transport.
\<close>

section \<open>Definitions\<close>

datatype 'p outgoing = Text 'p | SharedText 'p | Close ustr

definition outgoing_bytes :: "('p \<Rightarrow> nat) \<Rightarrow> 'p outgoing \<Rightarrow> nat" where
  "outgoing_bytes len out =
    (case out of
       Text v \<Rightarrow> usize_add (len v) 2
     | SharedText v \<Rightarrow> usize_add (len v) 2
     | Close reason \<Rightarrow> usize_add (str_len8 reason) 2)"

record queue_state =
  q_frames :: nat
  q_bytes :: nat
  frame_limit :: nat
  byte_limit :: nat

definition queue_reserve :: "queue_state \<Rightarrow> nat \<Rightarrow> queue_state option" where
  "queue_reserve q n =
    (if q_bytes q + n > usize_max then None
     else if q_frames q \<ge> frame_limit q \<or> q_bytes q + n > byte_limit q then None
     else Some (q\<lparr>q_frames := q_frames q + 1, q_bytes := q_bytes q + n\<rparr>))"

definition queue_release :: "queue_state \<Rightarrow> nat \<Rightarrow> queue_state" where
  "queue_release q n = q\<lparr>q_frames := q_frames q - 1, q_bytes := q_bytes q - n\<rparr>"

record 'p queued =
  q_outgoing :: "'p outgoing"
  q_durability :: bool
  q_reservation :: "nat option"

record 'p sender =
  chan :: "'p queued list"
  capacity :: nat
  receiving :: bool
  queue :: queue_state
  queue_metric :: "(int \<Rightarrow> nat \<Rightarrow> sockets \<Rightarrow> sockets) option"
  queue_admission :: "(nat \<Rightarrow> sockets \<Rightarrow> sockets \<times> bool) option"

definition channel ::
  "nat \<Rightarrow> nat \<Rightarrow> (int \<Rightarrow> nat \<Rightarrow> sockets \<Rightarrow> sockets) option \<Rightarrow> (nat \<Rightarrow> sockets \<Rightarrow> sockets \<times> bool) option \<Rightarrow> 'p sender" where
  "channel frames bytes metric admission =
    \<lparr>chan = [], capacity = max frames 1 + 1, receiving = True,
     queue = \<lparr>q_frames = 0, q_bytes = 0, frame_limit = max frames 1, byte_limit = max bytes 1\<rparr>,
     queue_metric = metric, queue_admission = admission\<rparr>"

text \<open>The two closures a socket's queue is made with.\<close>

definition socket_metric :: "int \<Rightarrow> nat \<Rightarrow> sockets \<Rightarrow> sockets" where
  "socket_metric frames bytes m =
    (if frames \<ge> 0 then queue_add m (nat frames) bytes else queue_remove m (nat (- frames)) bytes)"

definition socket_admission :: "socket_policy \<Rightarrow> nat \<Rightarrow> sockets \<Rightarrow> sockets \<times> bool" where
  "socket_admission p bytes m = queue_admit p m bytes"

text \<open>A channel takes an item while its receiver lives and a slot is free.\<close>

definition chan_send :: "'p sender \<Rightarrow> 'p queued \<Rightarrow> 'p sender option" where
  "chan_send s item =
    (if receiving s \<and> length (chan s) < capacity s then Some (s\<lparr>chan := chan s @ [item]\<rparr>) else None)"

definition drop_queued :: "'p sender \<Rightarrow> nat option \<Rightarrow> sockets \<Rightarrow> 'p sender \<times> sockets" where
  "drop_queued s r m =
    (case r of
       None \<Rightarrow> (s, m)
     | Some n \<Rightarrow> (s\<lparr>queue := queue_release (queue s) n\<rparr>,
         case queue_metric s of None \<Rightarrow> m | Some metric \<Rightarrow> metric (-1) n m))"

definition try_send_kind ::
  "('p \<Rightarrow> nat) \<Rightarrow> 'p sender \<Rightarrow> 'p outgoing \<Rightarrow> bool \<Rightarrow> sockets \<Rightarrow> ('p sender \<times> sockets) \<times> bool" where
  "try_send_kind len s out durability m =
    (let bytes = outgoing_bytes len out in
     case queue_reserve (queue s) bytes of
       None \<Rightarrow> ((s, m), False)
     | Some q \<Rightarrow>
         (let s1 = s\<lparr>queue := q\<rparr>;
              (m1, admitted) = (case queue_admission s1 of None \<Rightarrow> (m, True) | Some ask \<Rightarrow> ask bytes m) in
          if \<not> admitted then ((s1\<lparr>queue := queue_release (queue s1) bytes\<rparr>, m1), False)
          else
            (let m2 = (case queue_admission s1 of
                         None \<Rightarrow> (case queue_metric s1 of None \<Rightarrow> m1 | Some metric \<Rightarrow> metric 1 bytes m1)
                       | Some _ \<Rightarrow> m1) in
             case chan_send s1 \<lparr>q_outgoing = out, q_durability = durability, q_reservation = Some bytes\<rparr> of
               None \<Rightarrow> (drop_queued s1 (Some bytes) m2, False)
             | Some s2 \<Rightarrow> ((s2, m2), True))))"

definition try_send :: "('p \<Rightarrow> nat) \<Rightarrow> 'p sender \<Rightarrow> 'p outgoing \<Rightarrow> sockets \<Rightarrow> ('p sender \<times> sockets) \<times> bool" where
  "try_send len s out m = try_send_kind len s out False m"

definition try_send_durable :: "('p \<Rightarrow> nat) \<Rightarrow> 'p sender \<Rightarrow> 'p outgoing \<Rightarrow> sockets \<Rightarrow> ('p sender \<times> sockets) \<times> bool" where
  "try_send_durable len s out m = try_send_kind len s out True m"

definition force_close :: "'p sender \<Rightarrow> ustr \<Rightarrow> 'p sender \<times> bool" where
  "force_close s reason =
    (case chan_send s \<lparr>q_outgoing = Close reason, q_durability = True, q_reservation = None\<rparr> of
       None \<Rightarrow> (s, False)
     | Some s' \<Rightarrow> (s', True))"

text \<open>The other end: the writer takes a frame out and holds its reservation until it has put
  the frame on the wire; a receiver that goes away drops every frame left.\<close>

definition recv :: "'p sender \<Rightarrow> ('p sender \<times> 'p queued) option" where
  "recv s = (case chan s of [] \<Rightarrow> None | item # rest \<Rightarrow> Some (s\<lparr>chan := rest\<rparr>, item))"

fun drop_all :: "'p sender \<Rightarrow> nat option list \<Rightarrow> sockets \<Rightarrow> 'p sender \<times> sockets" where
  "drop_all s [] m = (s, m)"
| "drop_all s (r # rs) m = (let (s', m') = drop_queued s r m in drop_all s' rs m')"

definition drop_receiver :: "'p sender \<Rightarrow> sockets \<Rightarrow> 'p sender \<times> sockets" where
  "drop_receiver s m = drop_all (s\<lparr>chan := [], receiving := False\<rparr>) (map q_reservation (chan s)) m"

section \<open>Live reservations\<close>

definition alive :: "nat option list \<Rightarrow> nat list" where
  "alive rs = List.map_filter id rs"

lemma alive_simps [simp]:
  "alive [] = []" "alive (None # rs) = alive rs" "alive (Some n # rs) = n # alive rs" "alive (rs @ rs') = alive rs @ alive rs'"
  by (simp_all add: alive_def List.map_filter_def)

definition reserved :: "'p sender \<Rightarrow> nat list" where
  "reserved s = alive (map q_reservation (chan s))"

text \<open>The counters add up the reservations in the channel and those the writer still holds,
  both limits hold, and the channel has room for one frame more than may be reserved.\<close>

definition queue_ok :: "'p sender \<Rightarrow> nat list \<Rightarrow> bool" where
  "queue_ok s held \<longleftrightarrow>
    q_frames (queue s) = length (reserved s) + length held \<and>
    q_bytes (queue s) = sum_list (reserved s) + sum_list held \<and>
    q_frames (queue s) \<le> frame_limit (queue s) \<and> q_bytes (queue s) \<le> byte_limit (queue s) \<and>
    capacity s = frame_limit (queue s) + 1"

lemma chan_send_Some:
  "chan_send s x = Some s' \<longleftrightarrow> receiving s \<and> length (chan s) < capacity s \<and> s' = s\<lparr>chan := chan s @ [x]\<rparr>"
  by (auto simp: chan_send_def)

lemma queue_reserve_Some:
  "queue_reserve q n = Some q' \<longleftrightarrow> q_bytes q + n \<le> usize_max \<and> q_frames q < frame_limit q \<and> q_bytes q + n \<le> byte_limit q \<and>
    q' = q\<lparr>q_frames := q_frames q + 1, q_bytes := q_bytes q + n\<rparr>"
  by (auto simp: queue_reserve_def)

lemma queue_release_reserve [simp]:
  "queue_release (q\<lparr>q_frames := Suc (q_frames q), q_bytes := q_bytes q + n\<rparr>) n = q"
  by (simp add: queue_release_def)

text \<open>A send either adds exactly its frame, or leaves the sender as it was.\<close>

lemma try_send_cases:
  assumes "try_send_kind len s out d m = ((s', m'), ok)"
  shows "(ok \<and> receiving s \<and> queue_reserve (queue s) (outgoing_bytes len out) = Some (queue s') \<and>
      s' = s\<lparr>queue := queue s', chan := chan s @ [\<lparr>q_outgoing = out, q_durability = d, q_reservation = Some (outgoing_bytes len out)\<rparr>]\<rparr>)
    \<or> (\<not> ok \<and> s' = s)"
  using assms
  by (auto simp: try_send_kind_def Let_def split_def queue_reserve_Some chan_send_Some drop_queued_def
      split: option.splits if_splits)

lemma try_send_chan:
  "try_send_kind len s out d m = ((s', m'), ok) \<Longrightarrow>
    chan s' = chan s @ (if ok then [\<lparr>q_outgoing = out, q_durability = d, q_reservation = Some (outgoing_bytes len out)\<rparr>] else [])"
  by (drule try_send_cases) (elim disjE conjE, simp, erule ssubst, simp, simp)

lemma queue_ok_send:
  assumes "queue_ok s held" "try_send_kind len s out d m = ((s', m'), ok)"
  shows "queue_ok s' held"
  using try_send_cases[OF assms(2)]
proof (elim disjE conjE)
  assume s': "s' = s\<lparr>queue := queue s', chan := chan s @ [\<lparr>q_outgoing = out, q_durability = d, q_reservation = Some (outgoing_bytes len out)\<rparr>]\<rparr>"
    and q: "queue_reserve (queue s) (outgoing_bytes len out) = Some (queue s')"
  show ?thesis using assms(1) q by (subst s') (auto simp: queue_ok_def reserved_def queue_reserve_Some)
qed (use assms(1) in simp)

lemma alive_le: "length (alive rs) \<le> length rs"
  by (simp add: alive_def List.map_filter_def)

lemma alive_all: "None \<notin> set rs \<Longrightarrow> length (alive rs) = length rs"
proof (induction rs)
  case (Cons r rs)
  then show ?case by (cases r) auto
qed simp

lemma queue_ok_close:
  "queue_ok s held \<Longrightarrow> force_close s reason = (s', ok) \<Longrightarrow> queue_ok s' held"
  by (auto simp: force_close_def queue_ok_def reserved_def chan_send_Some split: option.splits)

lemma queue_ok_recv:
  "queue_ok s held \<Longrightarrow> recv s = Some (s', item) \<Longrightarrow> queue_ok s' (alive [q_reservation item] @ held)"
  by (cases "q_reservation item") (auto simp: recv_def queue_ok_def reserved_def split: list.splits)

lemma queue_ok_drop:
  "queue_ok s (xs @ n # ys) \<Longrightarrow> drop_queued s (Some n) m = (s', m') \<Longrightarrow> queue_ok s' (xs @ ys)"
  by (auto simp: drop_queued_def queue_ok_def queue_release_def reserved_def)

lemma queue_ok_drop_all:
  "queue_ok s (alive rs @ held) \<Longrightarrow> drop_all s rs m = (s', m') \<Longrightarrow> queue_ok s' held"
proof (induction rs arbitrary: s m)
  case (Cons r rs)
  obtain s1 m1 where d: "drop_queued s r m = (s1, m1)" by fastforce
  have "queue_ok s1 (alive rs @ held)"
  proof (cases r)
    case None
    with Cons.prems(1) d show ?thesis by (simp add: drop_queued_def)
  next
    case (Some n)
    with Cons.prems(1) queue_ok_drop[of s "[]" n "alive rs @ held" m s1 m1] d show ?thesis by simp
  qed
  with Cons.IH[of s1 m1] Cons.prems(2) d show ?case by simp
qed simp

lemma queue_ok_gone:
  assumes "queue_ok s held" "drop_receiver s m = (s', m')"
  shows "queue_ok s' held"
proof (rule queue_ok_drop_all)
  show "queue_ok (s\<lparr>chan := [], receiving := False\<rparr>) (alive (map q_reservation (chan s)) @ held)"
    using assms(1) by (simp add: queue_ok_def reserved_def)
  show "drop_all (s\<lparr>chan := [], receiving := False\<rparr>) (map q_reservation (chan s)) m = (s', m')"
    using assms(2) by (simp add: drop_receiver_def)
qed

text \<open>What can happen to one queue: a producer sends, somebody ends the transport, the writer
  takes a frame out, drops a reservation it holds, or goes away.\<close>

inductive queue_step :: "('p \<Rightarrow> nat) \<Rightarrow> 'p sender \<times> nat list \<times> sockets \<Rightarrow> 'p sender \<times> nat list \<times> sockets \<Rightarrow> bool" for len where
  send: "try_send_kind len s out d m = ((s', m'), ok) \<Longrightarrow> queue_step len (s, held, m) (s', held, m')"
| close: "force_close s reason = (s', ok) \<Longrightarrow> queue_step len (s, held, m) (s', held, m)"
| taken: "recv s = Some (s', item) \<Longrightarrow> queue_step len (s, held, m) (s', alive [q_reservation item] @ held, m)"
| written: "drop_queued s (Some n) m = (s', m') \<Longrightarrow> queue_step len (s, xs @ n # ys, m) (s', xs @ ys, m')"
| gone: "drop_receiver s m = (s', m') \<Longrightarrow> queue_step len (s, held, m) (s', held, m')"

lemma queue_step_ok: "queue_step len x y \<Longrightarrow> queue_ok (fst x) (fst (snd x)) \<Longrightarrow> queue_ok (fst y) (fst (snd y))"
  by (induction rule: queue_step.induct)
    (auto intro: queue_ok_send queue_ok_close queue_ok_drop queue_ok_gone dest: queue_ok_recv)

lemma queue_run_ok: "(queue_step len)\<^sup>*\<^sup>* x y \<Longrightarrow> queue_ok (fst x) (fst (snd x)) \<Longrightarrow> queue_ok (fst y) (fst (snd y))"
  by (induction rule: rtranclp_induct) (auto dest: queue_step_ok)

lemma channel_ok: "queue_ok (channel f b metric admission) []"
  by (simp add: queue_ok_def channel_def reserved_def)

lemma force_close_room:
  assumes "queue_ok s held" "receiving s" "None \<notin> set (map q_reservation (chan s))"
  shows "snd (force_close s reason)"
proof -
  have "length (chan s) \<le> frame_limit (queue s)"
    using assms(1) alive_all[OF assms(3)] by (simp add: queue_ok_def reserved_def)
  with assms(1,2) show ?thesis by (simp add: force_close_def chan_send_def queue_ok_def)
qed

section \<open>Properties\<close>

text \<open>C30: however frames are sent, taken, written, dropped and a transport closed, a socket's
  queue counts exactly the reservations still alive, in the channel or with the writer, and
  neither its frame limit nor its byte limit is ever passed.\<close>

theorem outgoing_queue_bounded:
  assumes "(queue_step len)\<^sup>*\<^sup>* (channel frames bytes metric admission, [], m0) (s, held, m)"
  shows "q_frames (queue s) = length (reserved s) + length held \<and>
    q_bytes (queue s) = sum_list (reserved s) + sum_list held \<and>
    q_frames (queue s) \<le> frame_limit (queue s) \<and> q_bytes (queue s) \<le> byte_limit (queue s)"
proof -
  from queue_run_ok[OF assms] have "queue_ok s held" by (simp add: channel_ok)
  then show ?thesis by (simp add: queue_ok_def)
qed

theorem outgoing_queue_bounded_witness:
  "q_frames (queue (fst (fst (try_send length (channel 2 10 None None) (Text [1, 2, 3 :: nat]) new_sockets)))) = 1 \<and>
   reserved (fst (fst (try_send length (channel 2 10 None None) (Text [1, 2, 3 :: nat]) new_sockets))) = [5]"
proof -
  let ?r = "fst (try_send length (channel 2 10 None None) (Text [1, 2, 3 :: nat]) new_sockets)"
  have r: "?r = ((channel 2 10 None None)\<lparr>queue := \<lparr>q_frames = 1, q_bytes = 5, frame_limit = 2, byte_limit = 10\<rparr>,
      chan := [\<lparr>q_outgoing = Text [1, 2, 3], q_durability = False, q_reservation = Some 5\<rparr>]\<rparr>, new_sockets)"
    by (simp add: try_send_def try_send_kind_def channel_def outgoing_bytes_def usize_add_def usize_max_def
        queue_reserve_def chan_send_def)
  have "queue_step length (channel 2 10 None None, [], new_sockets) (fst ?r, [], snd ?r)"
    by (rule queue_step.send[where ok = "snd (try_send length (channel 2 10 None None) (Text [1, 2, 3 :: nat]) new_sockets)"])
      (simp add: try_send_def)
  from outgoing_queue_bounded[OF r_into_rtranclp[of "queue_step length", OF this]] show ?thesis
    unfolding r by (simp add: reserved_def)
qed

text \<open>C31: the frame that ends a transport is never refused for want of room: while the receiver
  lives and no close is waiting already, forcing the close succeeds, however full the queue's
  budget is.\<close>

theorem force_close_admitted:
  assumes "(queue_step len)\<^sup>*\<^sup>* (channel frames bytes metric admission, [], m0) (s, held, m)"
    and "receiving s" "None \<notin> set (map q_reservation (chan s))"
  shows "snd (force_close s reason)"
proof -
  from queue_run_ok[OF assms(1)] have "queue_ok s held" by (simp add: channel_ok)
  then show ?thesis using assms(2,3) by (rule force_close_room)
qed

theorem force_close_admitted_witness:
  "snd (force_close (channel 0 0 None None :: ustr sender) [])"
  by (rule force_close_admitted[OF rtranclp.rtrancl_refl]) (simp_all add: channel_def)

end
