(* ===== verification/Sequencer.thy ===== *)
theory Sequencer
  imports Durable_Log Outgoing
begin

text \<open>
  The sequencer of one document, \<open>engine/log/sequencer.rs\<close>: its state \<open>Inner\<close>, and the
  operations that change it.  The resources it shares with the other documents (the pending
  budget, the memory budget, the storage ledger, the socket meter) are one record \<open>shared\<close>, and
  every operation returns both.  What PostgreSQL answers a call is an argument of the operation;
  a flush is split where the code releases its lock, into \<open>flush_begin\<close> and \<open>flush_finish\<close>, so
  that other operations can run between them.  An \<open>Instant\<close> is its nanoseconds, passed in.  The
  CRDT library is the record of \<open>Loro_Interface\<close>; a JSON frame is the datatype \<open>wire\<close> with its
  length in bytes.  The rate limiter's answer is an argument: \<open>None\<close> for an allowance of zero.
\<close>

section \<open>Constants and types\<close>

definition FLUSH_MAX_AGE :: nat where "FLUSH_MAX_AGE = 30 * 10 ^ 9"

definition FLUSH_QUIET :: nat where "FLUSH_QUIET = 5 * 10 ^ 9"

definition SOURCE_CHANGED_INTERVAL :: nat where "SOURCE_CHANGED_INTERVAL = 10 ^ 9"

definition BUILD_DEADLINE :: nat where "BUILD_DEADLINE = 10 * 10 ^ 9"

definition COMPACTION_RECHECK_INTERVAL :: nat where "COMPACTION_RECHECK_INTERVAL = 60 * 10 ^ 9"

datatype subscriber_class = Editor | Reader

datatype wire =
    Doc_Update "byte list"
  | Doc_Ack int
  | Doc_Durable "byte list"
  | Source_Changed "ustr option"

record subscriber =
  tx :: "wire sender"
  sub_role :: subscriber_class
  sub_peer :: ustr

record 'v pending_batch =
  p_peer_key :: ustr
  p_client_seq :: u64
  p_bytes :: "byte list"
  p_end :: 'v
  p_charge :: reservation
  p_durable_charge :: int
  p_durable_key :: "byte list"
  p_durable_digest :: "byte list"

datatype flush_reason = MaxAge | Quiet | Bytes | Barrier | LastSubscriberLeft | Shutdown | AuthorityRevoked

record retry_later =
  r_why :: ustr
  r_reason :: ustr
  r_pressure :: bool
  r_vector :: "byte list"

datatype ingested =
    Accepted
  | Gap "byte list"
  | Invalid ustr
  | Retryable retry_later
  | Refused_Update ustr

datatype seq_error =
    Unreadable ustr
  | Seq_Busy
  | Storage ustr
  | Loro_Failed ustr
  | Fenced ustr
  | Trimmed

record joined =
  j_vector :: "byte list"
  j_durable_vector :: "byte list"
  j_base :: "byte list option"
  j_batches :: "byte list list"
  j_from_rows :: bool

record ('v, 'd) inner =
  next_sequence :: int
  log_vector :: 'v
  head_vector :: 'v
  buffer :: "'v pending_batch list"
  buffer_bytes :: nat
  charged_bytes :: nat
  oldest_arrival :: "nat option"
  last_arrival :: "nat option"
  subscribers :: "(nat \<times> subscriber) list"
  cache :: "('d \<times> u64) option"
  projection :: "ustr option"
  unreadable :: "ustr option"
  fenced :: "ustr option"
  last_source_changed :: "nat option"
  source_changed_owed :: bool
  last_compaction_ask :: "nat option"
  base_bytes :: u64
  row_bytes :: u64
  uncompacted_count :: int
  base_vector :: 'v
  has_base :: bool

text \<open>What the sequencer is given for life.\<close>

record seq_config =
  document_id :: "byte list"
  owner_id :: nat
  log_quota_bytes :: nat
  per_owner :: int
  storage_total :: int
  deployment_peer_key :: ustr
  gap_check :: bool
  worker_wired :: bool
  compaction_thresholds :: "int \<times> int"
  wire_len :: "wire \<Rightarrow> nat"
  sha256 :: "byte list \<Rightarrow> byte list"
  new_v8 :: "byte list \<Rightarrow> byte list"

text \<open>The deployment's shared resources; \<open>sh_closing\<close> are the transports told to close that
  are still draining, \<open>sh_asks\<close> the compactions asked of the worker.\<close>

record shared =
  sh_pending :: pending_budget
  sh_budget :: budget
  sh_ledger :: "nat ledger"
  sh_meter :: sockets
  sh_closing :: "(nat \<times> subscriber) list"
  sh_asks :: nat

type_synonym ('v, 'd) seq_state = "('v, 'd) inner \<times> shared"

definition from_parts ::
  "int \<Rightarrow> 'v \<Rightarrow> u64 \<Rightarrow> u64 \<Rightarrow> int \<Rightarrow> 'v \<Rightarrow> bool \<Rightarrow> ('v, 'd) inner" where
  "from_parts sequence log base_b row_b n base_v has =
    \<lparr>next_sequence = sequence, log_vector = log, head_vector = log, buffer = [], buffer_bytes = 0,
     charged_bytes = 0, oldest_arrival = None, last_arrival = None, subscribers = [], cache = None,
     projection = None, unreadable = None, fenced = None, last_source_changed = None,
     source_changed_owed = False, last_compaction_ask = None, base_bytes = base_b, row_bytes = row_b,
     uncompacted_count = n, base_vector = base_v, has_base = has\<rparr>"

section \<open>The helpers of the state\<close>

definition writable :: "('v, 'd) inner \<Rightarrow> seq_error + unit" where
  "writable i = (case fenced i of Some why \<Rightarrow> Inl (Fenced why) | None \<Rightarrow> Inr ())"

definition readable :: "('v, 'd) inner \<Rightarrow> seq_error + unit" where
  "readable i = rbind (writable i) (\<lambda>_. case unreadable i of Some why \<Rightarrow> Inl (Unreadable why) | None \<Rightarrow> Inr ())"

definition close_all :: "ustr \<Rightarrow> ('v, 'd) seq_state \<Rightarrow> ('v, 'd) seq_state" where
  "close_all payload = (\<lambda>(i, sh).
    (i\<lparr>subscribers := []\<rparr>,
     sh\<lparr>sh_closing := sh_closing sh @
       map (\<lambda>(sid, s). (sid, s\<lparr>tx := fst (force_close (tx s) payload)\<rparr>)) (subscribers i)\<rparr>))"

definition fence :: "ustr \<Rightarrow> ('v, 'd) seq_state \<Rightarrow> ('v, 'd) seq_state" where
  "fence why = (\<lambda>(i, sh). close_all (lit ''fenced: '' @ why @ lit ''; reconnect'') (i\<lparr>fenced := Some why\<rparr>, sh))"

definition charge_of :: "('v, 'd) inner \<Rightarrow> nat \<Rightarrow> nat" where
  "charge_of i n = sum_list (map (\<lambda>p. unat (res_bytes (p_charge p))) (take n (buffer i)))"

definition append_prefix :: "byte list \<Rightarrow> ('v, 'd) inner \<Rightarrow> nat \<Rightarrow> byte list" where
  "append_prefix row i n =
    foldl (\<lambda>row p. append_batch row (p_peer_key p) (p_client_seq p) (p_bytes p)) row (take n (buffer i))"

definition encode_prefix :: "('v, 'd) inner \<Rightarrow> nat \<Rightarrow> byte list" where
  "encode_prefix i n = append_prefix (begin_row (charge_of i n)) i n"

definition ack_prefix :: "('v, 'd) inner \<Rightarrow> nat \<Rightarrow> (ustr \<times> u64) list" where
  "ack_prefix i n = map (\<lambda>p. (p_peer_key p, p_client_seq p)) (take n (buffer i))"

definition vector_through :: "('v, 'd) loro \<Rightarrow> ('v, 'd) inner \<Rightarrow> nat \<Rightarrow> 'v" where
  "vector_through L i n = foldl (\<lambda>v p. vv_merge L v (p_end p)) (log_vector i) (take n (buffer i))"

definition log_bytes :: "('v, 'd) inner \<Rightarrow> u64" where
  "log_bytes i = saturating_add (base_bytes i) (row_bytes i)"

definition resident_estimate :: "('v, 'd) inner \<Rightarrow> u64 \<Rightarrow> u64" where
  "resident_estimate i exp = estimate (saturating_add (log_bytes i) (word_of_nat (buffer_bytes i))) exp"

definition retire :: "nat \<Rightarrow> int \<Rightarrow> 'v \<Rightarrow> nat \<Rightarrow> nat \<Rightarrow> ('v, 'd) seq_state \<Rightarrow> ('v, 'd) seq_state" where
  "retire n written vector bytes now = (\<lambda>(i, sh).
    (let rest = drop n (buffer i) in
     (i\<lparr>next_sequence := written + 1, log_vector := vector, buffer := rest,
        buffer_bytes := sum_list (map (\<lambda>p. length (p_bytes p)) rest),
        charged_bytes := sum_list (map (\<lambda>p. unat (res_bytes (p_charge p))) rest),
        row_bytes := saturating_add (row_bytes i) (word_of_nat bytes),
        uncompacted_count := saturating_add_i64 (uncompacted_count i) 1,
        oldest_arrival := (if rest \<noteq> [] then Some now else None)\<rparr>,
      sh\<lparr>sh_pending := fold (\<lambda>p b. drop_reservation b (p_charge p)) (take n (buffer i)) (sh_pending sh)\<rparr>)))"

definition compaction_due :: "('v, 'd) inner \<Rightarrow> int \<times> int \<Rightarrow> bool" where
  "compaction_due i thresholds =
    (case thresholds of (n, bytes) \<Rightarrow> uncompacted_count i \<ge> n \<or> int (unat (row_bytes i)) \<ge> max 0 bytes)"

section \<open>Fan-out\<close>

fun fan_send ::
  "(wire \<Rightarrow> nat) \<Rightarrow> bool \<Rightarrow> (nat \<Rightarrow> subscriber \<Rightarrow> wire outgoing option) \<Rightarrow> (nat \<times> subscriber) list \<Rightarrow> sockets
    \<Rightarrow> (nat \<times> subscriber) list \<times> nat list \<times> sockets" where
  "fan_send len durable frame [] m = ([], [], m)"
| "fan_send len durable frame ((sid, s) # rest) m =
    (case frame sid s of
       None \<Rightarrow> (let (subs, closed, m') = fan_send len durable frame rest m in ((sid, s) # subs, closed, m'))
     | Some out \<Rightarrow>
         (let ((tx', m1), sent) = (if durable then try_send_durable len (tx s) out m else try_send len (tx s) out m);
              (subs, closed, m2) = fan_send len durable frame rest m1 in
          ((sid, s\<lparr>tx := tx'\<rparr>) # subs, if sent then closed else sid # closed, m2)))"

fun drop_slow :: "nat list \<Rightarrow> ('v, 'd) seq_state \<Rightarrow> ('v, 'd) seq_state" where
  "drop_slow [] st = st"
| "drop_slow (sid # ids) (i, sh) =
    (case map_of (subscribers i) sid of
       None \<Rightarrow> drop_slow ids (i, sh)
     | Some s \<Rightarrow> drop_slow ids
         (i\<lparr>subscribers := AList.delete sid (subscribers i)\<rparr>,
          sh\<lparr>sh_closing := sh_closing sh @
            [(sid, s\<lparr>tx := fst (force_close (tx s) (lit ''subscriber too slow; reconnect''))\<rparr>)]\<rparr>))"

definition fan_out ::
  "seq_config \<Rightarrow> bool \<Rightarrow> (nat \<Rightarrow> subscriber \<Rightarrow> wire outgoing option) \<Rightarrow> ('v, 'd) seq_state \<Rightarrow> ('v, 'd) seq_state" where
  "fan_out cfg durable frame = (\<lambda>(i, sh).
    (let (subs, closed, m) = fan_send (wire_len cfg) durable frame (subscribers i) (sh_meter sh) in
     drop_slow closed (i\<lparr>subscribers := subs\<rparr>, sh\<lparr>sh_meter := m\<rparr>)))"

definition relay :: "seq_config \<Rightarrow> nat option \<Rightarrow> byte list \<Rightarrow> ('v, 'd) seq_state \<Rightarrow> ('v, 'd) seq_state" where
  "relay cfg skip bytes =
    fan_out cfg False (\<lambda>sid s.
      if Some sid \<noteq> skip \<and> sub_role s = Editor then Some (SharedText (Doc_Update bytes)) else None)"

definition acknowledge_peer :: "seq_config \<Rightarrow> ustr \<Rightarrow> u64 \<Rightarrow> ('v, 'd) seq_state \<Rightarrow> ('v, 'd) seq_state" where
  "acknowledge_peer cfg peer up_to =
    fan_out cfg True (\<lambda>_ s. if sub_peer s = peer then Some (Text (Doc_Ack (sint up_to))) else None)"

definition ack_targets :: "(ustr \<times> u64) list \<Rightarrow> (ustr \<times> int) list" where
  "ack_targets acks =
    foldl (\<lambda>highest (peer, seq).
      AList.update peer (max (case map_of highest peer of None \<Rightarrow> i64_min | Some n \<Rightarrow> n) (sint seq)) highest) [] acks"

definition acknowledge :: "seq_config \<Rightarrow> (ustr \<times> u64) list \<Rightarrow> ('v, 'd) seq_state \<Rightarrow> ('v, 'd) seq_state" where
  "acknowledge cfg acks =
    fan_out cfg True (\<lambda>_ s. map_option (\<lambda>n. Text (Doc_Ack n)) (map_of (ack_targets acks) (sub_peer s)))"

definition notify_durable :: "('v, 'd) loro \<Rightarrow> seq_config \<Rightarrow> ('v, 'd) seq_state \<Rightarrow> ('v, 'd) seq_state" where
  "notify_durable L cfg = (\<lambda>(i, sh).
    fan_out cfg True (\<lambda>_ s.
      if sub_role s = Editor then Some (SharedText (Doc_Durable (vv_encode L (log_vector i)))) else None) (i, sh))"

definition emit_source_changed :: "('v, 'd) loro \<Rightarrow> seq_config \<Rightarrow> nat \<Rightarrow> ('v, 'd) seq_state \<Rightarrow> ('v, 'd) seq_state" where
  "emit_source_changed L cfg now = (\<lambda>(i, sh).
    (let digest = map_option (\<lambda>(d, _). doc_digest L d) (cache i) in
     fan_out cfg False (\<lambda>_ s. if sub_role s = Reader then Some (SharedText (Source_Changed digest)) else None)
       (i\<lparr>last_source_changed := Some now, source_changed_owed := False\<rparr>, sh)))"

definition note_source_changed :: "('v, 'd) loro \<Rightarrow> seq_config \<Rightarrow> nat \<Rightarrow> ('v, 'd) seq_state \<Rightarrow> ('v, 'd) seq_state" where
  "note_source_changed L cfg now = (\<lambda>(i, sh).
    if (case last_source_changed i of None \<Rightarrow> True | Some at \<Rightarrow> now - at \<ge> SOURCE_CHANGED_INTERVAL)
    then emit_source_changed L cfg now (i, sh)
    else (i\<lparr>source_changed_owed := True\<rparr>, sh))"

section \<open>Ingest\<close>

definition durable_reservation_key :: "seq_config \<Rightarrow> ustr \<Rightarrow> u64 \<Rightarrow> byte list \<Rightarrow> byte list" where
  "durable_reservation_key cfg peer seq digest =
    new_v8 cfg (take 16 (sha256 cfg
      (document_id cfg @ be_bytes 8 (str_len8 peer) @ as_bytes peer @ be_bytes 8 (unat seq) @ digest)))"

definition retryable :: "('v, 'd) loro \<Rightarrow> ('v, 'd) inner \<Rightarrow> string \<Rightarrow> string \<Rightarrow> bool \<Rightarrow> ingested" where
  "retryable L i why reason pressure =
    Retryable \<lparr>r_why = lit why, r_reason = lit reason, r_pressure = pressure, r_vector = vv_encode L (head_vector i)\<rparr>"

fun reason_text :: "quota_reason \<Rightarrow> string" where
  "reason_text Storage_Quota = ''storage_quota''"
| "reason_text Deployment_Storage = ''deployment_storage''"

definition drop_cached :: "('v, 'd) seq_state \<Rightarrow> ('v, 'd) seq_state" where
  "drop_cached = (\<lambda>(i, sh).
    case cache i of
      None \<Rightarrow> (i, sh)
    | Some (_, r) \<Rightarrow> (i\<lparr>cache := None\<rparr>, sh\<lparr>sh_budget := drop_memory (sh_budget sh) r\<rparr>))"

definition grow_cache :: "byte list \<Rightarrow> ('v, 'd) seq_state \<Rightarrow> ('v, 'd) seq_state" where
  "grow_cache bytes = (\<lambda>(i, sh).
    (let wanted = estimate (saturating_add (saturating_add (log_bytes i) (word_of_nat (buffer_bytes i)))
                    (word_of_nat (length bytes))) (expansion (sh_budget sh)) in
     case cache i of
       None \<Rightarrow> (i, sh)
     | Some (d, r) \<Rightarrow>
         (case try_grow_to (sh_budget sh) r wanted of
            (b, Inr r') \<Rightarrow> (i\<lparr>cache := Some (d, r')\<rparr>, sh\<lparr>sh_budget := b\<rparr>)
          | (b, Inl _) \<Rightarrow>
              (case drop_cached (i, sh\<lparr>sh_budget := b\<rparr>) of (i', sh') \<Rightarrow> (i'\<lparr>projection := None\<rparr>, sh')))))"

definition import_cached :: "('v, 'd) loro \<Rightarrow> byte list \<Rightarrow> ('v, 'd) seq_state \<Rightarrow> ('v, 'd) seq_state" where
  "import_cached L bytes = (\<lambda>(i, sh).
    case cache i of
      None \<Rightarrow> (i, sh)
    | Some (d, r) \<Rightarrow>
        (case doc_import L d bytes of
           Inl _ \<Rightarrow> drop_cached (i, sh)
         | Inr d' \<Rightarrow> (i\<lparr>cache := Some (d', r)\<rparr>, sh)))"

text \<open>What happens to a batch once every check has passed and its charge is held.\<close>

definition accept_batch ::
  "('v, 'd) loro \<Rightarrow> seq_config \<Rightarrow> nat \<Rightarrow> nat \<Rightarrow> ustr \<Rightarrow> u64 \<Rightarrow> byte list \<Rightarrow> 'v header \<Rightarrow> reservation \<Rightarrow> int \<Rightarrow> byte list
    \<Rightarrow> byte list \<Rightarrow> ('v, 'd) seq_state \<Rightarrow> ('v, 'd) seq_state" where
  "accept_batch L cfg now socket peer seq bytes h charge durable key digest = (\<lambda>st.
    case grow_cache bytes st of (i, sh) \<Rightarrow>
    (let i1 = i\<lparr>head_vector := vv_merge L (head_vector i) (partial_end_vv h),
               oldest_arrival := (case oldest_arrival i of None \<Rightarrow> Some now | Some at \<Rightarrow> Some at),
               last_arrival := Some now,
               buffer_bytes := usize_add (buffer_bytes i) (length bytes),
               charged_bytes := usize_add (charged_bytes i) (unat (res_bytes charge))\<rparr>;
         cached = (cache i1 \<noteq> None);
         (i2, sh2) = import_cached L bytes (i1, sh);
         (i3, sh3) = relay cfg (Some socket) bytes (if cached then i2\<lparr>projection := None\<rparr> else i2, sh2) in
     note_source_changed L cfg now
       (i3\<lparr>buffer := buffer i3 @ [\<lparr>p_peer_key = peer, p_client_seq = seq, p_bytes = bytes, p_end = partial_end_vv h,
          p_charge = charge, p_durable_charge = durable, p_durable_key = key, p_durable_digest = digest\<rparr>]\<rparr>, sh3)))"

text \<open>The answers ingest depends on: the time, the rate limiter's, and whether the durable
  quota reservation was made.\<close>

record ingest_env =
  in_now :: nat
  in_rate :: "bool option"
  in_reserved :: bool

text \<open>The charges an update has to be granted, from the owner's quota to the durable
  reservation, and its acceptance.\<close>

definition ingest_charged ::
  "('v, 'd) loro \<Rightarrow> seq_config \<Rightarrow> ingest_env \<Rightarrow> nat \<Rightarrow> ustr \<Rightarrow> u64 \<Rightarrow> byte list \<Rightarrow> 'v header \<Rightarrow> byte list \<Rightarrow> byte list
    \<Rightarrow> ('v, 'd) seq_state \<Rightarrow> ('v, 'd) seq_state \<times> ingested" where
  "ingest_charged L cfg env socket peer seq bytes h key digest = (\<lambda>(i, sh).
    (let charge = usize_add (length bytes) (overhead peer) in
     case would_exceed (sh_ledger sh) (owner_id cfg) (int charge) (per_owner cfg) (storage_total cfg) of
       Some reason \<Rightarrow> ((i, sh), retryable L i ''this account's storage is full'' (reason_text reason) False)
     | None \<Rightarrow>
       if buffer i \<noteq> [] \<and> usize_add (charged_bytes i) charge > BUFFER_CEILING_BYTES
         then ((i, sh), retryable L i ''sync_delayed: this server cannot save work right now'' ''document_buffer'' True)
       else if gap_check cfg \<and> \<not> covers L (head_vector i) (partial_start_vv h)
         then ((i, sh), Gap (vv_encode L (head_vector i)))
       else (case try_retain (sh_pending sh) (word_of_nat charge) of
           (b, Inl _) \<Rightarrow>
             ((i, sh\<lparr>sh_pending := b\<rparr>),
              retryable L i ''sync_delayed: this deployment is holding all the unsaved work it can'' ''pending_budget'' True)
         | (b, Inr r) \<Rightarrow>
             if \<not> in_reserved env
               then ((i, sh\<lparr>sh_pending := drop_reservation b r\<rparr>),
                     retryable L i ''this account's storage is full'' ''storage_quota'' False)
             else
               (accept_batch L cfg (in_now env) socket peer seq bytes h r
                  (int (unat (saturating_add (res_bytes r) (word_of_nat ROW_HEADER_BYTES)))) key digest
                  (i, sh\<lparr>sh_pending := b\<rparr>), Accepted))))"

definition ingest ::
  "('v, 'd) loro \<Rightarrow> seq_config \<Rightarrow> ingest_env \<Rightarrow> nat \<Rightarrow> ustr \<Rightarrow> u64 \<Rightarrow> byte list \<Rightarrow> ('v, 'd) seq_state
    \<Rightarrow> ('v, 'd) seq_state \<times> ingested" where
  "ingest L cfg env socket peer seq bytes = (\<lambda>(i, sh).
    if bytes = [] then ((i, sh), Invalid (lit ''an update with no bytes''))
    else if length bytes > max_update_bytes (log_quota_bytes cfg)
      then ((i, sh), Refused_Update (lit ''that update is larger than this deployment accepts''))
    else if str_len8 peer > MAX_PEER_KEY
      then ((i, sh), Refused_Update (lit ''that editor's identity is too long to record''))
    else (case blob_meta L bytes of
      Inl error \<Rightarrow> ((i, sh), Invalid error)
    | Inr h \<Rightarrow>
      if fenced i \<noteq> None
        then ((i, sh), Refused_Update (lit ''this server no longer holds this document; reconnect''))
      else (let digest = sha256 cfg bytes; key = durable_reservation_key cfg peer seq digest in
      if (case find (\<lambda>p. p_durable_key p = key) (buffer i) of
            Some previous \<Rightarrow> p_durable_digest previous = digest | None \<Rightarrow> False)
        then ((i, sh), Accepted)
      else if change_num h = 0 then (acknowledge_peer cfg peer seq (i, sh), Accepted)
      else if in_rate env \<noteq> Some True
        then ((i, sh), retryable L i ''too many updates; slow down and they will be accepted'' ''rate'' False)
      else if log_bytes i \<ge> word_of_nat (log_quota_bytes cfg)
        then ((i, sh), retryable L i ''this document's log is at its quota and is waiting to be compacted'' ''log_quota'' False)
      else ingest_charged L cfg env socket peer seq bytes h key digest (i, sh))))"

definition flush_due :: "nat \<Rightarrow> ('v, 'd) inner \<Rightarrow> flush_reason option" where
  "flush_due now i =
    (if buffer i = [] then None
     else if buffer_bytes i \<ge> FLUSH_TRIGGER_BYTES then Some Bytes
     else if (case oldest_arrival i of None \<Rightarrow> False | Some at \<Rightarrow> now - at \<ge> FLUSH_MAX_AGE) then Some MaxAge
     else if (case last_arrival i of None \<Rightarrow> False | Some at \<Rightarrow> now - at \<ge> FLUSH_QUIET) then Some Quiet
     else None)"

definition recheck_compaction :: "seq_config \<Rightarrow> nat \<Rightarrow> ('v, 'd) seq_state \<Rightarrow> ('v, 'd) seq_state" where
  "recheck_compaction cfg now = (\<lambda>(i, sh).
    if \<not> compaction_due i (compaction_thresholds cfg) then (i, sh)
    else if (case last_compaction_ask i of None \<Rightarrow> False | Some at \<Rightarrow> now - at < COMPACTION_RECHECK_INTERVAL) then (i, sh)
    else if \<not> worker_wired cfg then (i, sh)
    else (i\<lparr>last_compaction_ask := Some now\<rparr>, sh\<lparr>sh_asks := sh_asks sh + 1\<rparr>))"

section \<open>Flush\<close>

record 'v flush_snapshot =
  s_take :: nat
  s_keys :: "byte list list"
  s_reserved :: int
  s_acks :: "(ustr \<times> u64) list"
  s_encoded :: "byte list"
  s_scratch :: reservation
  s_driver :: reservation
  s_vector :: 'v
  s_expected :: int

text \<open>How a flush starts: still waiting for the scratch a drain is owed, refused, with nothing
  to write, with the row encoded and its scratch split, or in the panic of a split past the
  reservation.\<close>

datatype 'v flush_start = Waiting | Not_Started seq_error | Nothing | Started "'v flush_snapshot" | Panicked

definition drain_reason :: "flush_reason \<Rightarrow> bool" where
  "drain_reason r \<longleftrightarrow> r = Shutdown \<or> r = Barrier \<or> r = AuthorityRevoked"

definition give_scratch :: "reservation option \<Rightarrow> shared \<Rightarrow> shared" where
  "give_scratch r sh = (case r of None \<Rightarrow> sh | Some r \<Rightarrow> sh\<lparr>sh_pending := drop_reservation (sh_pending sh) r\<rparr>)"

definition flush_snapshot_of :: "('v, 'd) loro \<Rightarrow> ('v, 'd) inner \<Rightarrow> reservation \<Rightarrow> 'v flush_start" where
  "flush_snapshot_of L i res =
    (let n = length (buffer i); encoded = encode_prefix i n in
     case split_reservation res (driver_scratch_for (word_of_nat (length encoded))) of
       None \<Rightarrow> Panicked
     | Some (own, driver) \<Rightarrow> Started
         \<lparr>s_take = n, s_keys = map p_durable_key (take n (buffer i)),
          s_reserved = foldl saturating_add_i64 0 (map p_durable_charge (take n (buffer i))),
          s_acks = ack_prefix i n, s_encoded = encoded, s_scratch = own, s_driver = driver,
          s_vector = vector_through L i n, s_expected = next_sequence i - 1\<rparr>)"

definition flush_locked ::
  "('v, 'd) loro \<Rightarrow> reservation option \<Rightarrow> ('v, 'd) inner \<Rightarrow> shared \<Rightarrow> shared \<times> 'v flush_start" where
  "flush_locked L guaranteed i sh =
    (case writable i of
       Inl e \<Rightarrow> (give_scratch guaranteed sh, Not_Started e)
     | Inr _ \<Rightarrow>
         if buffer i = [] then (give_scratch guaranteed sh, Nothing)
         else (let row = usize_add ROW_HEADER_BYTES (charge_of i (length (buffer i))) in
           case guaranteed of
             Some r \<Rightarrow> (sh, flush_snapshot_of L i r)
           | None \<Rightarrow>
               (case try_scratch (sh_pending sh) (scratch_for (word_of_nat row)) of
                  (b, Inl _) \<Rightarrow> (sh\<lparr>sh_pending := b\<rparr>, Not_Started Seq_Busy)
                | (b, Inr r) \<Rightarrow> (sh\<lparr>sh_pending := b\<rparr>, flush_snapshot_of L i r))))"

definition flush_begin ::
  "('v, 'd) loro \<Rightarrow> seq_config \<Rightarrow> flush_reason \<Rightarrow> wake list \<Rightarrow> ('v, 'd) inner \<Rightarrow> shared \<Rightarrow> shared \<times> 'v flush_start" where
  "flush_begin L cfg reason wakes i sh =
    (if drain_reason reason then
       (case reserve_scratch (sh_pending sh) (scratch_for (word_of_nat (max_row_bytes (log_quota_bytes cfg)))) wakes of
          (b, None) \<Rightarrow> (sh\<lparr>sh_pending := b\<rparr>, Waiting)
        | (b, Some (Inl _)) \<Rightarrow> (sh\<lparr>sh_pending := b\<rparr>, Not_Started Seq_Busy)
        | (b, Some (Inr r)) \<Rightarrow> flush_locked L (Some r) i (sh\<lparr>sh_pending := b\<rparr>))
     else flush_locked L None i sh)"

definition int_text :: "int \<Rightarrow> ustr" where
  "int_text n = (if n < 0 then lit ''-'' @ nat_text (nat (- n)) else nat_text (nat n))"

text \<open>The two reads that settle a lost answer: the head sequence, and the row after the
  expected one.\<close>

definition resolve_ambiguous_flush ::
  "int \<Rightarrow> byte list \<Rightarrow> ustr \<Rightarrow> ustr + int \<Rightarrow> ustr + log_row list \<Rightarrow> seq_error + int" where
  "resolve_ambiguous_flush expected attempted error sequence rows =
    (case sequence of
       Inl _ \<Rightarrow> Inl (Storage error)
     | Inr current \<Rightarrow>
         if current = expected then Inl (Storage error)
         else if current \<noteq> expected + 1
           then Inl (Fenced (lit ''the log is at '' @ int_text current @ lit '' and this server expected '' @ int_text expected))
         else (case rows of
                 Inl _ \<Rightarrow> Inl (Storage error)
               | Inr [] \<Rightarrow> Inl (Storage error)
               | Inr (row # _) \<Rightarrow>
                   if row_vector row = attempted then Inr (expected + 1)
                   else Inl (Fenced (lit ''another writer holds this document's log''))))"

definition ask_compaction :: "seq_config \<Rightarrow> bool \<Rightarrow> shared \<Rightarrow> shared" where
  "ask_compaction cfg needed sh = (if needed \<and> worker_wired cfg then sh\<lparr>sh_asks := sh_asks sh + 1\<rparr> else sh)"

definition drop_scratch :: "'v flush_snapshot \<Rightarrow> shared \<Rightarrow> shared" where
  "drop_scratch snap sh =
    sh\<lparr>sh_pending := drop_reservation (drop_reservation (sh_pending sh) (s_driver snap)) (s_scratch snap)\<rparr>"

definition flush_written ::
  "('v, 'd) loro \<Rightarrow> seq_config \<Rightarrow> 'v flush_snapshot \<Rightarrow> int \<Rightarrow> nat \<Rightarrow> ('v, 'd) seq_state \<Rightarrow> ('v, 'd) seq_state" where
  "flush_written L cfg snap written now = (\<lambda>(i, sh).
    (let bytes = length (s_encoded snap);
         (i1, sh1) = retire (s_take snap) written (s_vector snap) bytes now (i, drop_scratch snap sh);
         sh2 = sh1\<lparr>sh_ledger := charge_ledger (sh_ledger sh1) (owner_id cfg) (int bytes)\<rparr>;
         needed = compaction_due i1 (compaction_thresholds cfg);
         (i3, sh3) = notify_durable L cfg (acknowledge cfg (s_acks snap) (i1, sh2));
         (i4, sh4) = (if source_changed_owed i3 then emit_source_changed L cfg now (i3, sh3) else (i3, sh3)) in
     (i4, ask_compaction cfg needed sh4)))"

text \<open>The end of a flush: what the database answered, and what the two reads answered when that
  was an error.\<close>

definition flush_finish ::
  "('v, 'd) loro \<Rightarrow> seq_config \<Rightarrow> 'v flush_snapshot \<Rightarrow> ustr + int \<Rightarrow> ustr + int \<Rightarrow> ustr + log_row list \<Rightarrow> nat
    \<Rightarrow> ('v, 'd) seq_state \<Rightarrow> ('v, 'd) seq_state \<times> (seq_error + int)" where
  "flush_finish L cfg snap answer sequence rows now = (\<lambda>(i, sh).
    case answer of
      Inr written \<Rightarrow> (flush_written L cfg snap written now (i, sh), Inr written)
    | Inl error \<Rightarrow>
        (case resolve_ambiguous_flush (s_expected snap) (vv_encode L (s_vector snap)) error sequence rows of
           Inr written \<Rightarrow> (flush_written L cfg snap written now (i, sh), Inr written)
         | Inl (Fenced why) \<Rightarrow> (fence why (i, drop_scratch snap sh), Inl (Fenced why))
         | Inl other \<Rightarrow> ((i, drop_scratch snap sh), Inl other)))"

section \<open>Join\<close>

text \<open>The stored vectors scanned backwards from the head, to the earliest row the client does
  not cover.\<close>

fun first_uncovered :: "('v, 'd) loro \<Rightarrow> 'v \<Rightarrow> (int \<times> byte list) list \<Rightarrow> int option \<Rightarrow> seq_error + int option" where
  "first_uncovered L client [] found = Inr found"
| "first_uncovered L client ((sequence, vector) # older) found =
    (case decode_vector L vector of
       Inl e \<Rightarrow> Inl (Loro_Failed e)
     | Inr v \<Rightarrow> if covers L client v then Inr found else first_uncovered L client older (Some sequence))"

fun frame_text :: "frame_error \<Rightarrow> ustr" where
  "frame_text Empty = lit ''an update row holds no bytes''"
| "frame_text (UnknownVersion v) = lit ''an update row is framed as version '' @ nat_text (unat v)"
| "frame_text Truncated = lit ''an update row ends inside a batch''"
| "frame_text Oversized = lit ''an update row claims an impossible length''"

fun decode_rows :: "log_row list \<Rightarrow> seq_error + byte list list" where
  "decode_rows [] = Inr []"
| "decode_rows (row # rows) =
    (case decode (update_bytes row) of
       Inl e \<Rightarrow> Inl (Loro_Failed (frame_text e))
     | Inr batches \<Rightarrow> rbind (decode_rows rows) (\<lambda>rest. Inr (map batch_bytes batches @ rest)))"

definition base_covered :: "('v, 'd) loro \<Rightarrow> ('v, 'd) inner \<Rightarrow> 'v \<Rightarrow> bool" where
  "base_covered L i client =
    (if \<not> has_base i then True else if vv_is_empty L (base_vector i) then False else covers L client (base_vector i))"

text \<open>What storage and the memory budget answer a join.\<close>

record join_env =
  jn_coverage :: "ustr + (int \<times> byte list) list"
  jn_rows :: "int \<Rightarrow> ustr + log_row list"
  jn_base :: "u64 \<Rightarrow> ustr + byte list"
  jn_evict :: "(budget \<Rightarrow> u64 \<Rightarrow> budget) option"
  jn_wakes :: "wake list"

text \<open>The base of the reply; \<open>None\<close> while the budget's wait goes on.\<close>

definition join_base :: "join_env \<Rightarrow> bool \<Rightarrow> u64 \<Rightarrow> shared \<Rightarrow> shared \<times> (seq_error + byte list option) option" where
  "join_base env covered bytes sh =
    (if covered then (sh, Some (Inr None))
     else (case reserve (sh_budget sh) (estimate bytes BUILD_TRANSIENT_EXPANSION) (jn_evict env) (jn_wakes env) of
             (b, None) \<Rightarrow> (sh\<lparr>sh_budget := b\<rparr>, None)
           | (b, Some (Inl _)) \<Rightarrow> (sh\<lparr>sh_budget := b\<rparr>, Some (Inl Seq_Busy))
           | (b, Some (Inr r)) \<Rightarrow>
               (sh\<lparr>sh_budget := drop_memory b r\<rparr>,
                Some (case jn_base env r of Inl e \<Rightarrow> Inl (Loro_Failed e) | Inr bytes \<Rightarrow> Inr (Some bytes)))))"

definition join_batches :: "join_env \<Rightarrow> int option \<Rightarrow> byte list list \<Rightarrow> seq_error + byte list list" where
  "join_batches env origin buffered =
    (case origin of
       None \<Rightarrow> Inr buffered
     | Some n \<Rightarrow>
         (case jn_rows env (n - 1) of
            Inl e \<Rightarrow> Inl (Storage e)
          | Inr rows \<Rightarrow> rbind (decode_rows rows) (\<lambda>bs. Inr (bs @ buffered))))"

definition join ::
  "('v, 'd) loro \<Rightarrow> join_env \<Rightarrow> nat \<Rightarrow> subscriber_class \<Rightarrow> ustr \<Rightarrow> wire sender \<Rightarrow> byte list option \<Rightarrow> ('v, 'd) seq_state
    \<Rightarrow> ('v, 'd) seq_state \<times> (seq_error + joined) option" where
  "join L env socket role peer sender client_vector = (\<lambda>(i, sh).
    case (case client_vector of
            Some bs \<Rightarrow> if bs \<noteq> [] then decode_vector L bs else Inr (vv_default L)
          | None \<Rightarrow> Inr (vv_default L)) of
      Inl e \<Rightarrow> ((i, sh), Some (Inl (Loro_Failed e)))
    | Inr client \<Rightarrow>
    (case jn_coverage env of
       Inl e \<Rightarrow> ((i, sh), Some (Inl (Storage e)))
     | Inr coverage \<Rightarrow>
     (case first_uncovered L client (rev coverage) None of
        Inl e \<Rightarrow> ((i, sh), Some (Inl e))
      | Inr uncovered \<Rightarrow>
      (case writable i of
         Inl e \<Rightarrow> ((i, sh), Some (Inl e))
       | Inr _ \<Rightarrow>
         (let i1 = i\<lparr>subscribers := AList.update socket \<lparr>tx = sender, sub_role = role, sub_peer = peer\<rparr> (subscribers i)\<rparr>;
              covered = base_covered L i client;
              origin = (if covered then uncovered else (case coverage of [] \<Rightarrow> None | row # _ \<Rightarrow> Some (fst row))) in
          case join_batches env origin (map p_bytes (buffer i)) of
            Inl e \<Rightarrow> ((i1, sh), Some (Inl e))
          | Inr batches \<Rightarrow>
              (case join_base env covered (base_bytes i) sh of
                 (sh', None) \<Rightarrow> ((i1, sh'), None)
               | (sh', Some (Inl e)) \<Rightarrow> ((i1, sh'), Some (Inl e))
               | (sh', Some (Inr base)) \<Rightarrow>
                   ((i1, sh'), Some (Inr \<lparr>j_vector = vv_encode L (head_vector i),
                      j_durable_vector = vv_encode L (log_vector i), j_base = base, j_batches = batches,
                      j_from_rows = (covered \<and> uncovered \<noteq> None)\<rparr>))))))))"

definition unsubscribe :: "nat \<Rightarrow> ('v, 'd) inner \<Rightarrow> ('v, 'd) inner \<times> bool" where
  "unsubscribe socket i =
    (let subs = AList.delete socket (subscribers i) in (i\<lparr>subscribers := subs\<rparr>, subs = []))"

definition editors :: "('v, 'd) inner \<Rightarrow> nat" where
  "editors i = length (filter (\<lambda>(_, s). sub_role s = Editor) (subscribers i))"

section \<open>The decoded document\<close>

fun import_all :: "('v, 'd) loro \<Rightarrow> 'd \<Rightarrow> byte list list \<Rightarrow> ustr + 'd" where
  "import_all L d [] = Inr d"
| "import_all L d (b # bs) = rbind (doc_import L d b) (\<lambda>d'. import_all L d' bs)"

definition build_doc :: "('v, 'd) loro \<Rightarrow> byte list option \<Rightarrow> byte list list \<Rightarrow> ustr + 'd" where
  "build_doc L base batches =
    rbind (case base of None \<Rightarrow> Inr (new_doc L) | Some bs \<Rightarrow> doc_import L (new_doc L) bs) (\<lambda>d. import_all L d batches)"

record build_env =
  bd_rows :: "ustr + log_row list"
  bd_base :: "u64 \<Rightarrow> ustr + byte list"
  bd_evict :: "(budget \<Rightarrow> u64 \<Rightarrow> budget) option"
  bd_wakes :: "wake list"
  bd_wakes_transient :: "wake list"
  bd_elapsed :: nat
  bd_millis :: u64

definition late_text :: "nat \<Rightarrow> ustr" where
  "late_text elapsed = lit ''reading it took '' @ nat_text (elapsed div 10 ^ 9) @ lit ''s, past the '' @
    nat_text (BUILD_DEADLINE div 10 ^ 9) @ lit ''s this deployment allows''"

text \<open>The import under the two reservations; the transient one is given back in every case, the
  resident one unless the document was built.\<close>

definition build_import ::
  "('v, 'd) loro \<Rightarrow> build_env \<Rightarrow> byte list option \<Rightarrow> byte list list \<Rightarrow> u64 \<Rightarrow> u64 \<Rightarrow> ('v, 'd) seq_state
    \<Rightarrow> ('v, 'd) seq_state \<times> (seq_error + 'd \<times> u64)" where
  "build_import L env base batches r t = (\<lambda>(i, sh).
    (let sh = sh\<lparr>sh_budget := drop_memory (sh_budget sh) t\<rparr>;
         fail = (\<lambda>why. ((i\<lparr>unreadable := Some why\<rparr>,
           sh\<lparr>sh_budget := drop_memory (note_build_failed (sh_budget sh)) r\<rparr>), Inl (Unreadable why))) in
     case build_doc L base batches of
       Inl error \<Rightarrow> fail error
     | Inr d \<Rightarrow>
         if bd_elapsed env > BUILD_DEADLINE then fail (late_text (bd_elapsed env))
         else ((i, sh\<lparr>sh_budget := note_built (sh_budget sh) (bd_millis env)\<rparr>), Inr (d, r))))"

definition build_read ::
  "build_env \<Rightarrow> ('v, 'd) inner \<Rightarrow> u64 \<Rightarrow> u64 \<Rightarrow> seq_error + byte list option \<times> byte list list" where
  "build_read env i r t =
    rbind (if has_base i
           then (case bd_base env (r + t) of Inl e \<Rightarrow> Inl (Loro_Failed e) | Inr bs \<Rightarrow> Inr (Some bs))
           else Inr None) (\<lambda>base.
    case bd_rows env of
      Inl e \<Rightarrow> Inl (Storage e)
    | Inr rows \<Rightarrow> rbind (decode_rows rows) (\<lambda>bs. Inr (base, bs @ map p_bytes (buffer i))))"

definition build ::
  "('v, 'd) loro \<Rightarrow> build_env \<Rightarrow> ('v, 'd) seq_state \<Rightarrow> ('v, 'd) seq_state \<times> (seq_error + 'd \<times> u64) option" where
  "build L env = (\<lambda>(i, sh).
    (let est = resident_estimate i (expansion (sh_budget sh));
         transient = estimate (saturating_add (log_bytes i) (word_of_nat (buffer_bytes i))) BUILD_TRANSIENT_EXPANSION in
     case reserve (sh_budget sh) est (bd_evict env) (bd_wakes env) of
       (b, None) \<Rightarrow> ((i, sh\<lparr>sh_budget := b\<rparr>), None)
     | (b, Some (Inl _)) \<Rightarrow> ((i, sh\<lparr>sh_budget := b\<rparr>), Some (Inl Seq_Busy))
     | (b, Some (Inr r)) \<Rightarrow>
         (case reserve b transient (bd_evict env) (bd_wakes_transient env) of
            (b, None) \<Rightarrow> ((i, sh\<lparr>sh_budget := b\<rparr>), None)
          | (b, Some (Inl _)) \<Rightarrow> ((i, sh\<lparr>sh_budget := drop_memory b r\<rparr>), Some (Inl Seq_Busy))
          | (b, Some (Inr t)) \<Rightarrow>
              (case build_read env i r t of
                 Inl e \<Rightarrow> ((i, sh\<lparr>sh_budget := drop_memory (drop_memory b t) r\<rparr>), Some (Inl e))
               | Inr (base, batches) \<Rightarrow>
                   (case build_import L env base batches r t (i, sh\<lparr>sh_budget := b\<rparr>) of
                      (st, res) \<Rightarrow> (st, Some res))))))"

definition drop_cache :: "('v, 'd) seq_state \<Rightarrow> ('v, 'd) seq_state" where
  "drop_cache st = (case drop_cached st of (i, sh) \<Rightarrow> (i\<lparr>projection := None\<rparr>, sh))"

definition recover :: "('v, 'd) inner \<Rightarrow> ('v, 'd) inner" where
  "recover i = i\<lparr>unreadable := None\<rparr>"

section \<open>Commands\<close>

text \<open>The source a command prepared on a fork, with the digest of the projection it leaves.\<close>

record 'v prepared_source =
  pr_batch :: "byte list"
  pr_end :: 'v
  pr_client_seq :: u64
  pr_digest :: ustr

text \<open>What \<open>prepare\<close> makes of the export of the edited fork: nothing when it holds no change.\<close>

definition prepare :: "('v, 'd) loro \<Rightarrow> u64 \<Rightarrow> ustr + byte list \<Rightarrow> ustr \<Rightarrow> ustr + 'v prepared_source option" where
  "prepare L seq exported digest =
    rbind exported (\<lambda>batch. rbind (blob_meta L batch) (\<lambda>h.
      if change_num h = 0 then Inr None
      else Inr (Some \<lparr>pr_batch = batch, pr_end = partial_end_vv h, pr_client_seq = seq, pr_digest = digest\<rparr>)))"

record 'v command_row =
  c_take :: nat
  c_acks :: "(ustr \<times> u64) list"
  c_vector :: 'v
  c_row_bytes :: nat
  c_encoded :: "byte list"
  c_expected :: int

definition command_assemble ::
  "('v, 'd) loro \<Rightarrow> seq_config \<Rightarrow> 'v prepared_source option \<Rightarrow> ('v, 'd) inner \<Rightarrow> 'v command_row" where
  "command_assemble L cfg prepared i =
    (let n = length (buffer i);
         acks = ack_prefix i n @ (case prepared of None \<Rightarrow> [] | Some p \<Rightarrow> [(deployment_peer_key cfg, pr_client_seq p)]);
         vector = (case prepared of None \<Rightarrow> vector_through L i n | Some p \<Rightarrow> vv_merge L (vector_through L i n) (pr_end p));
         size = usize_add ROW_HEADER_BYTES (charge_of i n);
         size = (case prepared of None \<Rightarrow> size
                 | Some p \<Rightarrow> usize_add (usize_add size (overhead (deployment_peer_key cfg))) (length (pr_batch p)));
         encoded = (if acks = [] then [] else encode_slices
           (map (\<lambda>p. (p_peer_key p, p_client_seq p, p_bytes p)) (take n (buffer i)) @
            (case prepared of None \<Rightarrow> [] | Some p \<Rightarrow> [(deployment_peer_key cfg, pr_client_seq p, pr_batch p)]))) in
     \<lparr>c_take = n, c_acks = acks, c_vector = vector, c_row_bytes = size, c_encoded = encoded,
      c_expected = next_sequence i - 1\<rparr>)"

text \<open>What a command is refused with before its transaction opens: a sequencer that lost the log,
  a document that cannot be built, no scratch for the row.\<close>

datatype command_refusal = Command_Sequencer seq_error | Command_Conflict

definition command_ready :: "('v, 'd) inner \<Rightarrow> command_refusal + unit" where
  "command_ready i = (case readable i of Inl e \<Rightarrow> Inl (Command_Sequencer e) | Inr _ \<Rightarrow> Inr ())"

definition command_scratch :: "'v command_row \<Rightarrow> shared \<Rightarrow> shared \<times> (command_refusal + reservation)" where
  "command_scratch row sh =
    (case try_scratch (sh_pending sh) (scratch_for (word_of_nat (c_row_bytes row))) of
       (b, Inl _) \<Rightarrow> (sh\<lparr>sh_pending := b\<rparr>, Inl Command_Conflict)
     | (b, Inr r) \<Rightarrow> (sh\<lparr>sh_pending := b\<rparr>, Inr r))"

definition install_prepared ::
  "('v, 'd) loro \<Rightarrow> seq_config \<Rightarrow> nat \<Rightarrow> 'v prepared_source option \<Rightarrow> ('v, 'd) seq_state \<Rightarrow> ('v, 'd) seq_state" where
  "install_prepared L cfg now prepared st =
    (case prepared of
       None \<Rightarrow> st
     | Some p \<Rightarrow>
         (case st of (i, sh) \<Rightarrow>
         (case import_cached L (pr_batch p) (i\<lparr>head_vector := vv_merge L (head_vector i) (pr_end p)\<rparr>, sh) of (i1, sh1) \<Rightarrow>
          note_source_changed L cfg now (relay cfg None (pr_batch p)
            (i1\<lparr>projection := (if cache i1 \<noteq> None then Some (pr_digest p) else None)\<rparr>, sh1)))))"

text \<open>The end of a command whose transaction committed: \<open>written\<close> is the sequence of its row.\<close>

definition command_commit ::
  "('v, 'd) loro \<Rightarrow> seq_config \<Rightarrow> nat \<Rightarrow> 'v prepared_source option \<Rightarrow> int \<Rightarrow> ('v, 'd) seq_state \<Rightarrow> ('v, 'd) seq_state" where
  "command_commit L cfg now prepared written = (\<lambda>(i, sh).
    (let row = command_assemble L cfg prepared i;
         wrote = (c_acks row \<noteq> []);
         bytes = length (c_encoded row);
         (i1, sh1) = (if wrote then
            (case retire (c_take row) written (c_vector row) bytes now (i, sh) of (i', sh') \<Rightarrow>
              (i', sh'\<lparr>sh_ledger := charge_ledger (sh_ledger sh') (owner_id cfg) (int bytes)\<rparr>))
            else (i, sh));
         st2 = acknowledge cfg (c_acks row) (install_prepared L cfg now prepared (i1, sh1));
         (i3, sh3) = (if wrote then notify_durable L cfg st2 else st2) in
     (i3, ask_compaction cfg (compaction_due i3 (compaction_thresholds cfg)) sh3)))"

section \<open>Compaction\<close>

definition note_compacted ::
  "('v, 'd) loro \<Rightarrow> seq_config \<Rightarrow> byte list \<Rightarrow> u64 \<Rightarrow> u64 \<Rightarrow> int \<Rightarrow> ('v, 'd) seq_state \<Rightarrow> ('v, 'd) seq_state" where
  "note_compacted L cfg vector base rows remaining = (\<lambda>(i, sh).
    (let old = saturating_add (base_bytes i) (row_bytes i);
         new = saturating_add base rows in
     (i\<lparr>base_vector := (case decode_vector L vector of Inr v \<Rightarrow> v | Inl _ \<Rightarrow> base_vector i),
        has_base := True, base_bytes := base, row_bytes := rows, uncompacted_count := remaining\<rparr>,
      sh\<lparr>sh_ledger := charge_ledger (sh_ledger sh) (owner_id cfg) (sint new - sint old)\<rparr>)))"

definition reset_after_trim :: "ustr \<Rightarrow> ('v, 'd) seq_state \<Rightarrow> ('v, 'd) seq_state" where
  "reset_after_trim why st = close_all (why @ lit ''; reconnect'') (drop_cache st)"

end
