(* ===== verification/Sequencer_Core.thy ===== *)
theory Sequencer_Core
  imports Sequencer
begin

text \<open>
  What the operations of the sequencer leave alone.  \<open>core\<close> masks the fields that say nothing of
  the log (the subscribers, the decoded document, the clocks), so that one equation per operation
  says what it does to the rest; the theorems here are those that follow from it alone: a refused
  update changes nothing, readers are never sent source, and the buffer's books.
\<close>

section \<open>The core of the state\<close>

definition core :: "('v, 'd) inner \<Rightarrow> ('v, 'd) inner" where
  "core i = i\<lparr>oldest_arrival := None, last_arrival := None, subscribers := [], cache := None, projection := None,
    unreadable := None, last_source_changed := None, source_changed_owed := False, last_compaction_ask := None\<rparr>"

lemma core_fields:
  assumes "core i = core j"
  shows "next_sequence i = next_sequence j" "log_vector i = log_vector j" "head_vector i = head_vector j"
    "buffer i = buffer j" "buffer_bytes i = buffer_bytes j" "charged_bytes i = charged_bytes j" "fenced i = fenced j"
    "base_bytes i = base_bytes j" "row_bytes i = row_bytes j" "uncompacted_count i = uncompacted_count j"
    "base_vector i = base_vector j" "has_base i = has_base j"
  using assms by (cases i; cases j; simp add: core_def)+

lemma core_simps [simp]:
  "core (i\<lparr>oldest_arrival := a\<rparr>) = core i" "core (i\<lparr>last_arrival := a\<rparr>) = core i"
  "core (i\<lparr>subscribers := s\<rparr>) = core i" "core (i\<lparr>cache := c\<rparr>) = core i" "core (i\<lparr>projection := p\<rparr>) = core i"
  "core (i\<lparr>unreadable := u\<rparr>) = core i" "core (i\<lparr>last_source_changed := l\<rparr>) = core i"
  "core (i\<lparr>source_changed_owed := o'\<rparr>) = core i" "core (i\<lparr>last_compaction_ask := q\<rparr>) = core i"
  by (simp_all add: core_def)

text \<open>Updating a field of the core commutes with masking.\<close>

lemma core_push:
  "core (i\<lparr>head_vector := v\<rparr>) = (core i)\<lparr>head_vector := v\<rparr>" "core (i\<lparr>buffer := b\<rparr>) = (core i)\<lparr>buffer := b\<rparr>"
  "core (i\<lparr>buffer_bytes := n\<rparr>) = (core i)\<lparr>buffer_bytes := n\<rparr>" "core (i\<lparr>charged_bytes := n\<rparr>) = (core i)\<lparr>charged_bytes := n\<rparr>"
  "core (i\<lparr>fenced := f\<rparr>) = (core i)\<lparr>fenced := f\<rparr>"
  by (simp_all add: core_def)

lemma core_idem [simp]: "core (core i) = core i"
  by (simp add: core_def)

section \<open>Fan-out and the decoded document\<close>

text \<open>What stays of the shared state when frames are sent.\<close>

definition same_books :: "shared \<Rightarrow> shared \<Rightarrow> bool" where
  "same_books a b \<longleftrightarrow> sh_pending a = sh_pending b \<and> sh_budget a = sh_budget b \<and> sh_ledger a = sh_ledger b \<and> sh_asks a = sh_asks b"

lemma same_books_refl [simp]: "same_books a a"
  by (simp add: same_books_def)

lemma drop_slow_state:
  "\<exists>subs. fst (drop_slow ids st) = (fst st)\<lparr>subscribers := subs\<rparr>" "same_books (snd (drop_slow ids st)) (snd st)"
proof -
  have "(\<exists>subs. fst (drop_slow ids st) = (fst st)\<lparr>subscribers := subs\<rparr>) \<and> same_books (snd (drop_slow ids st)) (snd st)"
  proof (induction ids st rule: drop_slow.induct)
    case (1 st)
    have "fst st = (fst st)\<lparr>subscribers := subscribers (fst st)\<rparr>" by simp
    then show ?case by (metis drop_slow.simps(1) same_books_refl)
  next
    case (2 sid ids i sh)
    then show ?case by (auto simp: same_books_def split: option.splits)
  qed
  then show "\<exists>subs. fst (drop_slow ids st) = (fst st)\<lparr>subscribers := subs\<rparr>" "same_books (snd (drop_slow ids st)) (snd st)"
    by blast+
qed

lemma fan_out_state:
  "\<exists>subs. fst (fan_out cfg d f st) = (fst st)\<lparr>subscribers := subs\<rparr>" "same_books (snd (fan_out cfg d f st)) (snd st)"
proof -
  obtain i sh where st: "st = (i, sh)" by fastforce
  obtain subs closed m where s: "fan_send (wire_len cfg) d f (subscribers i) (sh_meter sh) = (subs, closed, m)"
    by (metis prod_cases3)
  show "\<exists>subs. fst (fan_out cfg d f st) = (fst st)\<lparr>subscribers := subs\<rparr>"
    using drop_slow_state(1)[of closed "(i\<lparr>subscribers := subs\<rparr>, sh\<lparr>sh_meter := m\<rparr>)"]
    by (auto simp: fan_out_def st s)
  show "same_books (snd (fan_out cfg d f st)) (snd st)"
    using drop_slow_state(2)[of closed "(i\<lparr>subscribers := subs\<rparr>, sh\<lparr>sh_meter := m\<rparr>)"]
    by (simp add: fan_out_def st s same_books_def)
qed

lemma fan_out_core [simp]: "core (fst (fan_out cfg d f st)) = core (fst st)"
  using fan_out_state(1)[of cfg d f st] by auto

lemma relay_core [simp]: "core (fst (relay cfg skip b st)) = core (fst st)"
  by (simp add: relay_def)

lemma acknowledge_core [simp]:
  "core (fst (acknowledge cfg acks st)) = core (fst st)" "core (fst (acknowledge_peer cfg p n st)) = core (fst st)"
  by (simp_all add: acknowledge_def acknowledge_peer_def)

lemma notify_durable_core [simp]: "core (fst (notify_durable L cfg st)) = core (fst st)"
  by (simp add: notify_durable_def split_def)

lemma emit_source_changed_core [simp]: "core (fst (emit_source_changed L cfg now st)) = core (fst st)"
  by (simp add: emit_source_changed_def split_def Let_def)

lemma note_source_changed_core [simp]: "core (fst (note_source_changed L cfg now st)) = core (fst st)"
  by (simp add: note_source_changed_def split_def)

lemma drop_cached_core [simp]: "core (fst (drop_cached st)) = core (fst st)"
  by (auto simp: drop_cached_def split_def split: option.splits)

lemma grow_cache_core [simp]: "core (fst (grow_cache b st)) = core (fst st)"
  by (auto simp: grow_cache_def split_def Let_def split: option.splits prod.splits sum.splits)

lemma import_cached_core [simp]: "core (fst (import_cached L b st)) = core (fst st)"
  by (auto simp: import_cached_def split_def split: option.splits sum.splits)

lemma close_all_core [simp]: "core (fst (close_all why st)) = core (fst st)"
  by (simp add: close_all_def split_def)

lemma fence_core: "core (fst (fence why st)) = (core (fst st))\<lparr>fenced := Some why\<rparr>"
  by (simp add: fence_def split_def core_push)

lemma core_updateI: "core i = core j \<Longrightarrow> (core i)\<lparr>buffer := buffer i @ x\<rparr> = (core j)\<lparr>buffer := buffer j @ x\<rparr>"
  using core_fields(4)[of i j] by simp

section \<open>Accepting a batch\<close>

definition new_batch :: "ustr \<Rightarrow> u64 \<Rightarrow> byte list \<Rightarrow> 'v header \<Rightarrow> reservation \<Rightarrow> int \<Rightarrow> byte list \<Rightarrow> byte list \<Rightarrow> 'v pending_batch" where
  "new_batch peer seq bytes h charge durable key digest =
    \<lparr>p_peer_key = peer, p_client_seq = seq, p_bytes = bytes, p_end = partial_end_vv h,
     p_charge = charge, p_durable_charge = durable, p_durable_key = key, p_durable_digest = digest\<rparr>"

lemma accept_batch_core:
  "core (fst (accept_batch L cfg now socket peer seq bytes h charge durable key digest (i, sh))) =
    core (i\<lparr>head_vector := vv_merge L (head_vector i) (partial_end_vv h),
      buffer := buffer i @ [new_batch peer seq bytes h charge durable key digest],
      buffer_bytes := usize_add (buffer_bytes i) (length bytes),
      charged_bytes := usize_add (charged_bytes i) (unat (res_bytes charge))\<rparr>)"
proof -
  obtain i0 sh0 where g: "grow_cache bytes (i, sh) = (i0, sh0)" by fastforce
  have c0: "core i0 = core i" using grow_cache_core[of bytes "(i, sh)"] g by simp
  define i1 where "i1 = i0\<lparr>head_vector := vv_merge L (head_vector i0) (partial_end_vv h),
    oldest_arrival := (case oldest_arrival i0 of None \<Rightarrow> Some now | Some at \<Rightarrow> Some at), last_arrival := Some now,
    buffer_bytes := usize_add (buffer_bytes i0) (length bytes),
    charged_bytes := usize_add (charged_bytes i0) (unat (res_bytes charge))\<rparr>"
  obtain i2 sh2 where im: "import_cached L bytes (i1, sh0) = (i2, sh2)" by fastforce
  have c2: "core i2 = core i1" using import_cached_core[of L bytes "(i1, sh0)"] im by simp
  define i2' where "i2' = (if cache i1 \<noteq> None then i2\<lparr>projection := None\<rparr> else i2)"
  obtain i3 sh3 where re: "relay cfg (Some socket) bytes (i2', sh2) = (i3, sh3)" by fastforce
  have "core i3 = core i2'" using relay_core[of cfg "Some socket" bytes "(i2', sh2)"] unfolding re by simp
  then have c3: "core i3 = core i1" using c2 by (simp add: i2'_def)
  have "accept_batch L cfg now socket peer seq bytes h charge durable key digest (i, sh) =
      note_source_changed L cfg now (i3\<lparr>buffer := buffer i3 @ [new_batch peer seq bytes h charge durable key digest]\<rparr>, sh3)"
    unfolding accept_batch_def g prod.case Let_def i1_def[symmetric] im i2'_def[symmetric] re new_batch_def ..
  then have "core (fst (accept_batch L cfg now socket peer seq bytes h charge durable key digest (i, sh))) =
      core (i3\<lparr>buffer := buffer i3 @ [new_batch peer seq bytes h charge durable key digest]\<rparr>)" by simp
  also have "\<dots> = (core i1)\<lparr>buffer := buffer i1 @ [new_batch peer seq bytes h charge durable key digest]\<rparr>"
    unfolding core_push using core_updateI[OF c3] .
  also have "\<dots> = core (i\<lparr>head_vector := vv_merge L (head_vector i) (partial_end_vv h),
      buffer := buffer i @ [new_batch peer seq bytes h charge durable key digest],
      buffer_bytes := usize_add (buffer_bytes i) (length bytes),
      charged_bytes := usize_add (charged_bytes i) (unat (res_bytes charge))\<rparr>)"
    unfolding i1_def using core_fields(3-6)[OF c0] c0 by (simp add: core_push)
  finally show ?thesis .
qed

text \<open>What an update that reached \<open>accept_batch\<close> has passed.\<close>

definition passed_checks ::
  "('v, 'd) loro \<Rightarrow> seq_config \<Rightarrow> ustr \<Rightarrow> byte list \<Rightarrow> ('v, 'd) inner \<Rightarrow> 'v header \<Rightarrow> bool" where
  "passed_checks L cfg peer bytes i h \<longleftrightarrow>
    bytes \<noteq> [] \<and> length bytes \<le> log_quota_bytes cfg \<and> str_len8 peer \<le> MAX_PEER_KEY \<and> blob_meta L bytes = Inr h \<and>
    fenced i = None \<and> change_num h \<noteq> 0 \<and>
    (buffer i = [] \<or> usize_add (charged_bytes i) (usize_add (length bytes) (overhead peer)) \<le> BUFFER_CEILING_BYTES) \<and>
    (gap_check cfg \<longrightarrow> covers L (head_vector i) (partial_start_vv h))"

lemma give_back_taken: "try_take p n = Some q \<Longrightarrow> give_back q n = p"
  by (auto simp: try_take_def give_back_def checked_add_def split: option.splits if_splits)

lemma retain_released: "try_retain b n = (b', Inr r) \<Longrightarrow> drop_reservation b' r = b"
  by (auto simp: try_retain_def drop_reservation_def give_back_taken split: option.splits)

lemma retain_charge: "try_retain b n = (b', Inr r) \<Longrightarrow> r = \<lparr>res_kind = Retained, res_bytes = n\<rparr>"
  by (auto simp: try_retain_def split: option.splits)

text \<open>The three ways ingest ends.\<close>

definition ingest_accepts where
  "ingest_accepts L cfg env socket peer seq bytes i sh st' res \<longleftrightarrow>
    (\<exists>h b r. res = Accepted \<and> passed_checks L cfg peer bytes i h \<and>
      try_retain (sh_pending sh) (word_of_nat (usize_add (length bytes) (overhead peer))) = (b, Inr r) \<and>
      st' = accept_batch L cfg (in_now env) socket peer seq bytes h r
        (int (unat (saturating_add (res_bytes r) (word_of_nat ROW_HEADER_BYTES))))
        (durable_reservation_key cfg peer seq (sha256 cfg bytes)) (sha256 cfg bytes) (i, sh\<lparr>sh_pending := b\<rparr>))"

definition ingest_refuses where
  "ingest_refuses L i sh i' sh' res \<longleftrightarrow>
    res \<noteq> Accepted \<and> i' = i \<and> sh' = sh\<lparr>sh_pending := sh_pending sh'\<rparr> \<and>
    retained (sh_pending sh') = retained (sh_pending sh) \<and> scratch (sh_pending sh') = scratch (sh_pending sh) \<and>
    (\<forall>v. res = Gap v \<longrightarrow> v = vv_encode L (head_vector i)) \<and>
    (\<forall>r. res = Retryable r \<longrightarrow> r_vector r = vv_encode L (head_vector i))"

lemma retryable_vector [simp]:
  "retryable L i why reason p \<noteq> Accepted" "retryable L i why reason p \<noteq> Gap v"
  "retryable L i why reason p = Retryable r \<Longrightarrow> r_vector r = vv_encode L (head_vector i)"
  by (auto simp: retryable_def)

lemma refusesI:
  "res \<noteq> Accepted \<Longrightarrow> (\<And>v. res = Gap v \<Longrightarrow> v = vv_encode L (head_vector i)) \<Longrightarrow>
    (\<And>r. res = Retryable r \<Longrightarrow> r_vector r = vv_encode L (head_vector i)) \<Longrightarrow> ingest_refuses L i sh i sh res"
  by (auto simp: ingest_refuses_def)

lemma retain_refused: "try_retain b n = (b', Inl e) \<Longrightarrow> retained b' = retained b \<and> scratch b' = scratch b"
  by (auto simp: try_retain_def split: option.splits)

lemma ingest_charged_cases:
  assumes "ingest_charged L cfg env socket peer seq bytes h key digest (i, sh) = ((i', sh'), res)"
  shows "ingest_refuses L i sh i' sh' res \<or>
    (\<exists>b r. res = Accepted \<and> (gap_check cfg \<longrightarrow> covers L (head_vector i) (partial_start_vv h)) \<and>
      (buffer i = [] \<or> usize_add (charged_bytes i) (usize_add (length bytes) (overhead peer)) \<le> BUFFER_CEILING_BYTES) \<and>
      try_retain (sh_pending sh) (word_of_nat (usize_add (length bytes) (overhead peer))) = (b, Inr r) \<and>
      (i', sh') = accept_batch L cfg (in_now env) socket peer seq bytes h r
        (int (unat (saturating_add (res_bytes r) (word_of_nat ROW_HEADER_BYTES)))) key digest (i, sh\<lparr>sh_pending := b\<rparr>))"
proof (cases "try_retain (sh_pending sh) (word_of_nat (usize_add (length bytes) (overhead peer)))")
  case (Pair b x)
  show ?thesis
  proof (cases x)
    case (Inl e)
    with assms Pair retain_refused[OF Pair[unfolded Inl]] show ?thesis
      by (auto simp: ingest_charged_def Let_def ingest_refuses_def split: option.splits if_splits)
  next
    case (Inr r)
    with assms Pair retain_released[OF Pair[unfolded Inr]] show ?thesis
      by (auto simp: ingest_charged_def Let_def ingest_refuses_def split: option.splits if_splits)
  qed
qed

lemma ingest_cases:
  assumes "ingest L cfg env socket peer seq bytes (i, sh) = ((i', sh'), res)"
  shows "ingest_refuses L i sh i' sh' res \<or>
    (res = Accepted \<and> (i', sh') = (i, sh)) \<or>
    (res = Accepted \<and> (i', sh') = acknowledge_peer cfg peer seq (i, sh)) \<or>
    ingest_accepts L cfg env socket peer seq bytes i sh (i', sh') res"
proof (cases "bytes = [] \<or> length bytes > log_quota_bytes cfg \<or> str_len8 peer > MAX_PEER_KEY \<or> (\<exists>e. blob_meta L bytes = Inl e)")
  case True
  with assms show ?thesis
    by (auto simp: ingest_def max_update_bytes_def ingest_refuses_def split: if_splits sum.splits)
next
  case False
  then obtain h where h: "blob_meta L bytes = Inr h" by (cases "blob_meta L bytes") auto
  let ?digest = "sha256 cfg bytes"
  let ?key = "durable_reservation_key cfg peer seq ?digest"
  from assms False h consider
      (refused) "ingest_refuses L i sh i' sh' res" | (same) "res = Accepted" "(i', sh') = (i, sh)"
    | (acked) "res = Accepted" "(i', sh') = acknowledge_peer cfg peer seq (i, sh)"
    | (charged) "fenced i = None" "change_num h \<noteq> 0"
        "ingest_charged L cfg env socket peer seq bytes h ?key ?digest (i, sh) = ((i', sh'), res)"
    unfolding ingest_def Let_def max_update_bytes_def
    by (auto simp: ingest_refuses_def split: if_splits)
  then show ?thesis
  proof cases
    case charged
    from ingest_charged_cases[OF charged(3)] charged(1,2) False h show ?thesis
      unfolding ingest_accepts_def passed_checks_def by auto
  qed auto
qed

section \<open>Readers are not sent source\<close>

definition source_frame :: "wire outgoing \<Rightarrow> bool" where
  "source_frame out = (case out of
      Text w \<Rightarrow> (case w of Doc_Update _ \<Rightarrow> True | Doc_Durable _ \<Rightarrow> True | _ \<Rightarrow> False)
    | SharedText w \<Rightarrow> (case w of Doc_Update _ \<Rightarrow> True | Doc_Durable _ \<Rightarrow> True | _ \<Rightarrow> False)
    | Close _ \<Rightarrow> False)"

definition sub_blind :: "subscriber \<Rightarrow> bool" where
  "sub_blind s \<longleftrightarrow> (sub_role s = Reader \<longrightarrow> (\<forall>q \<in> set (chan (tx s)). \<not> source_frame (q_outgoing q)))"

definition blind :: "('v, 'd) seq_state \<Rightarrow> bool" where
  "blind st \<longleftrightarrow> (\<forall>x \<in> set (subscribers (fst st)). sub_blind (snd x)) \<and> (\<forall>x \<in> set (sh_closing (snd st)). sub_blind (snd x))"

lemma sub_blind_close: "sub_blind s \<Longrightarrow> sub_blind (s\<lparr>tx := fst (force_close (tx s) why)\<rparr>)"
  by (auto simp: sub_blind_def force_close_def chan_send_Some source_frame_def split: option.splits)

lemma sub_blind_send:
  assumes "sub_blind s" "try_send_kind len (tx s) out d m = ((tx', m'), ok)" "sub_role s = Reader \<longrightarrow> \<not> source_frame out"
  shows "sub_blind (s\<lparr>tx := tx'\<rparr>)"
  using assms(1,3) try_send_chan[OF assms(2)] by (auto simp: sub_blind_def)

lemma fan_send_blind:
  assumes "\<And>sid s out. frame sid s = Some out \<Longrightarrow> sub_role s = Reader \<Longrightarrow> \<not> source_frame out"
    and "\<forall>x \<in> set subs. sub_blind (snd x)" "fan_send len d frame subs m = (subs', closed, m')"
  shows "\<forall>x \<in> set subs'. sub_blind (snd x)"
  using assms(2,3)
proof (induction subs arbitrary: m subs' closed m')
  case (Cons x subs)
  obtain sid s where x: "x = (sid, s)" by fastforce
  show ?case
  proof (cases "frame sid s")
    case None
    obtain r c k where "fan_send len d frame subs m = (r, c, k)" by (metis prod_cases3)
    with Cons None x show ?thesis by fastforce
  next
    case (Some out)
    obtain tx' m1 ok where t: "try_send_kind len (tx s) out d m = ((tx', m1), ok)" by (metis surj_pair)
    obtain r c k where f: "fan_send len d frame subs m1 = (r, c, k)" by (metis prod_cases3)
    have "sub_blind (s\<lparr>tx := tx'\<rparr>)" using Cons.prems(1) x assms(1)[OF Some] t by (auto intro: sub_blind_send)
    with Cons.IH[OF _ f] Cons.prems x Some t f show ?thesis
      by (cases d) (auto simp: try_send_def try_send_durable_def)
  qed
qed simp

lemma drop_slow_blind: "blind st \<Longrightarrow> blind (drop_slow ids st)"
proof (induction ids st rule: drop_slow.induct)
  case (2 sid ids i sh)
  show ?case
  proof (cases "map_of (subscribers i) sid")
    case None
    with 2 show ?thesis by simp
  next
    case (Some s)
    have "sub_blind (snd (sid, s))" using 2(3) map_of_SomeD[OF Some] unfolding blind_def by fastforce
    then have "blind (i\<lparr>subscribers := AList.delete sid (subscribers i)\<rparr>,
        sh\<lparr>sh_closing := sh_closing sh @ [(sid, s\<lparr>tx := fst (force_close (tx s) (lit ''subscriber too slow; reconnect''))\<rparr>)]\<rparr>)"
      using 2(3) by (auto simp: blind_def sub_blind_close AList.delete_eq)
    with 2(2)[OF Some] Some show ?thesis by simp
  qed
qed simp

lemma fan_out_blind:
  assumes "blind st" "\<And>sid s out. frame sid s = Some out \<Longrightarrow> sub_role s = Reader \<Longrightarrow> \<not> source_frame out"
  shows "blind (fan_out cfg d frame st)"
proof -
  obtain i sh where st: "st = (i, sh)" by fastforce
  obtain subs closed m where f: "fan_send (wire_len cfg) d frame (subscribers i) (sh_meter sh) = (subs, closed, m)"
    by (metis prod_cases3)
  have "\<forall>x \<in> set subs. sub_blind (snd x)"
    by (rule fan_send_blind[OF assms(2) _ f]) (use assms(1) st in \<open>auto simp: blind_def\<close>)
  then have "blind (i\<lparr>subscribers := subs\<rparr>, sh\<lparr>sh_meter := m\<rparr>)"
    using assms(1) st by (simp add: blind_def)
  then show ?thesis by (simp add: fan_out_def st f drop_slow_blind)
qed

lemma relay_blind: "blind st \<Longrightarrow> blind (relay cfg skip b st)"
  by (auto simp: relay_def intro!: fan_out_blind split: if_splits)

lemma acknowledge_blind: "blind st \<Longrightarrow> blind (acknowledge cfg acks st)" "blind st \<Longrightarrow> blind (acknowledge_peer cfg p n st)"
  by (auto simp: acknowledge_def acknowledge_peer_def source_frame_def intro!: fan_out_blind split: if_splits)

lemma notify_blind: "blind st \<Longrightarrow> blind (notify_durable L cfg st)"
  by (cases st) (auto simp: notify_durable_def intro!: fan_out_blind split: if_splits)

lemma blind_irrelevant:
  "subscribers i = subscribers i' \<Longrightarrow> sh_closing sh = sh_closing sh' \<Longrightarrow> blind (i, sh) = blind (i', sh')"
  by (simp add: blind_def)

lemma emit_blind: "blind st \<Longrightarrow> blind (emit_source_changed L cfg now st)"
  unfolding emit_source_changed_def Let_def split_def
  by (rule fan_out_blind) (auto simp: blind_def source_frame_def split: if_splits)

lemma note_blind: "blind st \<Longrightarrow> blind (note_source_changed L cfg now st)"
  using emit_blind[of st L cfg now] by (cases st) (simp add: note_source_changed_def, simp add: blind_def)

text \<open>The operations that send nothing keep the subscribers and the closing transports.\<close>

definition same_subs :: "('v, 'd) seq_state \<Rightarrow> ('v, 'd) seq_state \<Rightarrow> bool" where
  "same_subs a b \<longleftrightarrow> subscribers (fst a) = subscribers (fst b) \<and> sh_closing (snd a) = sh_closing (snd b)"

lemma same_subs_blind: "same_subs a b \<Longrightarrow> blind b \<Longrightarrow> blind a"
  by (simp add: same_subs_def blind_def)

lemma same_subs_trans: "same_subs a b \<Longrightarrow> same_subs b c \<Longrightarrow> same_subs a c"
  by (simp add: same_subs_def)

lemma drop_cached_subs: "same_subs (drop_cached st) st"
  by (auto simp: same_subs_def drop_cached_def split_def split: option.splits)

lemma grow_cache_subs: "same_subs (grow_cache b st) st"
proof -
  obtain i sh where st: "st = (i, sh)" by fastforce
  have d: "same_subs (drop_cached (i, sh\<lparr>sh_budget := c\<rparr>)) (i, sh)" for c
    using drop_cached_subs[of "(i, sh\<lparr>sh_budget := c\<rparr>)"] by (simp add: same_subs_def)
  show ?thesis using d unfolding st grow_cache_def
    by (auto simp: same_subs_def Let_def split_def split: option.splits prod.splits sum.splits)
qed

lemma import_cached_subs: "same_subs (import_cached L b st) st"
  using drop_cached_subs[of st] by (auto simp: same_subs_def import_cached_def split_def split: option.splits sum.splits)

lemma retire_subs: "same_subs (retire n w v b now st) st"
  by (simp add: same_subs_def retire_def split_def Let_def)

lemma close_all_blind: "blind st \<Longrightarrow> blind (close_all why st)"
  by (cases st) (auto simp: close_all_def blind_def sub_blind_close)

lemma accept_batch_blind:
  assumes "blind st"
  shows "blind (accept_batch L cfg now socket peer seq bytes h charge durable key digest st)"
proof -
  obtain i0 sh0 where g: "grow_cache bytes st = (i0, sh0)" by fastforce
  define i1 where "i1 = i0\<lparr>head_vector := vv_merge L (head_vector i0) (partial_end_vv h),
    oldest_arrival := (case oldest_arrival i0 of None \<Rightarrow> Some now | Some at \<Rightarrow> Some at), last_arrival := Some now,
    buffer_bytes := usize_add (buffer_bytes i0) (length bytes),
    charged_bytes := usize_add (charged_bytes i0) (unat (res_bytes charge))\<rparr>"
  obtain i2 sh2 where im: "import_cached L bytes (i1, sh0) = (i2, sh2)" by fastforce
  define i2' where "i2' = (if cache i1 \<noteq> None then i2\<lparr>projection := None\<rparr> else i2)"
  obtain i3 sh3 where re: "relay cfg (Some socket) bytes (i2', sh2) = (i3, sh3)" by fastforce
  have acc: "accept_batch L cfg now socket peer seq bytes h charge durable key digest st =
      note_source_changed L cfg now (i3\<lparr>buffer := buffer i3 @ [new_batch peer seq bytes h charge durable key digest]\<rparr>, sh3)"
    unfolding accept_batch_def g prod.case Let_def i1_def[symmetric] im i2'_def[symmetric] re new_batch_def ..
  have "blind (i1, sh0)" using assms grow_cache_subs[of bytes st] g by (auto simp: blind_def same_subs_def i1_def)
  then have "blind (i2', sh2)" using import_cached_subs[of L bytes "(i1, sh0)"] im
    by (auto simp: blind_def same_subs_def i2'_def)
  then have "blind (i3, sh3)" using relay_blind[of "(i2', sh2)" cfg "Some socket" bytes] re by simp
  then show ?thesis unfolding acc by (intro note_blind) (simp add: blind_def)
qed

lemma ingest_blind:
  assumes "blind st"
  shows "blind (fst (ingest L cfg env socket peer seq bytes st))"
proof -
  obtain i sh i' sh' res where st: "st = (i, sh)" and r: "ingest L cfg env socket peer seq bytes (i, sh) = ((i', sh'), res)"
    by (metis surj_pair)
  have b: "blind (i, sh\<lparr>sh_pending := x\<rparr>)" for x using assms st by (simp add: blind_def)
  from ingest_cases[OF r] show ?thesis unfolding st r fst_conv
  proof (elim disjE conjE)
    assume "ingest_refuses L i sh i' sh' res"
    then show "blind (i', sh')" using b[of "sh_pending sh'"] by (metis ingest_refuses_def)
  next
    assume "ingest_accepts L cfg env socket peer seq bytes i sh (i', sh') res"
    then show "blind (i', sh')" using accept_batch_blind[OF b] by (metis ingest_accepts_def)
  qed (use assms st acknowledge_blind in auto)
qed

lemma flush_written_blind: "blind st \<Longrightarrow> blind (flush_written L cfg snap w now st)"
proof -
  assume bl: "blind st"
  obtain i sh where st: "st = (i, sh)" by fastforce
  obtain i1 sh1 where re: "retire (s_take snap) w (s_vector snap) (length (s_encoded snap)) now (i, drop_scratch snap sh) = (i1, sh1)"
    by fastforce
  define sh2 where "sh2 = sh1\<lparr>sh_ledger := charge_ledger (sh_ledger sh1) (owner_id cfg) (int (length (s_encoded snap)))\<rparr>"
  have "blind (i1, sh2)"
    using retire_subs[of "s_take snap" w "s_vector snap" "length (s_encoded snap)" now "(i, drop_scratch snap sh)"] re bl st
    by (auto simp: same_subs_def blind_def sh2_def drop_scratch_def)
  then have n: "blind (notify_durable L cfg (acknowledge cfg (s_acks snap) (i1, sh2)))"
    by (intro notify_blind acknowledge_blind)
  obtain i3 sh3 where s3: "notify_durable L cfg (acknowledge cfg (s_acks snap) (i1, sh2)) = (i3, sh3)" by fastforce
  obtain i4 sh4 where s4: "(if source_changed_owed i3 then emit_source_changed L cfg now (i3, sh3) else (i3, sh3)) = (i4, sh4)"
    by fastforce
  have "blind (i4, sh4)" using n emit_blind[of "(i3, sh3)" L cfg now] s3 s4 by (auto split: if_splits)
  then show ?thesis
    unfolding st flush_written_def prod.case Let_def re sh2_def[symmetric] s3 s4
    by (simp add: blind_def ask_compaction_def)
qed

lemma flush_finish_blind: "blind st \<Longrightarrow> blind (fst (flush_finish L cfg snap answer sequence rows now st))"
proof -
  assume bl: "blind st"
  obtain i sh where st: "st = (i, sh)" by fastforce
  have d: "blind (i, drop_scratch snap sh)" "blind (i\<lparr>fenced := f\<rparr>, drop_scratch snap sh)" for f
    using bl st by (simp_all add: blind_def drop_scratch_def)
  show ?thesis using bl d unfolding st flush_finish_def
    by (auto simp: flush_written_blind fence_def close_all_blind split: sum.splits seq_error.splits)
qed

lemma install_prepared_blind: "blind st \<Longrightarrow> blind (install_prepared L cfg now prepared st)"
proof (cases prepared)
  case (Some p)
  assume bl: "blind st"
  obtain i sh where st: "st = (i, sh)" by fastforce
  obtain i1 sh1 where im: "import_cached L (pr_batch p) (i\<lparr>head_vector := vv_merge L (head_vector i) (pr_end p)\<rparr>, sh) = (i1, sh1)"
    by fastforce
  have "blind (i1\<lparr>projection := x\<rparr>, sh1)" for x
    using import_cached_subs[of L "pr_batch p" "(i\<lparr>head_vector := vv_merge L (head_vector i) (pr_end p)\<rparr>, sh)"] im bl st
    by (simp add: blind_def same_subs_def)
  then show ?thesis unfolding install_prepared_def Some st option.case prod.case im by (intro note_blind relay_blind)
qed (simp add: install_prepared_def)

lemma command_commit_blind: "blind st \<Longrightarrow> blind (command_commit L cfg now prepared w st)"
proof -
  assume bl: "blind st"
  obtain i sh where st: "st = (i, sh)" by fastforce
  define row where "row = command_assemble L cfg prepared i"
  obtain i1 sh1 where s1: "(if c_acks row \<noteq> [] then
      (case retire (c_take row) w (c_vector row) (length (c_encoded row)) now (i, sh) of (i', sh') \<Rightarrow>
        (i', sh'\<lparr>sh_ledger := charge_ledger (sh_ledger sh') (owner_id cfg) (int (length (c_encoded row)))\<rparr>))
      else (i, sh)) = (i1, sh1)" by fastforce
  have "blind (i1, sh1)"
    using retire_subs[of "c_take row" w "c_vector row" "length (c_encoded row)" now "(i, sh)"] s1 bl st
    by (auto simp: same_subs_def blind_def split: if_splits prod.splits)
  define st2 where "st2 = acknowledge cfg (c_acks row) (install_prepared L cfg now prepared (i1, sh1))"
  have "blind st2" unfolding st2_def by (intro acknowledge_blind install_prepared_blind) fact
  obtain i3 sh3 where s3: "(if c_acks row \<noteq> [] then notify_durable L cfg st2 else st2) = (i3, sh3)" by fastforce
  then have "blind (i3, sh3)" using \<open>blind st2\<close> notify_blind[of st2 L cfg] by (auto split: if_splits)
  then show ?thesis
    unfolding st command_commit_def prod.case Let_def row_def[symmetric] s1 st2_def[symmetric] s3
    by (simp add: blind_def ask_compaction_def)
qed

lemma in_update: "x \<in> set (AList.update k v al) \<Longrightarrow> x = (k, v) \<or> x \<in> set al"
  by (induction al) (auto split: if_splits)

lemma join_blind:
  assumes "blind st" "\<forall>q \<in> set (chan sender). \<not> source_frame (q_outgoing q)"
  shows "blind (fst (join L env socket role peer sender v st))"
proof -
  obtain i sh where st: "st = (i, sh)" by fastforce
  have new: "blind (i\<lparr>subscribers := AList.update socket \<lparr>tx = sender, sub_role = role, sub_peer = peer\<rparr> (subscribers i)\<rparr>, sh)"
    using assms st by (auto simp: blind_def sub_blind_def dest!: in_update)
  have base: "blind (j, sh) \<Longrightarrow> join_base env c n sh = (sh', r) \<Longrightarrow> blind (j, sh')" for j c n sh' r
    by (auto simp: join_base_def blind_def split: if_splits option.splits sum.splits prod.splits)
  show ?thesis using assms(1) new base[OF new] unfolding st join_def prod.case Let_def
    by (simp split: sum.splits option.splits prod.splits)
qed

text \<open>Everything that can happen to the sequencer's state, with any answers of its
  surroundings.\<close>

inductive seq_op :: "('v, 'd) loro \<Rightarrow> seq_config \<Rightarrow> ('v, 'd) seq_state \<Rightarrow> ('v, 'd) seq_state \<Rightarrow> bool" for L cfg where
  ingest: "seq_op L cfg st (fst (ingest L cfg env socket peer seq bytes st))"
| flush_begin: "seq_op L cfg (i, sh) (i, fst (flush_begin L cfg reason wakes i sh))"
| flush_finish: "seq_op L cfg st (fst (flush_finish L cfg snap answer sequence rows now st))"
| join: "chan sender = [] \<Longrightarrow> seq_op L cfg st (fst (join L env socket role peer sender v st))"
| unsubscribe: "seq_op L cfg (i, sh) (fst (unsubscribe socket i), sh)"
| command: "seq_op L cfg st (command_commit L cfg now prepared w st)"
| build: "fst (build L env st) = (i, sh) \<Longrightarrow> seq_op L cfg st (i\<lparr>cache := c\<rparr>, sh)"
| evict: "seq_op L cfg st (drop_cache st)"
| recheck: "seq_op L cfg st (recheck_compaction cfg now st)"
| compacted: "seq_op L cfg st (note_compacted L cfg v b r n st)"
| trimmed: "seq_op L cfg st (reset_after_trim why st)"
| fenced: "seq_op L cfg st (fence why st)"
| taken: "map_of (subscribers i) sid = Some s \<Longrightarrow> recv (tx s) = Some (t, item) \<Longrightarrow>
    seq_op L cfg (i, sh) (i\<lparr>subscribers := AList.update sid (s\<lparr>tx := t\<rparr>) (subscribers i)\<rparr>, sh)"

lemma give_scratch_closing [simp]: "sh_closing (give_scratch r sh) = sh_closing sh"
  by (simp add: give_scratch_def split: option.splits)

lemma flush_locked_closing: "sh_closing (fst (flush_locked L g i sh)) = sh_closing sh"
  by (auto simp: flush_locked_def Let_def split: sum.splits option.splits prod.splits)

lemma flush_begin_closing: "sh_closing (fst (flush_begin L cfg reason wakes i sh)) = sh_closing sh"
  by (auto simp: flush_begin_def flush_locked_closing split: option.splits prod.splits sum.splits)

lemma build_subs: "same_subs (fst (build L env st)) st"
  by (cases st) (auto simp: same_subs_def build_def build_import_def Let_def split: option.splits prod.splits sum.splits)

lemma drop_cache_subs: "same_subs (drop_cache st) st"
  using drop_cached_subs[of st] by (auto simp: same_subs_def drop_cache_def split_def)

lemma seq_op_blind: "seq_op L cfg a b \<Longrightarrow> blind a \<Longrightarrow> blind b"
proof (induction rule: seq_op.induct)
  case (flush_begin i sh reason wakes)
  then show ?case by (simp add: blind_def flush_begin_closing)
next
  case (unsubscribe i sh socket)
  then show ?case by (auto simp: blind_def unsubscribe_def Let_def AList.delete_eq)
next
  case (build env st i sh c)
  then show ?case using build_subs[of L env st] by (auto simp: blind_def same_subs_def)
next
  case (evict st)
  then show ?case using same_subs_blind[OF drop_cache_subs] by blast
next
  case (recheck st now)
  then show ?case by (auto simp: blind_def recheck_compaction_def split_def)
next
  case (compacted st v b r n)
  then show ?case by (auto simp: blind_def note_compacted_def split_def Let_def)
next
  case (trimmed st why)
  then show ?case unfolding reset_after_trim_def by (intro close_all_blind same_subs_blind[OF drop_cache_subs])
next
  case (fenced st why)
  then show ?case unfolding fence_def split_def by (intro close_all_blind) (simp add: blind_def)
next
  case (taken i sid s t item sh)
  have "sub_blind s" using taken(3) map_of_SomeD[OF taken(1)] by (auto simp: blind_def)
  then have "sub_blind (s\<lparr>tx := t\<rparr>)" using taken(2) by (auto simp: sub_blind_def recv_def split: list.splits)
  with taken(3) show ?case by (auto simp: blind_def dest!: in_update)
qed (simp_all add: ingest_blind flush_finish_blind join_blind command_commit_blind)

section \<open>A small deployment\<close>

definition sample_cfg :: seq_config where
  "sample_cfg = \<lparr>document_id = [7], owner_id = 0, log_quota_bytes = 8 * 1024 * 1024, per_owner = 1000000,
    storage_total = 1000000, deployment_peer_key = lit ''server'', gap_check = True, worker_wired = False,
    compaction_thresholds = (100, 100000), wire_len = (\<lambda>_. 40), sha256 = (\<lambda>bs. bs), new_v8 = (\<lambda>bs. bs)\<rparr>"

definition sample_shared :: shared where
  "sample_shared = \<lparr>sh_pending = new_pending 1000 100000, sh_budget = new_budget 100000 6, sh_ledger = new_ledger,
    sh_meter = new_sockets, sh_closing = [], sh_asks = 0\<rparr>"

definition sample_inner :: "(byte fset, byte fset) inner" where
  "sample_inner = from_parts 1 {||} 0 0 0 {||} False"

definition sample_env :: ingest_env where
  "sample_env = \<lparr>in_now = 5, in_rate = Some True, in_reserved = True\<rparr>"

definition sample_reader :: subscriber where
  "sample_reader = \<lparr>tx = channel 4 1000 None None, sub_role = Reader, sub_peer = lit ''1''\<rparr>"

definition sample_join :: join_env where
  "sample_join = \<lparr>jn_coverage = Inr [], jn_rows = (\<lambda>_. Inr []), jn_base = (\<lambda>_. Inl []), jn_evict = None, jn_wakes = []\<rparr>"

lemma sample_join_state:
  "fst (join op_loro sample_join 1 Reader (lit ''1'') (channel 4 1000 None None) None (sample_inner, sample_shared)) =
    (sample_inner\<lparr>subscribers := [(1, sample_reader)]\<rparr>, sample_shared)"
  by (simp add: join_def sample_join_def sample_inner_def from_parts_def writable_def base_covered_def join_batches_def
      join_base_def sample_reader_def Let_def)

definition sample_accepted :: "(byte fset, byte fset) seq_state" where
  "sample_accepted = fst (ingest op_loro sample_cfg sample_env 2 (lit ''2'') 1 [0, 5]
    (sample_inner\<lparr>subscribers := [(1, sample_reader)]\<rparr>, sample_shared))"

lemma sample_accepted_facts:
  "buffer (fst sample_accepted) = [new_batch (lit ''2'') 1 [0, 5] \<lparr>change_num = 1, partial_start_vv = {||}, partial_end_vv = {|5|}\<rparr>
      \<lparr>res_kind = Retained, res_bytes = 17\<rparr> 18 (durable_reservation_key sample_cfg (lit ''2'') 1 [0, 5]) [0, 5]] \<and>
   next_sequence (fst sample_accepted) = 1 \<and> log_vector (fst sample_accepted) = {||} \<and> head_vector (fst sample_accepted) = {|5|} \<and>
   fenced (fst sample_accepted) = None \<and> has_base (fst sample_accepted) = False \<and>
   charged_bytes (fst sample_accepted) = 17 \<and> scratch (sh_pending (snd sample_accepted)) = new_pool 100000 \<and> sh_closing (snd sample_accepted) = [] \<and>
   map (\<lambda>(sid, s). (sid, sub_role s, map q_outgoing (chan (tx s)))) (subscribers (fst sample_accepted)) =
     [(1, Reader, [SharedText (Source_Changed None)])]"
  unfolding sample_accepted_def
  apply (simp add: ingest_def sample_cfg_def max_update_bytes_def MAX_PEER_KEY_def sample_inner_def from_parts_def len_utf8_def)
  apply (simp add: op_blob_def Let_def log_bytes_def saturating_add_def sample_env_def)
  apply (simp add: ingest_charged_def sample_shared_def would_exceed_def usize_add_def overhead_def owner_bytes_def
      new_ledger_def Let_def BATCH_HEADER_BYTES_def len_utf8_def usize_max_def saturating_add_i64_def i64_min_def i64_max_def)
  apply (simp add: try_retain_def new_pending_def new_pool_def try_take_def checked_add_def)
  apply (simp add: accept_batch_def grow_cache_def import_cached_def relay_def fan_out_def sample_reader_def
      note_source_changed_def emit_source_changed_def Let_def)
  apply (simp add: try_send_def try_send_kind_def channel_def queue_reserve_def outgoing_bytes_def chan_send_def
      usize_add_def usize_max_def)
  by (simp add: new_batch_def ROW_HEADER_BYTES_def saturating_add_def)

lemma sample_seq_run:
  "(seq_op op_loro sample_cfg)\<^sup>*\<^sup>* (sample_inner, sample_shared) (fst sample_accepted, snd sample_accepted)"
proof -
  have "seq_op op_loro sample_cfg (sample_inner, sample_shared) (sample_inner\<lparr>subscribers := [(1, sample_reader)]\<rparr>, sample_shared)"
    using seq_op.join[of "channel 4 1000 None None" op_loro sample_cfg "(sample_inner, sample_shared)" sample_join 1 Reader "lit ''1''" None]
    unfolding sample_join_state by (simp add: channel_def)
  moreover have "seq_op op_loro sample_cfg (sample_inner\<lparr>subscribers := [(1, sample_reader)]\<rparr>, sample_shared)
      (fst sample_accepted, snd sample_accepted)"
    unfolding prod.collapse sample_accepted_def by (rule seq_op.ingest)
  ultimately show ?thesis by (meson r_into_rtranclp rtranclp_trans)
qed

section \<open>Properties\<close>

text \<open>C15: blind review holds at the sequencer: whatever is typed, flushed, commanded, joined,
  compacted or closed, the transport of a subscriber that joined as a reader never holds a frame
  with source or a version vector of it.\<close>

theorem readers_see_no_source:
  assumes "(seq_op L cfg)\<^sup>*\<^sup>* (from_parts n v b r k bv has, sh) (i, sh')" "sh_closing sh = []"
    and "(sid, s) \<in> set (subscribers i) \<or> (sid, s) \<in> set (sh_closing sh')" "sub_role s = Reader"
    and "q \<in> set (chan (tx s))"
  shows "\<not> source_frame (q_outgoing q)"
proof -
  have "blind (from_parts n v b r k bv has, sh)" using assms(2) by (simp add: blind_def from_parts_def)
  with assms(1) have "blind (i, sh')" by (induction rule: rtranclp_induct) (auto dest: seq_op_blind)
  with assms(3-5) show ?thesis by (auto simp: blind_def sub_blind_def)
qed

theorem readers_see_no_source_witness:
  "sub_role (snd (hd (subscribers (fst sample_accepted)))) = Reader \<and>
   \<not> source_frame (q_outgoing (hd (chan (tx (snd (hd (subscribers (fst sample_accepted))))))))"
proof -
  have run: "(seq_op op_loro sample_cfg)\<^sup>*\<^sup>* (from_parts 1 {||} 0 0 0 {||} False, sample_shared)
      (fst sample_accepted, snd sample_accepted)"
    using sample_seq_run by (simp add: sample_inner_def)
  obtain s q where s: "subscribers (fst sample_accepted) = [(1, s)]" "sub_role s = Reader" "chan (tx s) = [q]"
    using sample_accepted_facts by auto
  have "\<not> source_frame (q_outgoing q)"
    by (rule readers_see_no_source[OF run]) (use s in \<open>auto simp: sample_shared_def\<close>)
  with s show ?thesis by simp
qed

text \<open>C16: an update that is not accepted changes nothing of the document and holds no charge:
  the state, the budgets and the ledger are what they were, and a gap or a retryable refusal
  reports the head vector as it stands, from which an export repeats exactly the refused work.\<close>

theorem refused_update_changes_nothing:
  assumes "ingest L cfg env socket peer seq bytes (i, sh) = ((i', sh'), res)" "res \<noteq> Accepted"
  shows "i' = i \<and> sh' = sh\<lparr>sh_pending := sh_pending sh'\<rparr> \<and>
    retained (sh_pending sh') = retained (sh_pending sh) \<and> scratch (sh_pending sh') = scratch (sh_pending sh) \<and>
    (\<forall>v. res = Gap v \<longrightarrow> v = vv_encode L (head_vector i)) \<and>
    (\<forall>r. res = Retryable r \<longrightarrow> r_vector r = vv_encode L (head_vector i))"
  using ingest_cases[OF assms(1)] assms(2) by (auto simp: ingest_refuses_def ingest_accepts_def)

theorem refused_update_changes_nothing_witness:
  "ingest op_loro sample_cfg sample_env 2 (lit ''2'') 1 [] (sample_inner, sample_shared) =
     ((sample_inner, sample_shared), Invalid (lit ''an update with no bytes'')) \<and>
   retained (sh_pending sample_shared) = retained (sh_pending sample_shared)"
proof -
  have r: "ingest op_loro sample_cfg sample_env 2 (lit ''2'') 1 [] (sample_inner, sample_shared) =
     ((sample_inner, sample_shared), Invalid (lit ''an update with no bytes''))" by (simp add: ingest_def)
  from refused_update_changes_nothing[OF r] r show ?thesis by simp
qed

end
