(* ===== verification/Sequencer_Log.thy ===== *)
theory Sequencer_Log
  imports Sequencer_Core
begin

text \<open>
  The sequencer and the durable log together.  A system is the sequencer's state, the database,
  the flush in flight, and every transaction ever sent: one of those may still commit after its
  answer was lost, but only against the sequence it expects.  Steps of other writers append rows
  of their own.  The invariant says that the sequencer's log vector is the vector of a row of the
  log, its head vector is that and its buffer, and that everything acknowledged is durable.
\<close>

section \<open>The system\<close>

record ('v, 'd) system =
  sys_state :: "('v, 'd) seq_state"
  sys_db :: db
  sys_flight :: "'v flush_snapshot option"
  sys_txs :: "(int \<times> byte list \<times> byte list) list"
  sys_acked :: "'v list"
  sys_accepted :: "'v list"

text \<open>What the database can answer a flush, and the two reads that settle a lost answer: an
  answer names the row that is there; the reads see the log at or after the attempt.\<close>

definition answer_ok :: "('v, 'd) loro \<Rightarrow> db \<Rightarrow> 'v flush_snapshot \<Rightarrow> ustr + int \<Rightarrow> bool" where
  "answer_ok L db snap answer \<longleftrightarrow>
    (case answer of Inl _ \<Rightarrow> True
     | Inr w \<Rightarrow> w = s_expected snap + 1 \<and>
         (\<exists>row \<in> set (db_rows db). update_sequence row = w \<and> row_vector row = vv_encode L (s_vector snap)))"

definition reads_ok :: "db \<Rightarrow> int \<Rightarrow> ustr + int \<Rightarrow> ustr + log_row list \<Rightarrow> bool" where
  "reads_ok db expected sequence rows \<longleftrightarrow>
    (case sequence of Inl _ \<Rightarrow> True | Inr n \<Rightarrow> expected \<le> n \<and> n \<le> db_sequence db) \<and>
    (case rows of Inl _ \<Rightarrow> True | Inr rs \<Rightarrow> log_rows db expected (Some (expected + 1)) = Inr rs)"

definition prepared_ok :: "('v, 'd) loro \<Rightarrow> ('v, 'd) inner \<Rightarrow> 'v prepared_source option \<Rightarrow> bool" where
  "prepared_ok L i prepared \<longleftrightarrow>
    (case prepared of None \<Rightarrow> True
     | Some p \<Rightarrow> meta_ok L (pr_batch p) \<and> pr_end p = partial_end_vv (head_of L (pr_batch p)) \<and>
         covers L (head_vector i) (partial_start_vv (head_of L (pr_batch p))) \<and> length (pr_batch p) \<le> MAX_BATCH_BYTES)"

definition prepared_ends :: "'v prepared_source option \<Rightarrow> 'v list" where
  "prepared_ends prepared = (case prepared of None \<Rightarrow> [] | Some p \<Rightarrow> [pr_end p])"

definition valid_key :: "ustr \<Rightarrow> bool" where
  "valid_key k \<longleftrightarrow> (\<forall>c \<in> set k. scalar c)"

definition cfg_ok :: "seq_config \<Rightarrow> bool" where
  "cfg_ok cfg \<longleftrightarrow> gap_check cfg \<and> log_quota_bytes cfg \<le> MAX_BATCH_BYTES \<and>
    valid_key (deployment_peer_key cfg) \<and> str_len8 (deployment_peer_key cfg) \<le> MAX_PEER_KEY"

inductive sys_step :: "('v, 'd) loro \<Rightarrow> seq_config \<Rightarrow> ('v, 'd) system \<Rightarrow> ('v, 'd) system \<Rightarrow> bool" for L cfg where
  ingest: "sys_state s = (i, sh) \<Longrightarrow> ingest L cfg env socket peer seq bytes (i, sh) = ((i', sh'), res) \<Longrightarrow> valid_key peer \<Longrightarrow>
    sys_step L cfg s (s\<lparr>sys_state := (i', sh'),
      sys_accepted := sys_accepted s @ map p_end (drop (length (buffer i)) (buffer i'))\<rparr>)"
| flush_started: "sys_state s = (i, sh) \<Longrightarrow> sys_flight s = None \<Longrightarrow> flush_begin L cfg reason wakes i sh = (sh', Started snap) \<Longrightarrow>
    sys_step L cfg s (s\<lparr>sys_state := (i, sh'), sys_flight := Some snap,
      sys_txs := sys_txs s @ [(s_expected snap, s_encoded snap, vv_encode L (s_vector snap))]\<rparr>)"
| committed: "(e, bytes, vector) \<in> set (sys_txs s) \<Longrightarrow>
    insert_log_row_reserved (sys_db s) e bytes vector format keys promised removed usage = Inr (db', n) \<Longrightarrow>
    sys_step L cfg s (s\<lparr>sys_db := db'\<rparr>)"
| other_writer: "insert_log_row (sys_db s) (db_sequence (sys_db s)) bytes vector = Inr (db', n) \<Longrightarrow>
    row_ok L (durable_vector L (sys_db s))
      \<lparr>update_sequence = db_sequence (sys_db s) + 1, update_bytes = bytes, row_vector = vector\<rparr> \<Longrightarrow>
    sys_step L cfg s (s\<lparr>sys_db := db'\<rparr>)"
| flush_finished: "sys_state s = (i, sh) \<Longrightarrow> sys_flight s = Some snap \<Longrightarrow> answer_ok L (sys_db s) snap answer \<Longrightarrow>
    reads_ok (sys_db s) (s_expected snap) sequence rows \<Longrightarrow>
    flush_finish L cfg snap answer sequence rows now (i, sh) = (st', res) \<Longrightarrow>
    sys_step L cfg s (s\<lparr>sys_state := st', sys_flight := None,
      sys_acked := sys_acked s @ (if is_ok res then map p_end (take (s_take snap) (buffer i)) else [])\<rparr>)"
| command: "sys_state s = (i, sh) \<Longrightarrow> sys_flight s = None \<Longrightarrow> prepared_ok L i prepared \<Longrightarrow>
    row = command_assemble L cfg prepared i \<Longrightarrow>
    (if c_acks row = [] then db' = sys_db s
     else insert_log_row_reserved (sys_db s) (c_expected row) (c_encoded row) (vv_encode L (c_vector row)) format keys promised removed usage =
       Inr (db', written)) \<Longrightarrow>
    sys_step L cfg s (s\<lparr>sys_state := command_commit L cfg now prepared written (i, sh), sys_db := db',
      sys_acked := sys_acked s @ map p_end (buffer i) @ prepared_ends prepared,
      sys_accepted := sys_accepted s @ prepared_ends prepared\<rparr>)"
| command_lost: "sys_state s = (i, sh) \<Longrightarrow> sys_flight s = None \<Longrightarrow> prepared_ok L i prepared \<Longrightarrow>
    row = command_assemble L cfg prepared i \<Longrightarrow> c_acks row \<noteq> [] \<Longrightarrow>
    sys_step L cfg s (s\<lparr>sys_txs := sys_txs s @ [(c_expected row, c_encoded row, vv_encode L (c_vector row))]\<rparr>)"
| compacted: "sys_state s = (i, sh) \<Longrightarrow> sys_flight s = None \<Longrightarrow> through \<le> next_sequence i - 1 \<Longrightarrow>
    db_rows (sys_db s) = xs @ ys \<Longrightarrow> chain L (base_through (sys_db s)) (base_vec L (sys_db s)) xs through u \<Longrightarrow>
    activate_log_base (sys_db s) through (vv_encode L u) sb ke old new eq = Inr (Some (db', n, bytes)) \<Longrightarrow>
    sys_step L cfg s (s\<lparr>sys_state := note_compacted L cfg (vv_encode L u) weight (word_of_int bytes) n (i, sh), sys_db := db'\<rparr>)"
| fenced: "sys_step L cfg s (s\<lparr>sys_state := fence why (sys_state s)\<rparr>)"
| quiet: "core (fst st) = core (fst (sys_state s)) \<Longrightarrow> sys_step L cfg s (s\<lparr>sys_state := st\<rparr>)"

text \<open>A system starts with a sequencer admitted to a well-formed log.\<close>

definition admitted :: "('v, 'd) loro \<Rightarrow> db \<Rightarrow> shared \<Rightarrow> u64 \<Rightarrow> u64 \<Rightarrow> int \<Rightarrow> ('v, 'd) system" where
  "admitted L db sh base_size rows_size n =
    \<lparr>sys_state = (from_parts (db_sequence db + 1) (durable_vector L db) base_size rows_size n (base_vec L db) (db_base db \<noteq> None), sh),
     sys_db = db, sys_flight = None, sys_txs = [], sys_acked = [], sys_accepted = []\<rparr>"

section \<open>Rows the sequencer writes\<close>

definition to_batch :: "'v pending_batch \<Rightarrow> batch" where
  "to_batch p = \<lparr>peer_key = p_peer_key p, client_seq = p_client_seq p, batch_bytes = p_bytes p\<rparr>"

definition pend_ok :: "('v, 'd) loro \<Rightarrow> 'v pending_batch \<Rightarrow> bool" where
  "pend_ok L p \<longleftrightarrow> meta_ok L (p_bytes p) \<and> p_end p = partial_end_vv (head_of L (p_bytes p)) \<and> batch_ok (to_batch p)"

lemma encode_foldl:
  "foldl (\<lambda>row p. append_batch row (p_peer_key p) (p_client_seq p) (p_bytes p)) row ps =
    foldl (\<lambda>out b. append_batch out (peer_key b) (client_seq b) (batch_bytes b)) row (map to_batch ps)"
  by (simp add: foldl_map to_batch_def)

lemma encode_prefix_eq: "encode_prefix i n = encode (map to_batch (take n (buffer i)))"
  unfolding encode_prefix_def append_prefix_def encode_foldl encode_def by (simp add: begin_row_def)

lemma vector_through_eq: "vector_through L i n = merge_ends L (log_vector i) (map p_end (take n (buffer i)))"
  by (simp add: vector_through_def merge_ends_def foldl_map)

lemma encode_nonempty [simp]: "encode bs \<noteq> []"
  by (simp add: encode_framed)

text \<open>A row of good batches whose headers are causally ordered is a good row.\<close>

lemma row_ok_encode:
  assumes "\<forall>b \<in> set bs. batch_ok b" "\<forall>b \<in> set bs. meta_ok L (batch_bytes b)" "causal L v (map (head_of L \<circ> batch_bytes) bs)"
    and "w = merge_ends L v (map (partial_end_vv \<circ> head_of L \<circ> batch_bytes) bs)"
  shows "row_ok L v \<lparr>update_sequence = n, update_bytes = encode bs, row_vector = vv_encode L w\<rparr>"
    and "row_to L v \<lparr>update_sequence = n, update_bytes = encode bs, row_vector = vv_encode L w\<rparr> = w"
proof -
  have d: "decode (encode bs) = Inr bs" by (rule decode_framed_row) (use assms(1) in blast)
  show "row_to L v \<lparr>update_sequence = n, update_bytes = encode bs, row_vector = vv_encode L w\<rparr> = w"
    using assms(4) by (simp add: row_to_def payloads_def d ends_of_def comp_assoc)
  then show "row_ok L v \<lparr>update_sequence = n, update_bytes = encode bs, row_vector = vv_encode L w\<rparr>"
    using assms(2,3) by (simp add: row_ok_def payloads_def d list_all_iff)
qed

section \<open>The invariant\<close>

definition synced :: "('v, 'd) loro \<Rightarrow> db \<Rightarrow> int \<Rightarrow> 'v \<Rightarrow> bool" where
  "synced L db n v \<longleftrightarrow> (\<exists>xs ys. db_rows db = xs @ ys \<and> chain L (base_through db) (base_vec L db) xs n v \<and>
    chain L n v ys (db_sequence db) (durable_vector L db))"

definition buffer_ok :: "('v, 'd) loro \<Rightarrow> ('v, 'd) inner \<Rightarrow> bool" where
  "buffer_ok L i \<longleftrightarrow> head_vector i = merge_ends L (log_vector i) (map p_end (buffer i)) \<and>
    list_all (pend_ok L) (buffer i) \<and> causal L (log_vector i) (map (head_of L \<circ> p_bytes) (buffer i))"

definition snap_ok :: "('v, 'd) loro \<Rightarrow> ('v, 'd) inner \<Rightarrow> 'v flush_snapshot \<Rightarrow> bool" where
  "snap_ok L i snap \<longleftrightarrow> s_take snap \<le> length (buffer i) \<and>
    s_vector snap = merge_ends L (log_vector i) (map p_end (take (s_take snap) (buffer i))) \<and>
    s_encoded snap = encode (map to_batch (take (s_take snap) (buffer i))) \<and> s_expected snap = next_sequence i - 1"

definition tx_ok :: "('v, 'd) loro \<Rightarrow> db \<Rightarrow> int \<times> byte list \<times> byte list \<Rightarrow> bool" where
  "tx_ok L db t \<longleftrightarrow> (case t of (e, bytes, vector) \<Rightarrow> e \<le> db_sequence db \<and>
    (e = db_sequence db \<longrightarrow> row_ok L (durable_vector L db) \<lparr>update_sequence = e + 1, update_bytes = bytes, row_vector = vector\<rparr>))"

definition sys_inv :: "('v, 'd) loro \<Rightarrow> ('v, 'd) system \<Rightarrow> bool" where
  "sys_inv L s \<longleftrightarrow> (let i = fst (sys_state s); db = sys_db s in
    db_ok L db \<and> synced L db (next_sequence i - 1) (log_vector i) \<and> buffer_ok L i \<and>
    (\<forall>snap. sys_flight s = Some snap \<longrightarrow> snap_ok L i snap) \<and> list_all (tx_ok L db) (sys_txs s) \<and>
    list_all (covers L (durable_vector L db)) (sys_acked s) \<and> list_all (covers L (head_vector i)) (sys_accepted s) \<and>
    has_base i = (db_base db \<noteq> None) \<and> base_vector i = base_vec L db)"

lemma buffer_ok_core: "core i = core j \<Longrightarrow> buffer_ok L i = buffer_ok L j"
  using core_fields(2,3,4)[of i j] by (simp add: buffer_ok_def)

lemma snap_ok_core: "core i = core j \<Longrightarrow> snap_ok L i = snap_ok L j"
  using core_fields(1,2,4)[of i j] by (simp add: snap_ok_def fun_eq_iff)

lemma sys_inv_core:
  assumes "sys_inv L s" "core (fst st) = core (fst (sys_state s))"
  shows "sys_inv L (s\<lparr>sys_state := st\<rparr>)"
  using assms(1) core_fields[OF assms(2)] buffer_ok_core[OF assms(2), of L] snap_ok_core[OF assms(2), of L]
  by (simp add: sys_inv_def Let_def)

lemma take_merge: "merge_ends L (merge_ends L v (map f (take n ps))) (map f (drop n ps)) = merge_ends L v (map f ps)"
  by (metis append_take_drop_id map_append merge_ends_simps(3))

text \<open>What retiring a prefix does to the core.\<close>

lemma retire_fields:
  "next_sequence (fst (retire n written v b now st)) = written + 1" "log_vector (fst (retire n written v b now st)) = v"
  "head_vector (fst (retire n written v b now st)) = head_vector (fst st)" "buffer (fst (retire n written v b now st)) = drop n (buffer (fst st))"
  "has_base (fst (retire n written v b now st)) = has_base (fst st)" "base_vector (fst (retire n written v b now st)) = base_vector (fst st)"
  by (simp_all add: retire_def split_def Let_def)

lemma flush_written_core:
  "\<exists>sh'. core (fst (flush_written L cfg snap w now (i, sh))) =
    core (fst (retire (s_take snap) w (s_vector snap) (length (s_encoded snap)) now (i, sh')))"
proof -
  obtain i1 sh1 where re: "retire (s_take snap) w (s_vector snap) (length (s_encoded snap)) now (i, drop_scratch snap sh) = (i1, sh1)"
    by fastforce
  define sh2 where "sh2 = sh1\<lparr>sh_ledger := charge_ledger (sh_ledger sh1) (owner_id cfg) (int (length (s_encoded snap)))\<rparr>"
  obtain i3 sh3 where s3: "notify_durable L cfg (acknowledge cfg (s_acks snap) (i1, sh2)) = (i3, sh3)" by fastforce
  have c3: "core i3 = core i1"
    using notify_durable_core[of L cfg "acknowledge cfg (s_acks snap) (i1, sh2)"] acknowledge_core(1)[of cfg "s_acks snap" "(i1, sh2)"]
    unfolding s3 by simp
  have "core (fst (flush_written L cfg snap w now (i, sh))) = core i1"
    unfolding flush_written_def prod.case Let_def re sh2_def[symmetric] s3
    using c3 emit_source_changed_core[of L cfg now "(i3, sh3)"] by (simp add: split_def)
  with re show ?thesis by (metis fst_conv)
qed

context loro_laws
begin

lemma synced_covers: "synced L db n v \<Longrightarrow> covers L (durable_vector L db) v"
  by (auto simp: synced_def dest: chain_grows)

lemma synced_bounds: "synced L db n v \<Longrightarrow> base_through db \<le> n \<and> n \<le> db_sequence db"
  unfolding synced_def by (metis chain_to le_add_same_cancel1 of_nat_0_le_iff)

lemma synced_at_head: "synced L db (db_sequence db) v \<Longrightarrow> durable_vector L db = v"
  unfolding synced_def using chain_to by fastforce

text \<open>The row at a sequence of the log determines the vector there.\<close>

lemma synced_row:
  assumes "synced L db n v" "row \<in> set (db_rows db)" "update_sequence row = n + 1" "row_vector row = vv_encode L w"
  shows "synced L db (n + 1) w"
proof -
  from assms(1) obtain xs ys where s: "db_rows db = xs @ ys" "chain L (base_through db) (base_vec L db) xs n v"
    "chain L n v ys (db_sequence db) (durable_vector L db)" by (auto simp: synced_def)
  have "row \<in> set ys" using assms(2,3) s(1) chain_sequences[OF s(2)] by fastforce
  then obtain y ys' where ys: "ys = y # ys'" by (cases ys) auto
  have "update_sequence y = n + 1" "row_ok L v y" and tail: "chain L (n + 1) (row_to L v y) ys' (db_sequence db) (durable_vector L db)"
    using s(3) ys by auto
  have "row = y"
    using \<open>row \<in> set ys\<close> ys assms(3) chain_sequences[OF tail] by fastforce
  with assms(4) \<open>row_ok L v y\<close> have "row_to L v y = w" by (auto simp: row_ok_def intro: encode_inj)
  moreover have "chain L (base_through db) (base_vec L db) (xs @ [y]) (n + 1) (row_to L v y)"
    using s(2) \<open>row_ok L v y\<close> \<open>update_sequence y = n + 1\<close> by (auto simp: chain_append)
  ultimately show ?thesis using s(1) ys tail unfolding synced_def by (metis append.assoc append_Cons append_Nil)
qed

lemma synced_insert:
  assumes "db_ok L db" "insert_log_row db e bytes vector = Inr (db', n)"
    and "row_ok L (durable_vector L db) \<lparr>update_sequence = db_sequence db + 1, update_bytes = bytes, row_vector = vector\<rparr>"
    and "synced L db k v"
  shows "synced L db' k v" "covers L (durable_vector L db') (durable_vector L db)"
proof -
  note i = insert_ok[OF assms(1-3)]
  let ?r = "\<lparr>update_sequence = db_sequence db + 1, update_bytes = bytes, row_vector = vector\<rparr>"
  show "covers L (durable_vector L db') (durable_vector L db)" using i row_to_grows by simp
  from assms(4) obtain xs ys where s: "db_rows db = xs @ ys" "chain L (base_through db) (base_vec L db) xs k v"
    "chain L k v ys (db_sequence db) (durable_vector L db)" by (auto simp: synced_def)
  have b: "base_through db' = base_through db" "base_vec L db' = base_vec L db" using i by (simp_all add: base_through_def base_vec_def)
  have "chain L k v (ys @ [?r]) (db_sequence db') (durable_vector L db')"
    using s(3) i assms(3) by (auto simp: chain_append)
  moreover have "db_rows db' = xs @ (ys @ [?r])" using i s(1) by simp
  ultimately show "synced L db' k v" using s(2) b unfolding synced_def by metis
qed

lemma insert_inv:
  assumes inv: "sys_inv L s" and ins: "insert_log_row (sys_db s) e bytes vector = Inr (db', n)"
    and row: "row_ok L (durable_vector L (sys_db s)) \<lparr>update_sequence = db_sequence (sys_db s) + 1, update_bytes = bytes, row_vector = vector\<rparr>"
  shows "sys_inv L (s\<lparr>sys_db := db'\<rparr>)"
proof -
  have ok: "db_ok L (sys_db s)" and sy: "synced L (sys_db s) (next_sequence (fst (sys_state s)) - 1) (log_vector (fst (sys_state s)))"
    using inv by (auto simp: sys_inv_def Let_def)
  note i = insert_ok[OF ok ins row] and y = synced_insert[OF ok ins row sy]
  have "list_all (tx_ok L db') (sys_txs s)"
    using inv i by (auto simp: sys_inv_def Let_def tx_ok_def list_all_iff)
  moreover have "list_all (covers L (durable_vector L db')) (sys_acked s)"
    using inv by (auto simp: sys_inv_def Let_def list_all_iff intro: cov_trans[OF y(2)])
  ultimately show ?thesis using inv i y(1) by (auto simp: sys_inv_def Let_def base_vec_def)
qed

lemma committed_inv:
  assumes "sys_inv L s" "(e, bytes, vector) \<in> set (sys_txs s)" "insert_log_row (sys_db s) e bytes vector = Inr (db', n)"
  shows "sys_inv L (s\<lparr>sys_db := db'\<rparr>)"
proof (rule insert_inv[OF assms(1,3)])
  have "db_sequence (sys_db s) = e" using assms(3) by (auto simp: insert_log_row_def split: if_splits)
  moreover have "tx_ok L (sys_db s) (e, bytes, vector)" using assms(1,2) by (auto simp: sys_inv_def Let_def list_all_iff)
  ultimately show "row_ok L (durable_vector L (sys_db s)) \<lparr>update_sequence = db_sequence (sys_db s) + 1, update_bytes = bytes, row_vector = vector\<rparr>"
    by (simp add: tx_ok_def)
qed

lemma pend_ends: "list_all (pend_ok L) ps \<Longrightarrow> map partial_end_vv (map (head_of L \<circ> p_bytes) ps) = map p_end ps"
  by (induction ps) (simp_all add: pend_ok_def)

lemma buffer_append:
  assumes "buffer_ok L i" "pend_ok L p" "covers L (head_vector i) (partial_start_vv (head_of L (p_bytes p)))"
    and "core j = core (i\<lparr>head_vector := vv_merge L (head_vector i) (p_end p), buffer := buffer i @ [p],
      buffer_bytes := n, charged_bytes := k\<rparr>)"
  shows "buffer_ok L j \<and> buffer j = buffer i @ [p] \<and> log_vector j = log_vector i \<and> next_sequence j = next_sequence i \<and>
    head_vector j = vv_merge L (head_vector i) (p_end p) \<and> has_base j = has_base i \<and> base_vector j = base_vector i"
proof -
  note c = core_fields[OF assms(4), simplified]
  have "merge_ends L (log_vector i) (map partial_end_vv (map (head_of L \<circ> p_bytes) (buffer i))) = head_vector i"
    using assms(1) unfolding buffer_ok_def by (metis pend_ends)
  with assms c show ?thesis by (simp add: buffer_ok_def causal_append)
qed

lemma snap_ok_grow:
  assumes "snap_ok L i snap" "buffer j = buffer i @ ps" "log_vector j = log_vector i" "next_sequence j = next_sequence i"
  shows "snap_ok L j snap"
  using assms by (simp add: snap_ok_def)

lemma ingest_inv:
  assumes cfg: "cfg_ok cfg" and inv: "sys_inv L s" and st: "sys_state s = (i, sh)"
    and r: "ingest L cfg env socket peer seq bytes (i, sh) = ((i', sh'), res)" and key: "valid_key peer"
  shows "sys_inv L (s\<lparr>sys_state := (i', sh'), sys_accepted := sys_accepted s @ map p_end (drop (length (buffer i)) (buffer i'))\<rparr>)"
proof (cases "ingest_accepts L cfg env socket peer seq bytes i sh (i', sh') res")
  case False
  then have c: "core i' = core i" using ingest_cases[OF r]
    by (auto simp: ingest_refuses_def) (metis acknowledge_core(2) fst_conv)
  then have "buffer i' = buffer i" by (rule core_fields(4))
  with sys_inv_core[OF inv, of "(i', sh')"] c st show ?thesis by (simp add: sys_inv_def Let_def)
next
  case True
  then obtain h b res' where pc: "passed_checks L cfg peer bytes i h"
    and acc: "(i', sh') = accept_batch L cfg (in_now env) socket peer seq bytes h res'
        (int (unat (saturating_add (res_bytes res') (word_of_nat ROW_HEADER_BYTES))))
        (durable_reservation_key cfg peer seq (sha256 cfg bytes)) (sha256 cfg bytes) (i, sh\<lparr>sh_pending := b\<rparr>)"
    by (auto simp: ingest_accepts_def)
  define p where "p = new_batch peer seq bytes h res' (int (unat (saturating_add (res_bytes res') (word_of_nat ROW_HEADER_BYTES))))
    (durable_reservation_key cfg peer seq (sha256 cfg bytes)) (sha256 cfg bytes)"
  have h: "blob_meta L bytes = Inr h" using pc by (simp add: passed_checks_def)
  have pe: "p_end p = partial_end_vv h" "p_bytes p = bytes" by (simp_all add: p_def new_batch_def)
  have pok: "pend_ok L p"
    using pc cfg key h by (simp add: pend_ok_def p_def new_batch_def meta_ok_def head_of_def passed_checks_def to_batch_def
        batch_ok_def cfg_ok_def valid_key_def)
  have cv: "covers L (head_vector i) (partial_start_vv (head_of L (p_bytes p)))"
    using pc cfg h by (simp add: passed_checks_def cfg_ok_def head_of_def pe)
  have c: "core i' = core (i\<lparr>head_vector := vv_merge L (head_vector i) (p_end p), buffer := buffer i @ [p],
      buffer_bytes := usize_add (buffer_bytes i) (length bytes),
      charged_bytes := usize_add (charged_bytes i) (unat (res_bytes res'))\<rparr>)"
    using arg_cong[OF acc, of "\<lambda>x. core (fst x)"] unfolding accept_batch_core fst_conv pe(1) p_def[symmetric] .
  have bo: "buffer_ok L i" using inv st by (simp add: sys_inv_def Let_def)
  note g = buffer_append[OF bo pok cv c]
  have "list_all (covers L (head_vector i')) (sys_accepted s @ [p_end p])"
    using inv st g by (auto simp: sys_inv_def Let_def list_all_iff merge_right intro: cov_trans[OF merge_left])
  moreover have "\<forall>snap. sys_flight s = Some snap \<longrightarrow> snap_ok L i' snap"
    using inv st g snap_ok_grow[of i _ i' "[p]"] by (simp add: sys_inv_def Let_def)
  ultimately show ?thesis using inv st g by (simp add: sys_inv_def Let_def)
qed

lemma flush_snapshot_ok:
  assumes "flush_snapshot_of L i r = Started snap"
  shows "snap_ok L i snap"
  using assms by (auto simp: flush_snapshot_of_def snap_ok_def Let_def encode_prefix_eq vector_through_eq split: option.splits)

lemma flush_begin_snapshot:
  "flush_begin L cfg reason wakes i sh = (sh', Started snap) \<Longrightarrow> \<exists>r. flush_snapshot_of L i r = Started snap"
  by (auto simp: flush_begin_def flush_locked_def Let_def split: if_splits option.splits prod.splits sum.splits)

text \<open>A row made of a prefix of the buffer, and of a batch after it, is good at the log vector.\<close>

lemma buffer_row_ok:
  assumes "buffer_ok L i" "\<forall>b \<in> set extra. batch_ok b \<and> meta_ok L (batch_bytes b)"
    and "causal L (merge_ends L (log_vector i) (map p_end (take n (buffer i)))) (map (head_of L \<circ> batch_bytes) extra)"
    and "w = merge_ends L (merge_ends L (log_vector i) (map p_end (take n (buffer i)))) (map (partial_end_vv \<circ> head_of L \<circ> batch_bytes) extra)"
  shows "row_ok L (log_vector i) \<lparr>update_sequence = k, update_bytes = encode (map to_batch (take n (buffer i)) @ extra), row_vector = vv_encode L w\<rparr>"
    and "row_to L (log_vector i) \<lparr>update_sequence = k, update_bytes = encode (map to_batch (take n (buffer i)) @ extra), row_vector = vv_encode L w\<rparr> = w"
proof -
  let ?bs = "map to_batch (take n (buffer i)) @ extra"
  have po: "list_all (pend_ok L) (take n (buffer i))"
    using assms(1) by (auto simp: buffer_ok_def list_all_iff dest: in_set_takeD)
  have hs: "map (head_of L \<circ> batch_bytes) (map to_batch (take n (buffer i))) = map (head_of L \<circ> p_bytes) (take n (buffer i))"
    by (simp add: to_batch_def comp_def)
  have es: "map (partial_end_vv \<circ> head_of L \<circ> batch_bytes) (map to_batch (take n (buffer i))) = map p_end (take n (buffer i))"
    unfolding pend_ends[OF po, symmetric] by (simp add: to_batch_def)
  have ok: "\<forall>b \<in> set ?bs. batch_ok b" "\<forall>b \<in> set ?bs. meta_ok L (batch_bytes b)"
    using po assms(2) by (auto simp: list_all_iff pend_ok_def) (auto simp: to_batch_def)
  have "causal L (log_vector i) (map (head_of L \<circ> p_bytes) (take n (buffer i)))"
    using assms(1) causal_append[of "log_vector i" "map (head_of L \<circ> p_bytes) (take n (buffer i))" "map (head_of L \<circ> p_bytes) (drop n (buffer i))"]
    by (simp add: buffer_ok_def flip: map_append)
  then have ca: "causal L (log_vector i) (map (head_of L \<circ> batch_bytes) ?bs)"
    using assms(3) unfolding map_append hs causal_append pend_ends[OF po] by blast
  have w: "w = merge_ends L (log_vector i) (map (partial_end_vv \<circ> head_of L \<circ> batch_bytes) ?bs)"
    unfolding assms(4) map_append es merge_ends_simps(3) ..
  show "row_ok L (log_vector i) \<lparr>update_sequence = k, update_bytes = encode ?bs, row_vector = vv_encode L w\<rparr>"
    "row_to L (log_vector i) \<lparr>update_sequence = k, update_bytes = encode ?bs, row_vector = vv_encode L w\<rparr> = w"
    using row_ok_encode[OF ok ca w] by simp_all
qed

lemma own_tx_ok:
  assumes inv: "sys_inv L s" and st: "sys_state s = (i, sh)"
    and extra: "\<forall>b \<in> set extra. batch_ok b \<and> meta_ok L (batch_bytes b)"
      "causal L (merge_ends L (log_vector i) (map p_end (take n (buffer i)))) (map (head_of L \<circ> batch_bytes) extra)"
    and w: "w = merge_ends L (merge_ends L (log_vector i) (map p_end (take n (buffer i)))) (map (partial_end_vv \<circ> head_of L \<circ> batch_bytes) extra)"
  shows "tx_ok L (sys_db s) (next_sequence i - 1, encode (map to_batch (take n (buffer i)) @ extra), vv_encode L w)"
proof -
  have bo: "buffer_ok L i" and sy: "synced L (sys_db s) (next_sequence i - 1) (log_vector i)"
    using inv st by (simp_all add: sys_inv_def Let_def)
  show ?thesis
    using synced_bounds[OF sy] synced_at_head[of "sys_db s" "log_vector i"] sy buffer_row_ok(1)[OF bo extra w]
    by (auto simp: tx_ok_def)
qed

lemma flush_started_inv:
  assumes inv: "sys_inv L s" and st: "sys_state s = (i, sh)"
    and f: "flush_begin L cfg reason wakes i sh = (sh', Started snap)"
  shows "sys_inv L (s\<lparr>sys_state := (i, sh'), sys_flight := Some snap,
    sys_txs := sys_txs s @ [(s_expected snap, s_encoded snap, vv_encode L (s_vector snap))]\<rparr>)"
proof -
  have so: "snap_ok L i snap" using flush_begin_snapshot[OF f] flush_snapshot_ok by blast
  have "tx_ok L (sys_db s) (s_expected snap, s_encoded snap, vv_encode L (s_vector snap))"
    using own_tx_ok[OF inv st, of "[]" "s_take snap" "s_vector snap"] so by (simp add: snap_ok_def)
  with inv st so show ?thesis by (simp add: sys_inv_def Let_def)
qed

lemma buffer_retire:
  assumes "buffer_ok L i" "n \<le> length (buffer i)" "v = merge_ends L (log_vector i) (map p_end (take n (buffer i)))"
    and "log_vector j = v" "head_vector j = head_vector i" "buffer j = drop n (buffer i)"
  shows "buffer_ok L j"
proof -
  have b: "map f (take n (buffer i)) @ map f (drop n (buffer i)) = map f (buffer i)" for f :: "_ \<Rightarrow> 'x" by (simp flip: map_append)
  have po: "list_all (pend_ok L) (take n (buffer i))" "list_all (pend_ok L) (drop n (buffer i))"
    using assms(1) by (auto simp: buffer_ok_def list_all_iff dest: in_set_takeD in_set_dropD)
  have "causal L (log_vector i) (map (head_of L \<circ> p_bytes) (take n (buffer i)) @ map (head_of L \<circ> p_bytes) (drop n (buffer i)))"
    using assms(1) unfolding b by (simp add: buffer_ok_def)
  then have "causal L v (map (head_of L \<circ> p_bytes) (drop n (buffer i)))"
    unfolding causal_append pend_ends[OF po(1)] assms(3) by blast
  moreover have "head_vector i = merge_ends L v (map p_end (drop n (buffer i)))"
    using assms(1) unfolding buffer_ok_def assms(3) take_merge by blast
  ultimately show ?thesis using po(2) assms(4-6) by (simp add: buffer_ok_def)
qed

text \<open>A flush that reports success names a row that is in the log with the vector it wrote.\<close>

lemma flush_finish_cases:
  assumes "answer_ok L db snap answer" "reads_ok db (s_expected snap) sequence rows"
    and "flush_finish L cfg snap answer sequence rows now (i, sh) = (st', res)"
  shows "(res = Inr (s_expected snap + 1) \<and> st' = flush_written L cfg snap (s_expected snap + 1) now (i, sh) \<and>
      (\<exists>row \<in> set (db_rows db). update_sequence row = s_expected snap + 1 \<and> row_vector row = vv_encode L (s_vector snap)))
    \<or> (\<not> is_ok res \<and> (st' = (i, drop_scratch snap sh) \<or> (\<exists>why. st' = fence why (i, drop_scratch snap sh))))"
proof (cases answer)
  case (Inr w)
  with assms(1,3) show ?thesis by (auto simp: flush_finish_def answer_ok_def)
next
  case (Inl error)
  show ?thesis
  proof (cases "resolve_ambiguous_flush (s_expected snap) (vv_encode L (s_vector snap)) error sequence rows")
    case (Inl e)
    show ?thesis using assms(3) unfolding flush_finish_def \<open>answer = Inl error\<close> sum.case prod.case Inl by (cases e) auto
  next
    case (Inr w)
    then obtain row rest where "rows = Inr (row # rest)" "row_vector row = vv_encode L (s_vector snap)" "w = s_expected snap + 1"
      by (auto simp: resolve_ambiguous_flush_def split: sum.splits list.splits if_splits)
    moreover from this(1) assms(2) have "row \<in> set (db_rows db) \<and> update_sequence row = s_expected snap + 1"
      by (auto simp: reads_ok_def log_rows_def filter_eq_Cons_iff split: if_splits)
    ultimately show ?thesis using assms(3) unfolding flush_finish_def \<open>answer = Inl error\<close> sum.case prod.case Inr by auto
  qed
qed

lemma sys_inv_fence:
  assumes "sys_inv L s" "sys_state s = (i, sh)"
  shows "sys_inv L (s\<lparr>sys_state := fence why (i, sh')\<rparr>)"
proof -
  have c: "core (fst (fence why (i, sh'))) = core (i\<lparr>fenced := Some why\<rparr>)" using fence_core[of why "(i, sh')"] by (simp add: core_push)
  have "buffer_ok L (i\<lparr>fenced := Some why\<rparr>) = buffer_ok L i" "snap_ok L (i\<lparr>fenced := Some why\<rparr>) = snap_ok L i"
    by (simp_all add: buffer_ok_def snap_ok_def fun_eq_iff)
  then have "sys_inv L (s\<lparr>sys_state := (i\<lparr>fenced := Some why\<rparr>, sh)\<rparr>)"
    using assms by (simp add: sys_inv_def Let_def)
  from sys_inv_core[OF this, of "fence why (i, sh')"] c show ?thesis by simp
qed

lemma sys_inv_landed: "sys_inv L s \<Longrightarrow> sys_inv L (s\<lparr>sys_flight := None\<rparr>)"
  by (simp add: sys_inv_def Let_def)

lemma flush_finished_inv:
  assumes inv: "sys_inv L s" and st: "sys_state s = (i, sh)" and fl: "sys_flight s = Some snap"
    and an: "answer_ok L (sys_db s) snap answer" and rd: "reads_ok (sys_db s) (s_expected snap) sequence rows"
    and f: "flush_finish L cfg snap answer sequence rows now (i, sh) = (st', res)"
  shows "sys_inv L (s\<lparr>sys_state := st', sys_flight := None,
    sys_acked := sys_acked s @ (if is_ok res then map p_end (take (s_take snap) (buffer i)) else [])\<rparr>)"
  using flush_finish_cases[OF an rd f]
proof (elim disjE conjE bexE exE)
  fix row
  assume res: "res = Inr (s_expected snap + 1)" and st': "st' = flush_written L cfg snap (s_expected snap + 1) now (i, sh)"
    and row: "row \<in> set (db_rows (sys_db s))" "update_sequence row = s_expected snap + 1" "row_vector row = vv_encode L (s_vector snap)"
  from inv st fl have so: "snap_ok L i snap" and sy: "synced L (sys_db s) (next_sequence i - 1) (log_vector i)" and bo: "buffer_ok L i"
    by (simp_all add: sys_inv_def Let_def)
  have sy': "synced L (sys_db s) (s_expected snap + 1) (s_vector snap)"
    using synced_row[OF sy row(1) _ row(3)] row(2) so by (simp add: snap_ok_def)
  obtain sh' where c: "core (fst st') = core (fst (retire (s_take snap) (s_expected snap + 1) (s_vector snap) (length (s_encoded snap)) now (i, sh')))"
    using flush_written_core st' by blast
  note r = core_fields[OF c, unfolded retire_fields]
  have bo': "buffer_ok L (fst st')" by (rule buffer_retire[OF bo, where n = "s_take snap"]) (use so r in \<open>simp_all add: snap_ok_def\<close>)
  have "list_all (covers L (durable_vector L (sys_db s))) (map p_end (take (s_take snap) (buffer i)))"
    using so by (auto simp: list_all_iff snap_ok_def intro!: cov_trans[OF synced_covers[OF sy']] merge_ends_covers)
  with inv st bo' sy' r res show ?thesis by (simp add: sys_inv_def Let_def add.commute)
next
  assume "\<not> is_ok res" "st' = (i, drop_scratch snap sh)"
  with sys_inv_landed[OF sys_inv_core[OF inv, of st']] st show ?thesis by simp
next
  fix why assume "\<not> is_ok res" "st' = fence why (i, drop_scratch snap sh)"
  with sys_inv_landed[OF sys_inv_fence[OF inv st, of why "drop_scratch snap sh"]] show ?thesis by simp
qed

end

section \<open>Commands and compaction\<close>

definition command_extra :: "seq_config \<Rightarrow> 'v prepared_source option \<Rightarrow> batch list" where
  "command_extra cfg prepared = (case prepared of None \<Rightarrow> []
    | Some p \<Rightarrow> [\<lparr>peer_key = deployment_peer_key cfg, client_seq = pr_client_seq p, batch_bytes = pr_batch p\<rparr>])"

lemma encode_slices_eq: "encode_slices (map (\<lambda>b. (peer_key b, client_seq b, batch_bytes b)) bs) = encode bs"
  by (simp add: encode_slices_def encode_def begin_row_def foldl_map)

lemma command_assemble_fields:
  "c_take (command_assemble L cfg prepared i) = length (buffer i)"
  "c_expected (command_assemble L cfg prepared i) = next_sequence i - 1"
  "c_acks (command_assemble L cfg prepared i) = [] \<longleftrightarrow> buffer i = [] \<and> prepared = None"
  "c_vector (command_assemble L cfg prepared i) =
    merge_ends L (merge_ends L (log_vector i) (map p_end (buffer i))) (prepared_ends prepared)"
  by (auto simp: command_assemble_def Let_def ack_prefix_def prepared_ends_def vector_through_eq split: option.splits)

lemma command_assemble_encoded:
  "c_acks (command_assemble L cfg prepared i) \<noteq> [] \<Longrightarrow>
    c_encoded (command_assemble L cfg prepared i) = encode (map to_batch (buffer i) @ command_extra cfg prepared)"
  by (auto simp: command_assemble_def Let_def command_extra_def to_batch_def comp_def simp flip: encode_slices_eq split: option.splits)

lemma install_prepared_core:
  "core (fst (install_prepared L cfg now prepared st)) =
    core ((fst st)\<lparr>head_vector := merge_ends L (head_vector (fst st)) (prepared_ends prepared)\<rparr>)"
proof (cases prepared)
  case (Some p)
  obtain i sh where st: "st = (i, sh)" by fastforce
  obtain i1 sh1 where im: "import_cached L (pr_batch p) (i\<lparr>head_vector := vv_merge L (head_vector i) (pr_end p)\<rparr>, sh) = (i1, sh1)"
    by fastforce
  have "core i1 = core (i\<lparr>head_vector := vv_merge L (head_vector i) (pr_end p)\<rparr>)"
    using import_cached_core[of L "pr_batch p" "(i\<lparr>head_vector := vv_merge L (head_vector i) (pr_end p)\<rparr>, sh)"] unfolding im by simp
  then show ?thesis unfolding install_prepared_def Some st option.case prod.case im by (simp add: prepared_ends_def)
qed (simp add: install_prepared_def prepared_ends_def)

lemma core_head_cong: "core i = core j \<Longrightarrow> core (i\<lparr>head_vector := v\<rparr>) = core (j\<lparr>head_vector := v\<rparr>)"
  by (simp add: core_push)

lemma command_commit_core:
  "\<exists>sh1. core (fst (command_commit L cfg now prepared w (i, sh))) =
    (let row = command_assemble L cfg prepared i;
         j = (if c_acks row \<noteq> [] then fst (retire (c_take row) w (c_vector row) (length (c_encoded row)) now (i, sh1)) else i) in
     core (j\<lparr>head_vector := merge_ends L (head_vector i) (prepared_ends prepared)\<rparr>))"
proof -
  define row where "row = command_assemble L cfg prepared i"
  obtain i1 sh1 where s1: "(if c_acks row \<noteq> [] then
      (case retire (c_take row) w (c_vector row) (length (c_encoded row)) now (i, sh) of (i', sh') \<Rightarrow>
        (i', sh'\<lparr>sh_ledger := charge_ledger (sh_ledger sh') (owner_id cfg) (int (length (c_encoded row)))\<rparr>))
      else (i, sh)) = (i1, sh1)" by fastforce
  have i1: "i1 = (if c_acks row \<noteq> [] then fst (retire (c_take row) w (c_vector row) (length (c_encoded row)) now (i, sh)) else i)"
    using s1 by (auto simp: split_def split: if_splits)
  have h1: "head_vector i1 = head_vector i" unfolding i1 by (simp add: retire_def Let_def)
  define st2 where "st2 = acknowledge cfg (c_acks row) (install_prepared L cfg now prepared (i1, sh1))"
  have c2: "core (fst st2) = core (i1\<lparr>head_vector := merge_ends L (head_vector i) (prepared_ends prepared)\<rparr>)"
    unfolding st2_def acknowledge_core install_prepared_core by (simp add: h1)
  obtain i3 sh3 where s3: "(if c_acks row \<noteq> [] then notify_durable L cfg st2 else st2) = (i3, sh3)" by fastforce
  have c3: "core i3 = core (fst st2)" using notify_durable_core[of L cfg st2] s3 by (metis fst_conv)
  have "core (fst (command_commit L cfg now prepared w (i, sh))) = core i3"
    unfolding command_commit_def prod.case Let_def row_def[symmetric] s1 st2_def[symmetric] s3 by simp
  then show ?thesis unfolding c3 c2 Let_def row_def[symmetric] i1 by blast
qed

context loro_laws
begin

lemma command_extra_ok:
  assumes "cfg_ok cfg" "prepared_ok L i prepared" "buffer_ok L i"
  shows "\<forall>b \<in> set (command_extra cfg prepared). batch_ok b \<and> meta_ok L (batch_bytes b)"
    "causal L (merge_ends L (log_vector i) (map p_end (buffer i))) (map (head_of L \<circ> batch_bytes) (command_extra cfg prepared))"
    "map (partial_end_vv \<circ> head_of L \<circ> batch_bytes) (command_extra cfg prepared) = prepared_ends prepared"
  using assms by (auto simp: command_extra_def prepared_ok_def prepared_ends_def cfg_ok_def valid_key_def batch_ok_def buffer_ok_def
      split: option.splits)

lemma command_tx_ok:
  assumes "cfg_ok cfg" "sys_inv L s" "sys_state s = (i, sh)" "prepared_ok L i prepared"
    and row: "row = command_assemble L cfg prepared i" "c_acks row \<noteq> []"
  shows "tx_ok L (sys_db s) (c_expected row, c_encoded row, vv_encode L (c_vector row))"
    "row_to L (log_vector i) \<lparr>update_sequence = k, update_bytes = c_encoded row, row_vector = vv_encode L (c_vector row)\<rparr> = c_vector row"
proof -
  have bo: "buffer_ok L i" using assms(2,3) by (simp add: sys_inv_def Let_def)
  note x = command_extra_ok[OF assms(1,4) bo]
  note e = command_assemble_encoded[OF row(2)[unfolded row(1)]]
  show "tx_ok L (sys_db s) (c_expected row, c_encoded row, vv_encode L (c_vector row))"
    using own_tx_ok[OF assms(2,3) x(1), of "length (buffer i)" "c_vector row"] x(2,3)
    unfolding row(1) e command_assemble_fields by simp
  show "row_to L (log_vector i) \<lparr>update_sequence = k, update_bytes = c_encoded row, row_vector = vv_encode L (c_vector row)\<rparr> = c_vector row"
    using buffer_row_ok(2)[OF bo x(1), of "length (buffer i)" "c_vector row" k] x(2,3)
    unfolding row(1) e command_assemble_fields by simp
qed

lemma command_inv:
  assumes cfg: "cfg_ok cfg" and inv: "sys_inv L s" and st: "sys_state s = (i, sh)" and fl: "sys_flight s = None"
    and pr: "prepared_ok L i prepared" and row: "row = command_assemble L cfg prepared i"
    and ins: "if c_acks row = [] then db' = sys_db s
      else insert_log_row (sys_db s) (c_expected row) (c_encoded row) (vv_encode L (c_vector row)) = Inr (db', written)"
  shows "sys_inv L (s\<lparr>sys_state := command_commit L cfg now prepared written (i, sh), sys_db := db',
      sys_acked := sys_acked s @ map p_end (buffer i) @ prepared_ends prepared,
      sys_accepted := sys_accepted s @ prepared_ends prepared\<rparr>)"
proof (cases "c_acks row = []")
  case True
  then have e: "buffer i = []" "prepared = None" using row by (simp_all add: command_assemble_fields)
  have "core (fst (command_commit L cfg now prepared written (i, sh))) = core i"
    using command_commit_core[of L cfg now prepared written i sh] e True unfolding row[symmetric] by (simp add: Let_def prepared_ends_def)
  from sys_inv_core[OF inv, of "command_commit L cfg now prepared written (i, sh)"] this st
  show ?thesis using True ins e by (simp add: prepared_ends_def sys_inv_def Let_def)
next
  case False
  then have ins': "insert_log_row (sys_db s) (c_expected row) (c_encoded row) (vv_encode L (c_vector row)) = Inr (db', written)"
    using ins by simp
  note fd = command_assemble_fields[of L cfg prepared i, folded row]
  from inv st have ok: "db_ok L (sys_db s)" and bo: "buffer_ok L i" by (simp_all add: sys_inv_def Let_def)
  have se: "db_sequence (sys_db s) = c_expected row" using ins' by (auto simp: insert_log_row_def split: if_splits)
  have ro: "row_ok L (durable_vector L (sys_db s)) \<lparr>update_sequence = db_sequence (sys_db s) + 1, update_bytes = c_encoded row, row_vector = vv_encode L (c_vector row)\<rparr>"
    using command_tx_ok(1)[OF cfg inv st pr row False] se by (simp add: tx_ok_def)
  have inv': "sys_inv L (s\<lparr>sys_db := db'\<rparr>)" by (rule insert_inv[OF inv ins' ro])
  note i = insert_ok[OF ok ins' ro]
  have sy: "synced L db' (next_sequence i - 1) (log_vector i)" using inv' st by (simp add: sys_inv_def Let_def)
  have sy': "synced L db' written (c_vector row)"
    using synced_row[OF sy, of "\<lparr>update_sequence = db_sequence (sys_db s) + 1, update_bytes = c_encoded row, row_vector = vv_encode L (c_vector row)\<rparr>" "c_vector row"]
      i se fd(2) by simp
  obtain sh1 where c: "core (fst (command_commit L cfg now prepared written (i, sh))) =
      core ((fst (retire (c_take row) written (c_vector row) (length (c_encoded row)) now (i, sh1)))\<lparr>head_vector := merge_ends L (head_vector i) (prepared_ends prepared)\<rparr>)"
    using command_commit_core[of L cfg now prepared written i sh] False unfolding row[symmetric] Let_def by auto
  let ?i' = "fst (command_commit L cfg now prepared written (i, sh))"
  have f: "next_sequence ?i' = written + 1" "log_vector ?i' = c_vector row" "buffer ?i' = []" "head_vector ?i' = c_vector row"
    "has_base ?i' = has_base i" "base_vector ?i' = base_vector i"
    using core_fields[OF c] bo fd(1,4) by (simp_all add: retire_fields buffer_ok_def)
  have cov: "covers L (c_vector row) e" if "e \<in> set (map p_end (buffer i) @ prepared_ends prepared)" for e
    using that merge_ends_covers[of e "map p_end (buffer i) @ prepared_ends prepared" "log_vector i"] fd(4) by simp
  have "list_all (covers L (durable_vector L db')) (map p_end (buffer i) @ prepared_ends prepared)"
    using cov by (auto simp: list_all_iff intro: cov_trans[OF synced_covers[OF sy']])
  moreover have "list_all (covers L (c_vector row)) (sys_accepted s @ prepared_ends prepared)"
  proof -
    have "covers L (c_vector row) (head_vector i)" using bo fd(4) by (simp add: buffer_ok_def merge_ends_grows)
    then show ?thesis using inv st cov by (auto simp: sys_inv_def Let_def list_all_iff intro: cov_trans)
  qed
  moreover have "buffer_ok L ?i'" using f by (simp add: buffer_ok_def)
  ultimately show ?thesis using inv' st fl f sy' by (simp add: sys_inv_def Let_def)
qed

lemma chain_same_prefix:
  assumes "chain L n v xs k u" "chain L n v xs' k u'" "xs @ ys = xs' @ ys'"
  shows "xs = xs' \<and> ys = ys' \<and> u = u'"
  using assms chain_to[OF assms(1)] chain_to[OF assms(2)] by (auto simp: append_eq_append_conv)

lemma compacted_inv:
  assumes inv: "sys_inv L s" and st: "sys_state s = (i, sh)" and fl: "sys_flight s = None" and th: "through \<le> next_sequence i - 1"
    and rows: "db_rows (sys_db s) = xs @ ys" "chain L (base_through (sys_db s)) (base_vec L (sys_db s)) xs through u"
    and act: "activate_log_base (sys_db s) through (vv_encode L u) sb ke old new eq = Inr (Some (db', n, bytes))"
  shows "sys_inv L (s\<lparr>sys_state := note_compacted L cfg (vv_encode L u) weight (word_of_int bytes) n (i, sh), sys_db := db'\<rparr>)"
proof -
  let ?db = "sys_db s"
  from inv st have ok: "db_ok L ?db" and sy: "synced L ?db (next_sequence i - 1) (log_vector i)" by (simp_all add: sys_inv_def Let_def)
  from ok rows(1) obtain k u' where "chain L (base_through ?db) (base_vec L ?db) xs k u'" "chain L k u' ys (db_sequence ?db) (durable_vector L ?db)"
    by (auto simp: db_ok_def chain_append)
  moreover from this(1) rows(2) have "k = through \<and> u' = u" using chain_to by metis
  ultimately have tail: "chain L through u ys (db_sequence ?db) (durable_vector L ?db)" by simp
  note a = activate_ok[OF ok loro_laws_axioms act rows(1,2) tail]
  obtain as bs v' where s2: "ys = as @ bs" "chain L through u as (next_sequence i - 1) v'" "chain L (next_sequence i - 1) v' bs (db_sequence ?db) (durable_vector L ?db)"
    using chain_split_at[OF tail th] synced_bounds[OF sy] by blast
  from sy obtain xs' ys' where s3: "db_rows ?db = xs' @ ys'" "chain L (base_through ?db) (base_vec L ?db) xs' (next_sequence i - 1) (log_vector i)"
    by (auto simp: synced_def)
  have "chain L (base_through ?db) (base_vec L ?db) (xs @ as) (next_sequence i - 1) v'" using rows(2) s2(2) by (auto simp: chain_append)
  from chain_same_prefix[OF this s3(2), of bs ys'] rows(1) s2(1) s3(1) have v': "v' = log_vector i" by simp
  have sy': "synced L db' (next_sequence i - 1) (log_vector i)" unfolding synced_def
    using a s2 v' by (intro exI[of _ as] exI[of _ bs]) simp
  have tx: "list_all (tx_ok L db') (sys_txs s)"
    using inv a by (auto simp: sys_inv_def Let_def list_all_iff tx_ok_def)
  define st' where "st' = note_compacted L cfg (vv_encode L u) weight (word_of_int bytes) n (i, sh)"
  have f: "next_sequence (fst st') = next_sequence i" "log_vector (fst st') = log_vector i" "head_vector (fst st') = head_vector i"
    "buffer (fst st') = buffer i" "has_base (fst st')" "base_vector (fst st') = u"
    using encode_roundtrip[of u] by (simp_all add: st'_def note_compacted_def Let_def)
  have b: "db_base db' \<noteq> None" using act by (auto simp: activate_log_base_def Let_def split: if_splits option.splits)
  have "buffer_ok L (fst st') = buffer_ok L i" using f by (simp add: buffer_ok_def)
  then show ?thesis using inv st fl a sy' tx f b by (simp add: sys_inv_def Let_def st'_def[symmetric])
qed

lemma command_lost_inv:
  assumes "cfg_ok cfg" "sys_inv L s" "sys_state s = (i, sh)" "prepared_ok L i prepared"
    "row = command_assemble L cfg prepared i" "c_acks row \<noteq> []"
  shows "sys_inv L (s\<lparr>sys_txs := sys_txs s @ [(c_expected row, c_encoded row, vv_encode L (c_vector row))]\<rparr>)"
  using assms(2) command_tx_ok(1)[OF assms] by (simp add: sys_inv_def Let_def)

lemma sys_step_inv:
  assumes "cfg_ok cfg" "sys_step L cfg s s'" "sys_inv L s"
  shows "sys_inv L s'"
  using assms(2,3)
proof (induction rule: sys_step.induct)
  case (ingest s i sh env socket peer seq bytes i' sh' res)
  then show ?case using ingest_inv[OF assms(1)] by blast
next
  case (fenced s why)
  then show ?case using sys_inv_fence[of s "fst (sys_state s)" "snd (sys_state s)" why "snd (sys_state s)"] by simp
next
  case (committed e bytes vector s format keys promised removed usage db' n)
  then show ?case using committed_inv insert_reserved_Inr by blast
next
  case (command s i sh prepared row db' format keys promised removed usage written now)
  from command(5) have "if c_acks row = [] then db' = sys_db s
      else insert_log_row (sys_db s) (c_expected row) (c_encoded row) (vv_encode L (c_vector row)) = Inr (db', written)"
    using insert_reserved_Inr by (simp split: if_splits)
  then show ?case using command_inv[OF assms(1) command(6,1,2,3,4)] by blast
next
  case (command_lost s i sh prepared row)
  then show ?case using command_lost_inv[OF assms(1)] by blast
qed (blast intro: flush_started_inv insert_inv flush_finished_inv compacted_inv sys_inv_core)+

lemma admitted_inv:
  assumes "db_ok L db"
  shows "sys_inv L (admitted L db sh b r n)"
proof -
  have "synced L db (db_sequence db) (durable_vector L db)"
    unfolding synced_def using assms by (intro exI[of _ "db_rows db"] exI[of _ "[]"]) (simp add: db_ok_def)
  with assms show ?thesis by (simp add: sys_inv_def admitted_def from_parts_def buffer_ok_def)
qed

lemma sys_run_inv:
  assumes "cfg_ok cfg" "db_ok L db" "(sys_step L cfg)\<^sup>*\<^sup>* (admitted L db sh b r n) s"
  shows "sys_inv L s"
  using assms(3) by (induction rule: rtranclp_induct) (auto intro: admitted_inv[OF assms(2)] sys_step_inv[OF assms(1)])

text \<open>The bytes of every durable row, then of the buffer, in order.\<close>

lemma decode_rows_ok:
  "list_all (\<lambda>r. is_ok (decode (update_bytes r))) rs \<Longrightarrow> decode_rows rs = Inr (concat (map payloads rs))"
proof (induction rs)
  case (Cons r rs)
  then obtain bs where "decode (update_bytes r) = Inr bs" by (cases "decode (update_bytes r)") auto
  with Cons show ?case by (simp add: payloads_def)
qed simp

lemma db_decodes: "db_ok L db \<Longrightarrow> decode_rows (db_rows db) = Inr (concat (map payloads (db_rows db)))"
  using chain_decodes by (intro decode_rows_ok) (fastforce simp: db_ok_def list_all_iff)

lemma replay_causal:
  assumes inv: "sys_inv L s" and st: "sys_state s = (i, sh)"
  shows "causal L (base_vec L (sys_db s)) (map (head_of L) (concat (map payloads (db_rows (sys_db s))) @ map p_bytes (buffer i)))"
    "covers L (merge_ends L (durable_vector L (sys_db s)) (map p_end (buffer i))) (head_vector i)"
proof -
  from inv st have ok: "db_ok L (sys_db s)" and bo: "buffer_ok L i" and sy: "synced L (sys_db s) (next_sequence i - 1) (log_vector i)"
    by (simp_all add: sys_inv_def Let_def)
  have cv: "covers L (durable_vector L (sys_db s)) (log_vector i)" by (rule synced_covers[OF sy])
  show "covers L (merge_ends L (durable_vector L (sys_db s)) (map p_end (buffer i))) (head_vector i)"
    using bo merge_ends_mono[OF cv] by (simp add: buffer_ok_def)
  have "causal L (durable_vector L (sys_db s)) (map (head_of L) (map p_bytes (buffer i)))"
    using bo causal_mono[OF cv] by (simp add: buffer_ok_def)
  moreover have "causal L (base_vec L (sys_db s)) (map (head_of L) (concat (map payloads (db_rows (sys_db s)))))"
    using ok chain_causal unfolding db_ok_def by blast
  ultimately show "causal L (base_vec L (sys_db s)) (map (head_of L) (concat (map payloads (db_rows (sys_db s))) @ map p_bytes (buffer i)))"
    unfolding map_append causal_append by (simp add: durable_vector_def ends_of_def)
qed

section \<open>Joining\<close>

text \<open>The scan for the first uncovered row: everything before it is covered by the client.\<close>

lemma first_uncovered_rows:
  assumes "chain L n v rows m w"
    and "first_uncovered L c (rev (map (\<lambda>r. (update_sequence r, row_vector r)) rows)) found = Inr u"
  shows "u = found \<and> (rows = [] \<or> covers L c w) \<or>
    (\<exists>xs ys k x. rows = xs @ ys \<and> ys \<noteq> [] \<and> u = Some (update_sequence (hd ys)) \<and> chain L n v xs k x \<and>
      chain L k x ys m w \<and> (xs = [] \<or> covers L c x))"
  using assms
proof (induction rows arbitrary: m w found rule: rev_induct)
  case (snoc r rows)
  from snoc.prems(1) obtain k x where ch: "chain L n v rows k x" "update_sequence r = k + 1" "row_ok L x r" "w = row_to L x r" "m = k + 1"
    by (auto simp: chain_append)
  have dv: "decode_vector L (row_vector r) = Inr w" using ch(3,4) by (simp add: row_ok_def encode_roundtrip)
  show ?case
  proof (cases "covers L c w")
    case True
    with snoc.prems(2) dv show ?thesis by simp
  next
    case False
    with snoc.prems(2) dv have
      "first_uncovered L c (rev (map (\<lambda>r. (update_sequence r, row_vector r)) rows)) (Some (update_sequence r)) = Inr u" by simp
    from snoc.IH[OF ch(1) this] consider
        (here) "u = Some (update_sequence r)" "rows = [] \<or> covers L c x"
      | (earlier) xs ys k' x' where "rows = xs @ ys" "ys \<noteq> []" "u = Some (update_sequence (hd ys))" "chain L n v xs k' x'"
          "chain L k' x' ys k x" "xs = [] \<or> covers L c x'" by blast
    then show ?thesis
    proof cases
      case here
      then show ?thesis using ch by (intro disjI2 exI[of _ rows] exI[of _ "[r]"]) auto
    next
      case earlier
      moreover have "chain L k' x' (ys @ [r]) m w" using earlier(5) ch by (auto simp: chain_append)
      ultimately show ?thesis
        by (intro disjI2 exI[of _ xs] exI[of _ "ys @ [r]"] exI[of _ k'] exI[of _ x']) auto
    qed
  qed
qed simp

text \<open>A client that covers the vector before a run of rows covers the vector after it once it
  has imported them.\<close>

lemma import_chain:
  assumes "chain L k x ys m w" "covers L c x"
  shows "covers L (merge_ends L c (ends_of L (concat (map payloads ys)))) w"
  using chain_to[OF assms(1)] merge_ends_mono[OF assms(2)] by simp

lemma rows_from:
  assumes ok: "db_ok L db" and sp: "db_rows db = xs @ ys" "chain L (base_through db) (base_vec L db) xs k x"
    "chain L k x ys (db_sequence db) w" "ys \<noteq> []"
  shows "log_rows db (update_sequence (hd ys) - 1) None = Inr ys" "decode_rows ys = Inr (concat (map payloads ys))"
proof -
  have "update_sequence (hd ys) = k + 1" using sp(3,4) by (cases ys) auto
  moreover have "0 \<le> k" using chain_to[OF sp(2)] ok by (simp add: db_ok_def)
  ultimately show "log_rows db (update_sequence (hd ys) - 1) None = Inr ys"
    using chain_filter_after[OF sp(2,3)] sp(1) by (simp add: log_rows_def)
  show "decode_rows ys = Inr (concat (map payloads ys))"
    using chain_decodes[OF sp(3)] by (intro decode_rows_ok) (simp add: list_all_iff)
qed

lemma join_parts:
  assumes "join L env socket role peer sender (Some (vv_encode L c)) (i, sh) = (st', Some (Inr r))" "jn_coverage env = Inr cov"
  shows "\<exists>u. first_uncovered L c (rev cov) None = Inr u \<and> j_vector r = vv_encode L (head_vector i) \<and>
    (j_base r = None \<longleftrightarrow> base_covered L i c) \<and>
    join_batches env (if base_covered L i c then u else (case cov of [] \<Rightarrow> None | row # _ \<Rightarrow> Some (fst row))) (map p_bytes (buffer i)) =
      Inr (j_batches r)"
proof -
  have cl: "(if vv_encode L c \<noteq> [] then decode_vector L (vv_encode L c) else Inr (vv_default L)) = Inr c"
    using encode_roundtrip[of c] by (auto simp: decode_vector_def)
  define covered where "covered = base_covered L i c"
  note j = assms(1)[unfolded join_def prod.case option.case cl sum.case assms(2) Let_def covered_def[symmetric]]
  show ?thesis unfolding covered_def[symmetric]
  proof (cases "first_uncovered L c (rev cov) None")
    case (Inr u)
    note j2 = j[unfolded Inr sum.case]
    define origin where "origin = (if covered then u else (case cov of [] \<Rightarrow> None | row # _ \<Rightarrow> Some (fst row)))"
    from j2 have "\<exists>batches. join_batches env origin (map p_bytes (buffer i)) = Inr batches"
      unfolding origin_def[symmetric] by (auto split: sum.splits)
    then obtain batches where jb: "join_batches env origin (map p_bytes (buffer i)) = Inr batches" by blast
    obtain sh2 base where b: "join_base env covered (base_bytes i) sh = (sh2, base)" by fastforce
    from j2 have "\<exists>x. base = Some (Inr x) \<and> r = \<lparr>j_vector = vv_encode L (head_vector i), j_durable_vector = vv_encode L (log_vector i),
        j_base = x, j_batches = batches, j_from_rows = (covered \<and> u \<noteq> None)\<rparr>"
      unfolding origin_def[symmetric] jb b by (auto split: sum.splits option.splits)
    then obtain x where x: "base = Some (Inr x)" "j_base r = x" "j_batches r = batches" "j_vector r = vv_encode L (head_vector i)" by auto
    have "x = None \<longleftrightarrow> covered" using b x(1)
      by (auto simp: join_base_def split: if_splits option.splits sum.splits prod.splits)
    then have "j_base r = None \<longleftrightarrow> covered" using x(2) by simp
    moreover have "join_batches env (if covered then u else (case cov of [] \<Rightarrow> None | row # _ \<Rightarrow> Some (fst row))) (map p_bytes (buffer i)) =
        Inr (j_batches r)" using jb unfolding origin_def x(3) .
    ultimately show "\<exists>u. first_uncovered L c (rev cov) None = Inr u \<and> j_vector r = vv_encode L (head_vector i) \<and>
      (j_base r = None \<longleftrightarrow> covered) \<and>
      join_batches env (if covered then u else (case cov of [] \<Rightarrow> None | row # _ \<Rightarrow> Some (fst row))) (map p_bytes (buffer i)) =
        Inr (j_batches r)" using Inr x(4) by blast
  qed (use j in simp)
qed

lemma join_complete:
  assumes inv: "sys_inv L s" and st: "sys_state s = (i, sh)"
    and cov: "jn_coverage env = Inr (log_coverage (sys_db s))"
    and rows: "\<forall>n rs. log_rows (sys_db s) n None = Inr rs \<longrightarrow> jn_rows env n = Inr rs"
    and j: "join L env socket role peer sender (Some (vv_encode L c)) (i, sh) = (st', Some (Inr r))"
  shows "j_vector r = vv_encode L (head_vector i) \<and>
    covers L (merge_ends L (if j_base r = None then c else vv_merge L c (base_vec L (sys_db s))) (ends_of L (j_batches r))) (head_vector i)"
proof -
  let ?db = "sys_db s"
  let ?c = "if j_base r = None then c else vv_merge L c (base_vec L ?db)"
  from inv st have ok: "db_ok L ?db" and bo: "buffer_ok L i" and hb: "has_base i = (db_base ?db \<noteq> None)" "base_vector i = base_vec L ?db"
    by (simp_all add: sys_inv_def Let_def)
  have ch: "chain L (base_through ?db) (base_vec L ?db) (db_rows ?db) (db_sequence ?db) (durable_vector L ?db)"
    using ok by (simp add: db_ok_def)
  obtain u where u: "first_uncovered L c (rev (log_coverage ?db)) None = Inr u"
    "j_vector r = vv_encode L (head_vector i)" "j_base r = None \<longleftrightarrow> base_covered L i c"
    and jb: "join_batches env (if base_covered L i c then u else (case log_coverage ?db of [] \<Rightarrow> None | row # _ \<Rightarrow> Some (fst row)))
      (map p_bytes (buffer i)) = Inr (j_batches r)"
    using join_parts[OF j cov] by (elim exE conjE) (rule that)
  have base: "covers L ?c (base_vec L ?db)"
  proof (cases "base_covered L i c")
    case True
    then show ?thesis using u(3) hb
      by (cases "db_base ?db") (auto simp: base_covered_def base_vec_def default_least split: if_splits)
  next
    case False
    then show ?thesis using u(3) by (auto simp: merge_right)
  qed
  have "\<exists>xs ys k x. db_rows ?db = xs @ ys \<and> chain L k x ys (db_sequence ?db) (durable_vector L ?db) \<and> covers L ?c x \<and>
      j_batches r = concat (map payloads ys) @ map p_bytes (buffer i)"
  proof (cases "base_covered L i c")
    case True
    then have c: "?c = c" and jb': "join_batches env u (map p_bytes (buffer i)) = Inr (j_batches r)" using u(3) jb by simp_all
    from first_uncovered_rows[OF ch, of c None u] u(1) consider
        (all) "u = None" "db_rows ?db = [] \<or> covers L c (durable_vector L ?db)"
      | (some) xs ys k x where "db_rows ?db = xs @ ys" "ys \<noteq> []" "u = Some (update_sequence (hd ys))"
          "chain L (base_through ?db) (base_vec L ?db) xs k x" "chain L k x ys (db_sequence ?db) (durable_vector L ?db)" "xs = [] \<or> covers L c x"
      unfolding log_coverage_def by blast
    then show ?thesis
    proof cases
      case all
      then have "covers L ?c (durable_vector L ?db)" using c base ch by auto
      moreover have "j_batches r = map p_bytes (buffer i)" using jb' all(1) by (simp add: join_batches_def)
      ultimately show ?thesis by (intro exI[of _ "db_rows ?db"] exI[of _ "[]"] exI[of _ "db_sequence ?db"] exI[of _ "durable_vector L ?db"]) simp
    next
      case some
      have "covers L ?c x" using some(4,6) base c by auto
      moreover have "j_batches r = concat (map payloads ys) @ map p_bytes (buffer i)"
        using jb' some(3) rows_from[OF ok some(1,4,5,2)] rows by (simp add: join_batches_def)
      ultimately show ?thesis using some(1,5) by blast
    qed
  next
    case False
    show ?thesis
    proof (cases "db_rows ?db")
      case Nil
      then have "j_batches r = map p_bytes (buffer i)" using jb False by (simp add: join_batches_def log_coverage_def)
      with Nil ch base show ?thesis by (intro exI[of _ "[]"] exI[of _ "base_through ?db"] exI[of _ "base_vec L ?db"]) simp
    next
      case (Cons y ys)
      have rf: "log_rows ?db (update_sequence y - 1) None = Inr (db_rows ?db)" "decode_rows (db_rows ?db) = Inr (concat (map payloads (db_rows ?db)))"
        using rows_from[OF ok _ _ ch, of "[]"] Cons by simp_all
      have "jn_rows env (update_sequence y - 1) = Inr (db_rows ?db)" using rows rf(1) by blast
      then have "join_batches env (Some (update_sequence y)) (map p_bytes (buffer i)) = Inr (concat (map payloads (db_rows ?db)) @ map p_bytes (buffer i))"
        by (simp add: join_batches_def rf(2))
      then have "j_batches r = concat (map payloads (db_rows ?db)) @ map p_bytes (buffer i)"
        using jb False Cons by (simp add: log_coverage_def)
      with ch base show ?thesis by (intro exI[of _ "[]"] exI[of _ "db_rows ?db"] exI[of _ "base_through ?db"] exI[of _ "base_vec L ?db"]) simp
    qed
  qed
  then obtain ys k x where y: "chain L k x ys (db_sequence ?db) (durable_vector L ?db)" "covers L ?c x"
    "j_batches r = concat (map payloads ys) @ map p_bytes (buffer i)" by blast
  have "ends_of L (map p_bytes (buffer i)) = map p_end (buffer i)"
    using bo pend_ends[of "buffer i"] by (simp add: buffer_ok_def ends_of_def)
  then have "covers L (merge_ends L ?c (ends_of L (j_batches r))) (merge_ends L (durable_vector L ?db) (map p_end (buffer i)))"
    using merge_ends_mono[OF import_chain[OF y(1,2)]] y(3) by simp
  then show ?thesis using u(2) cov_trans[OF _ replay_causal(2)[OF inv st]] by blast
qed

end

section \<open>A small run\<close>

definition sample_db :: db where
  "sample_db = \<lparr>db_sequence = 0, db_rows = [], db_base = None\<rparr>"

definition sample_typed :: "(byte fset, byte fset) system" where
  "sample_typed = (admitted op_loro sample_db sample_shared 0 0 0)\<lparr>sys_state := sample_accepted, sys_accepted := [{|5|}]\<rparr>"

lemma sample_cfg_ok: "cfg_ok sample_cfg"
  by (simp add: cfg_ok_def sample_cfg_def valid_key_def scalar_def MAX_BATCH_BYTES_def MAX_PEER_KEY_def len_utf8_def)

lemma sample_db_vectors: "durable_vector op_loro sample_db = {||}" "base_vec op_loro sample_db = {||}"
  by (simp_all add: durable_vector_def base_vec_def sample_db_def)

lemma sample_db_ok: "db_ok op_loro sample_db"
  by (simp add: db_ok_def sample_db_vectors) (simp add: base_through_def sample_db_def)

lemma sample_run: "(sys_step op_loro sample_cfg)\<^sup>*\<^sup>* (admitted op_loro sample_db sample_shared 0 0 0) sample_typed"
proof -
  let ?s0 = "admitted op_loro sample_db sample_shared 0 0 0"
  have a: "sys_state ?s0 = (sample_inner, sample_shared)"
    by (simp add: admitted_def sample_inner_def sample_db_vectors) (simp add: sample_db_def)
  let ?s1 = "?s0\<lparr>sys_state := (sample_inner\<lparr>subscribers := [(1, sample_reader)]\<rparr>, sample_shared)\<rparr>"
  have 1: "sys_step op_loro sample_cfg ?s0 ?s1" by (rule sys_step.quiet) (simp add: a)
  obtain res where r: "ingest op_loro sample_cfg sample_env 2 (lit ''2'') 1 [0, 5] (sample_inner\<lparr>subscribers := [(1, sample_reader)]\<rparr>, sample_shared) =
      ((fst sample_accepted, snd sample_accepted), res)" by (metis prod.collapse sample_accepted_def)
  have b: "buffer (sample_inner\<lparr>subscribers := [(1, sample_reader)]\<rparr>) = []" by (simp add: sample_inner_def from_parts_def)
  have ends: "map p_end (buffer (fst sample_accepted)) = [{|5|}]" using sample_accepted_facts by (simp add: new_batch_def)
  have "sys_step op_loro sample_cfg ?s1 (?s1\<lparr>sys_state := (fst sample_accepted, snd sample_accepted),
      sys_accepted := sys_accepted ?s1 @ map p_end (drop (length (buffer (sample_inner\<lparr>subscribers := [(1, sample_reader)]\<rparr>))) (buffer (fst sample_accepted)))\<rparr>)"
    by (rule sys_step.ingest[OF _ r]) (simp_all add: valid_key_def scalar_def)
  then have 2: "sys_step op_loro sample_cfg ?s1 sample_typed"
    unfolding b by (simp add: ends sample_typed_def) (simp add: admitted_def)
  from 1 2 show ?thesis by (meson r_into_rtranclp rtranclp_trans)
qed

section \<open>Properties\<close>







text \<open>C12: a join leaves nothing out.  A client that joins with any version vector and imports what
  the reply carries (the base when it is sent, the rows from the first one it does not cover, and
  the buffer) holds everything the head vector of the reply claims.\<close>

theorem join_reply_complete:
  assumes "loro_laws L" "cfg_ok cfg" "db_ok L db"
    and "(sys_step L cfg)\<^sup>*\<^sup>* (admitted L db sh b r n) s" "sys_state s = (i, sh')"
    and "jn_coverage env = Inr (log_coverage (sys_db s))"
    and "\<forall>n rs. log_rows (sys_db s) n None = Inr rs \<longrightarrow> jn_rows env n = Inr rs"
    and "join L env socket role peer sender (Some (vv_encode L c)) (i, sh') = (st', Some (Inr reply))"
  shows "j_vector reply = vv_encode L (head_vector i) \<and>
    covers L (merge_ends L (if j_base reply = None then c else vv_merge L c (base_vec L (sys_db s))) (ends_of L (j_batches reply)))
      (head_vector i)"
  using loro_laws.join_complete[OF assms(1) loro_laws.sys_run_inv[OF assms(1-4)] assms(5-8)] .

theorem join_reply_complete_witness:
  "\<exists>st reply. join op_loro sample_join 3 Editor (lit ''3'') (channel 4 1000 None None) (Some (vv_encode op_loro {||})) sample_accepted =
      (st, Some (Inr reply)) \<and>
    covers op_loro (merge_ends op_loro {||} (ends_of op_loro (j_batches reply))) {|5|}"
proof -
  define i where "i = fst sample_accepted"
  have f: "fenced i = None" "\<not> has_base i" "head_vector i = {|5|}" using sample_accepted_facts by (simp_all add: i_def)
  obtain st reply where j: "join op_loro sample_join 3 Editor (lit ''3'') (channel 4 1000 None None) (Some (vv_encode op_loro {||}))
      (i, snd sample_accepted) = (st, Some (Inr reply))" and nb: "j_base reply = None"
    using f by (simp add: join_def sample_join_def decode_vector_def writable_def base_covered_def join_batches_def join_base_def Let_def)
  have db: "sys_db sample_typed = sample_db" by (simp add: sample_typed_def admitted_def)
  from join_reply_complete[OF ops.loro_laws_axioms sample_cfg_ok sample_db_ok sample_run _ _ _ j] nb f(3)
  have "covers op_loro (merge_ends op_loro {||} (ends_of op_loro (j_batches reply))) {|5|}"
    by (simp add: i_def db) (simp add: sample_typed_def sample_join_def log_coverage_def log_rows_def sample_db_def)
  with j show ?thesis by (auto simp: i_def)
qed

end
