(* ===== verification/Sequencer_Books.thy ===== *)
theory Sequencer_Books
  imports Sequencer_Log
begin

text \<open>
  The byte accounting of the buffer: what each batch is charged, that the two totals are the sums
  over the buffer, that the document's pending charge stays within the maximum the configuration
  reserves scratch for, and therefore that a flush always finds its scratch large enough.
\<close>

definition charge_ok :: "'v pending_batch \<Rightarrow> bool" where
  "charge_ok p \<longleftrightarrow> unat (res_bytes (p_charge p)) = length (p_bytes p) + overhead (p_peer_key p)"

definition books_ok :: "seq_config \<Rightarrow> ('v, 'd) inner \<Rightarrow> bool" where
  "books_ok cfg i \<longleftrightarrow> list_all charge_ok (buffer i) \<and>
    buffer_bytes i = sum_list (map (\<lambda>p. length (p_bytes p)) (buffer i)) \<and>
    charged_bytes i = sum_list (map (\<lambda>p. unat (res_bytes (p_charge p))) (buffer i)) \<and>
    charged_bytes i \<le> max_pending_charge (log_quota_bytes cfg)"

lemma books_core: "core i = core j \<Longrightarrow> books_ok cfg i = books_ok cfg j"
  using core_fields(4,5,6)[of i j] by (simp add: books_ok_def)

lemma bytes_le_charge: "list_all charge_ok ps \<Longrightarrow>
    sum_list (map (\<lambda>p. length (p_bytes p)) ps) \<le> sum_list (map (\<lambda>p. unat (res_bytes (p_charge p))) ps)"
  by (induction ps) (auto simp: charge_ok_def)

lemma unat_of_small: "n < 2 ^ 64 \<Longrightarrow> unat (word_of_nat n :: u64) = n"
  by (simp add: unat_of_nat)

text \<open>The largest charge of one update, and the room a configuration leaves above it.\<close>

lemma single_charge:
  assumes "passed_checks L cfg peer bytes i h"
  shows "length bytes + overhead peer \<le> max_pending_charge (log_quota_bytes cfg)"
  using assms by (auto simp: passed_checks_def overhead_def max_pending_charge_def max_update_bytes_def Let_def
      BATCH_HEADER_BYTES_def MAX_PEER_KEY_def)

lemma ceiling_le: "BUFFER_CEILING_BYTES \<le> max_pending_charge q"
  by (simp add: max_pending_charge_def Let_def)

lemma usize_add_small: "usize_add a b < usize_max \<Longrightarrow> usize_add a b = a + b"
  by (simp add: usize_add_def min_def split: if_splits)

lemma accept_books:
  assumes room: "max_row_bytes (log_quota_bytes cfg) < 2 ^ 64" and books: "books_ok cfg i" and pc: "passed_checks L cfg peer bytes i h"
    and r: "try_retain b (word_of_nat (usize_add (length bytes) (overhead peer))) = (b', Inr r)"
  shows "books_ok cfg (fst (accept_batch L cfg now socket peer seq bytes h r d key digest (i, sh)))"
proof -
  let ?q = "log_quota_bytes cfg"
  have mr: "max_pending_charge ?q < usize_max" using room by (simp add: max_row_bytes_def usize_max_def)
  have c1: "usize_add (length bytes) (overhead peer) = length bytes + overhead peer"
    using single_charge[OF pc] mr by (simp add: usize_add_def)
  have rb: "unat (res_bytes r) = length bytes + overhead peer"
    unfolding retain_charge[OF r] c1 reservation.select_convs
    by (rule unat_of_small) (use single_charge[OF pc] mr in \<open>simp add: usize_max_def\<close>)
  have c2: "usize_add (charged_bytes i) (length bytes + overhead peer) = charged_bytes i + (length bytes + overhead peer) \<and>
      charged_bytes i + (length bytes + overhead peer) \<le> max_pending_charge ?q"
  proof (cases "buffer i = []")
    case True
    then have "charged_bytes i = 0" using books by (simp add: books_ok_def)
    then show ?thesis using single_charge[OF pc] mr by (simp add: usize_add_def)
  next
    case False
    then have le: "usize_add (charged_bytes i) (length bytes + overhead peer) \<le> BUFFER_CEILING_BYTES"
      using pc c1 by (simp add: passed_checks_def)
    also note ceiling_le[of ?q]
    finally show ?thesis using usize_add_small[of "charged_bytes i" "length bytes + overhead peer"] mr by simp
  qed
  have "buffer_bytes i + length bytes \<le> charged_bytes i + (length bytes + overhead peer)"
    using books bytes_le_charge[of "buffer i"] by (simp add: books_ok_def)
  then have c3: "usize_add (buffer_bytes i) (length bytes) = buffer_bytes i + length bytes"
    using c2 mr by (simp add: usize_add_def)
  show ?thesis
    unfolding books_core[OF accept_batch_core]
    using books c2 c3 rb by (simp add: books_ok_def charge_ok_def new_batch_def)
qed

lemma ingest_books:
  assumes "max_row_bytes (log_quota_bytes cfg) < 2 ^ 64" "books_ok cfg (fst st)"
  shows "books_ok cfg (fst (fst (ingest L cfg env socket peer seq bytes st)))"
proof -
  obtain i sh i' sh' res where st: "st = (i, sh)" and r: "ingest L cfg env socket peer seq bytes (i, sh) = ((i', sh'), res)"
    by (metis surj_pair)
  show ?thesis
  proof (cases "ingest_accepts L cfg env socket peer seq bytes i sh (i', sh') res")
    case True
    then obtain h b res' where "passed_checks L cfg peer bytes i h"
      "try_retain (sh_pending sh) (word_of_nat (usize_add (length bytes) (overhead peer))) = (b, Inr res')"
      and "(i', sh') = accept_batch L cfg (in_now env) socket peer seq bytes h res'
        (int (unat (saturating_add (res_bytes res') (word_of_nat ROW_HEADER_BYTES))))
        (durable_reservation_key cfg peer seq (sha256 cfg bytes)) (sha256 cfg bytes) (i, sh\<lparr>sh_pending := b\<rparr>)"
      by (auto simp: ingest_accepts_def)
    with accept_books[OF assms(1) _ this(1,2)] assms(2) st r show ?thesis by (metis fst_conv)
  next
    case False
    then have "core i' = core i" using ingest_cases[OF r] by (auto simp: ingest_refuses_def) (metis acknowledge_core(2) fst_conv)
    with books_core[OF this] assms(2) st r show ?thesis by simp
  qed
qed

lemma sum_list_drop_le: "sum_list (map f (drop n xs)) \<le> sum_list (map f xs)" for f :: "_ \<Rightarrow> nat"
  by (metis append_take_drop_id le_add2 map_append sum_list_append)

lemma retire_books:
  assumes "books_ok cfg (fst st)"
  shows "books_ok cfg (fst (retire n w v b now st))"
  using assms sum_list_drop_le[of "\<lambda>p. unat (res_bytes (p_charge p))" n "buffer (fst st)"]
  by (auto simp: books_ok_def retire_def split_def Let_def list_all_iff dest: in_set_dropD)

lemma fence_books: "books_ok cfg (fst st) \<Longrightarrow> books_ok cfg (fst (fence why st))"
  by (simp add: fence_def close_all_def split_def books_ok_def)

lemma flush_finish_books:
  assumes "books_ok cfg (fst st)"
  shows "books_ok cfg (fst (fst (flush_finish L cfg snap answer sequence rows now st)))"
proof -
  obtain i sh where st: "st = (i, sh)" by fastforce
  have w: "books_ok cfg (fst (flush_written L cfg snap k now (i, sh)))" for k
  proof -
    obtain sh' where c: "core (fst (flush_written L cfg snap k now (i, sh))) =
        core (fst (retire (s_take snap) k (s_vector snap) (length (s_encoded snap)) now (i, sh')))"
      using flush_written_core[of L cfg snap k now i sh] by (elim exE)
    show ?thesis unfolding books_core[OF c] by (rule retire_books) (use assms st in simp)
  qed
  have f: "books_ok cfg (fst (fence why (i, x)))" for why x
    by (rule fence_books) (use assms st in simp)
  show ?thesis using w f assms unfolding st flush_finish_def
    by (auto split: sum.splits seq_error.splits)
qed

lemma head_books [simp]: "books_ok cfg (j\<lparr>head_vector := v\<rparr>) = books_ok cfg j"
  by (simp add: books_ok_def)

lemma command_books:
  assumes "books_ok cfg (fst st)"
  shows "books_ok cfg (fst (command_commit L cfg now prepared w st))"
proof -
  obtain i sh where st: "st = (i, sh)" by fastforce
  let ?row = "command_assemble L cfg prepared i"
  obtain sh1 where c: "core (fst (command_commit L cfg now prepared w (i, sh))) =
      core ((if c_acks ?row \<noteq> [] then fst (retire (c_take ?row) w (c_vector ?row) (length (c_encoded ?row)) now (i, sh1)) else i)
        \<lparr>head_vector := merge_ends L (head_vector i) (prepared_ends prepared)\<rparr>)"
    using command_commit_core[of L cfg now prepared w i sh] unfolding Let_def by (elim exE)
  have "books_ok cfg (fst (retire n w v b now (i, sh1)))" for n v b by (rule retire_books) (use assms st in simp)
  then show ?thesis using assms unfolding st books_core[OF c] head_books by (simp split: if_split)
qed

lemma build_core: "core (fst (fst (build L env st))) = core (fst st)"
  by (cases st) (auto simp: build_def build_import_def Let_def split: option.splits prod.splits sum.splits)

lemma drop_cache_core: "core (fst (drop_cache st)) = core (fst st)"
  using drop_cached_core[of st] by (simp add: drop_cache_def split_def)

lemma join_core: "core (fst (fst (join L env socket role peer sender v st))) = core (fst st)"
proof (cases st)
  case (Pair i sh)
  define c where "c = (case v of Some bs \<Rightarrow> if bs \<noteq> [] then decode_vector L bs else Inr (vv_default L) | None \<Rightarrow> Inr (vv_default L))"
  show ?thesis unfolding Pair join_def prod.case c_def[symmetric] Let_def
    by (cases c; cases "jn_coverage env"; simp split: sum.split option.split prod.split)
qed

lemma recheck_core: "core (fst (recheck_compaction cfg now st)) = core (fst st)"
  by (simp add: recheck_compaction_def split_def)

lemma trim_core: "core (fst (reset_after_trim why st)) = core (fst st)"
  by (simp add: reset_after_trim_def drop_cache_core)

lemma seq_op_books:
  assumes "seq_op L cfg a b" "max_row_bytes (log_quota_bytes cfg) < 2 ^ 64" "books_ok cfg (fst a)"
  shows "books_ok cfg (fst b)"
  using assms
proof (induction rule: seq_op.induct)
  case (build env st i sh c)
  from books_core[OF build_core, of cfg L env st] build show ?case by (simp add: books_ok_def)
next
  case (compacted st v b r n)
  then show ?case by (simp add: note_compacted_def split_def Let_def books_ok_def)
qed (simp_all add: ingest_books flush_finish_books command_books fence_books books_core[OF join_core] books_core[OF drop_cache_core]
    books_core[OF recheck_core] books_core[OF trim_core] books_ok_def[of _ "_\<lparr>subscribers := _\<rparr>"] unsubscribe_def Let_def
    books_ok_def[symmetric])

section \<open>The row of a flush and its scratch\<close>

lemma length_encode: "length (encode bs) = ROW_HEADER_BYTES + sum_list (map (\<lambda>b. overhead (peer_key b) + length (batch_bytes b)) bs)"
  by (simp add: encode_framed ROW_HEADER_BYTES_def length_concat length_framed comp_def)

lemma sum_charges: "list_all charge_ok ps \<Longrightarrow>
    sum_list (map (\<lambda>p. unat (res_bytes (p_charge p))) ps) = sum_list (map (\<lambda>b. overhead (peer_key b) + length (batch_bytes b)) (map to_batch ps))"
  by (induction ps) (simp_all add: charge_ok_def to_batch_def)

lemma encoded_length:
  assumes "books_ok cfg i"
  shows "length (encode_prefix i (length (buffer i))) = ROW_HEADER_BYTES + charged_bytes i"
    "charge_of i (length (buffer i)) = charged_bytes i"
  using assms sum_charges[of "buffer i"] by (simp_all add: encode_prefix_eq length_encode books_ok_def charge_of_def)

lemma driver_le_scratch: "unat a \<le> unat b \<Longrightarrow> unat (driver_scratch_for a) \<le> unat (scratch_for b)"
  by (simp add: scratch_for_def driver_scratch_for_def SCRATCH_SLACK_def unat_saturating_add unat_saturating_mul min_def)

lemma snapshot_starts:
  assumes "books_ok cfg i" "max_row_bytes (log_quota_bytes cfg) < 2 ^ 64"
    and "ROW_HEADER_BYTES + charged_bytes i \<le> row" "row < 2 ^ 64" "res_bytes r = scratch_for (word_of_nat row)"
  shows "\<exists>snap. flush_snapshot_of L i r = Started snap \<and> length (s_encoded snap) = ROW_HEADER_BYTES + charged_bytes i"
proof -
  let ?n = "length (buffer i)"
  have l: "length (encode_prefix i ?n) = ROW_HEADER_BYTES + charged_bytes i" by (rule encoded_length(1)[OF assms(1)])
  have "unat (word_of_nat (length (encode_prefix i ?n)) :: u64) \<le> unat (word_of_nat row :: u64)"
    unfolding l using assms(3,4) by (simp add: unat_of_small del: of_nat_add)
  from driver_le_scratch[OF this] have "driver_scratch_for (word_of_nat (length (encode_prefix i ?n))) \<le> res_bytes r"
    unfolding assms(5) by (simp add: word_le_nat_alt)
  then show ?thesis using l by (simp add: flush_snapshot_of_def split_reservation_def Let_def not_less del: of_nat_add)
qed

text \<open>The scratch a flush was given before it took its snapshot.\<close>

lemma try_scratch_bytes: "try_scratch b n = (b', Inr r) \<Longrightarrow> res_bytes r = n"
  by (auto simp: try_scratch_def split: option.splits)

lemma reserve_scratch_bytes: "reserve_scratch b n wakes = (b', Some (Inr r)) \<Longrightarrow> res_bytes r = n"
  by (auto simp: reserve_scratch_def Let_def dest: try_scratch_bytes split: option.splits sum.splits prod.splits if_splits)

lemma flush_begin_starts:
  assumes b: "books_ok cfg i" and q: "max_row_bytes (log_quota_bytes cfg) < 2 ^ 64"
    and r: "flush_begin L cfg reason wakes i sh = (sh', start)"
  shows "start = Waiting \<or> start = Nothing \<or> (\<exists>e. start = Not_Started e) \<or>
    (\<exists>snap. start = Started snap \<and> length (s_encoded snap) = ROW_HEADER_BYTES + charged_bytes i)"
proof -
  have le: "ROW_HEADER_BYTES + charged_bytes i \<le> max_row_bytes (log_quota_bytes cfg)"
    using b by (simp add: books_ok_def max_row_bytes_def ROW_HEADER_BYTES_def)
  then have row: "usize_add ROW_HEADER_BYTES (charge_of i (length (buffer i))) = ROW_HEADER_BYTES + charged_bytes i"
    using q by (simp add: usize_add_def usize_max_def encoded_length(2)[OF b])
  note own = snapshot_starts[OF b q order_refl, OF le_less_trans[OF le q]]
  note drain = snapshot_starts[OF b q le q]
  show ?thesis
  proof (cases "drain_reason reason")
    case True
    with r drain reserve_scratch_bytes show ?thesis
      by (fastforce simp: flush_begin_def flush_locked_def Let_def split: option.splits sum.splits prod.splits if_splits)
  next
    case False
    with r own try_scratch_bytes row show ?thesis
      by (fastforce simp: flush_begin_def flush_locked_def Let_def simp del: of_nat_add split: sum.splits prod.splits if_splits)
  qed
qed

section \<open>Property\<close>

text \<open>C14: a flush never panics on its scratch.  Whatever was typed, flushed and commanded before,
  the row a flush encodes has exactly the length of its header and the charges it holds, which is
  within the longest row the configuration names, and the scratch reserved before the row exists
  is always enough to hand the driver its part.\<close>

theorem flush_never_panics:
  assumes "(seq_op L cfg)\<^sup>*\<^sup>* (from_parts n v b r k bv has, sh) (i, sh')" "max_row_bytes (log_quota_bytes cfg) < 2 ^ 64"
    and "flush_begin L cfg reason wakes i sh' = (sh'', start)"
  shows "start \<noteq> Panicked \<and> (\<forall>snap. start = Started snap \<longrightarrow>
    length (s_encoded snap) = ROW_HEADER_BYTES + charged_bytes i \<and> length (s_encoded snap) \<le> max_row_bytes (log_quota_bytes cfg))"
proof -
  have "books_ok cfg (fst (from_parts n v b r k bv has, sh))" by (simp add: books_ok_def from_parts_def)
  with assms(1) have "books_ok cfg (fst (i, sh'))"
    by (induction rule: rtranclp_induct) (auto dest: seq_op_books[OF _ assms(2)])
  then have b: "books_ok cfg i" by simp
  then have "charged_bytes i \<le> max_pending_charge (log_quota_bytes cfg)" by (simp add: books_ok_def)
  with flush_begin_starts[OF b assms(2,3)] show ?thesis by (auto simp: max_row_bytes_def ROW_HEADER_BYTES_def)
qed

theorem flush_never_panics_witness:
  "\<exists>sh snap. flush_begin op_loro sample_cfg Quiet [] (fst sample_accepted) (snd sample_accepted) = (sh, Started snap) \<and>
    length (s_encoded snap) = ROW_HEADER_BYTES + 17"
proof -
  have run: "(seq_op op_loro sample_cfg)\<^sup>*\<^sup>* (from_parts 1 {||} 0 0 0 {||} False, sample_shared)
      (fst sample_accepted, snd sample_accepted)"
    using sample_seq_run by (simp add: sample_inner_def)
  define i sh where "i = fst sample_accepted" and "sh = snd sample_accepted"
  have f: "fenced i = None" "buffer i \<noteq> []" "charged_bytes i = 17" "charge_of i (length (buffer i)) = 17"
      "scratch (sh_pending sh) = new_pool 100000"
    using sample_accepted_facts by (simp_all add: i_def sh_def charge_of_def new_batch_def)
  obtain sh' start where s: "flush_begin op_loro sample_cfg Quiet [] i sh = (sh', start)" by fastforce
  then have "start = Panicked \<or> (\<exists>snap. start = Started snap)"
    using f by (auto simp: flush_begin_def drain_reason_def flush_locked_def writable_def Let_def try_scratch_def new_pool_def try_take_def
        checked_add_def usize_add_def usize_max_def ROW_HEADER_BYTES_def scratch_for_def driver_scratch_for_def SCRATCH_SLACK_def
        saturating_add_def saturating_mul_def flush_snapshot_of_def split: option.splits)
  moreover have "max_row_bytes (log_quota_bytes sample_cfg) < 2 ^ 64"
    by (simp add: max_row_bytes_def max_pending_charge_def max_update_bytes_def sample_cfg_def Let_def BUFFER_CEILING_BYTES_def FLUSH_TRIGGER_BYTES_def
        BATCH_HEADER_BYTES_def MAX_PEER_KEY_def)
  ultimately show ?thesis
    using flush_never_panics[OF run, of Quiet "[]" sh' start] s f(3) by (auto simp: i_def sh_def)
qed

end
