(* ===== verification/Track_Plan.thy ===== *)
theory Track_Plan
  imports Complex_Main Prelude "HOL-Library.Product_Lexorder" "HOL-Library.List_Lexorder"
begin

text \<open>
  The tracked-changes planner of \<open>document/track.rs\<close>: its records, \<open>plan_edits\<close> and
  \<open>plan_one\<close> with their helpers, in code points.  \<open>plan_one\<close> is given one definition for
  each stage of the source, composed in the source's order.  The source's \<open>mint\<close> closure is a
  stream of ids, \<open>mint k\<close> being the \<open>k\<close>-th one it answers, with the next index threaded
  through the stages that call it.

  A rank is a finite double, held as a rational; the planner only carries ranks.
\<close>

section \<open>Records\<close>

record author =
  who :: ustr
  author_name :: ustr

record change_record =
  c_id :: ustr
  c_who :: ustr
  c_author :: ustr
  c_run :: "ustr option"
  c_at :: int
  c_from :: nat
  c_to :: nat
  emptied :: bool
  c_stale :: bool
  orphan :: bool

record fragment =
  f_id :: "ustr option"
  f_change :: ustr
  f_text :: ustr
  f_rank :: "rat option"
  f_stale :: bool

record gap =
  g_id :: ustr
  g_at :: nat
  fragments :: "fragment list"
  g_stale :: bool

record file_state =
  fs_changes :: "change_record list"
  fs_gaps :: "gap list"

datatype plan_state = Kept | Set | Removed

type_synonym row = "change_record \<times> plan_state"
type_synonym gap_row = "gap \<times> plan_state"

record plan =
  plan_changes :: "row list"
  plan_gaps :: "gap_row list"

section \<open>Helpers\<close>

definition has_span :: "change_record \<Rightarrow> bool" where
  "has_span c \<longleftrightarrow> c_to c > c_from c"

definition span_end_at :: "row list \<Rightarrow> nat \<Rightarrow> nat option" where
  "span_end_at changes p =
    map_option (\<lambda>(c, _). c_to c) (find (\<lambda>(c, _). has_span c \<and> c_from c \<le> p \<and> p < c_to c) changes)"

definition push_fragment ::
  "fragment list \<Rightarrow> ustr \<Rightarrow> ustr \<Rightarrow> ustr option \<Rightarrow> rat option \<Rightarrow> fragment list" where
  "push_fragment l change txt nm rank =
    (if l \<noteq> [] \<and> f_change (last l) = change \<and> f_id (last l) = None \<and> nm = None
     then butlast l @ [(last l)\<lparr>f_text := f_text (last l) @ txt\<rparr>]
     else l @ [\<lparr>f_id = nm, f_change = change, f_text = txt, f_rank = rank, f_stale = False\<rparr>])"

definition push_unique :: "ustr list \<Rightarrow> ustr \<Rightarrow> ustr list" where
  "push_unique ids nm = (if nm \<in> set ids then ids else ids @ [nm])"

definition take_id :: "(nat \<Rightarrow> ustr) \<Rightarrow> nat \<Rightarrow> ustr list \<Rightarrow> ustr \<times> ustr list \<times> nat" where
  "take_id mint k ids = (case ids of [] \<Rightarrow> (mint k, [], Suc k) | nm # rest \<Rightarrow> (nm, rest, k))"

text \<open>\<open>Iterator::min_by\<close>: the first of the least elements.\<close>

fun min_by :: "('a \<Rightarrow> 'a \<Rightarrow> bool) \<Rightarrow> 'a list \<Rightarrow> 'a option" where
  "min_by le [] = None"
| "min_by le (x # xs) = (case min_by le xs of None \<Rightarrow> Some x | Some y \<Rightarrow> Some (if le x y then x else y))"

definition find_change :: "row list \<Rightarrow> ustr \<Rightarrow> change_record option" where
  "find_change changes nm = map_option fst (find (\<lambda>(c, _). c_id c = nm) changes)"

definition shift :: "nat \<Rightarrow> nat \<Rightarrow> nat \<Rightarrow> nat \<Rightarrow> nat" where
  "shift ef et len p = nat (int p + (int len - int (et - ef)))"

section \<open>The stages of \<open>plan_one\<close>\<close>

definition swallowed_gaps :: "gap_row list \<Rightarrow> nat \<Rightarrow> nat \<Rightarrow> gap list" where
  "swallowed_gaps gaps ef et = map fst (filter (\<lambda>(g, _). g_at g \<ge> ef \<and> g_at g \<le> et) gaps)"

definition first_span :: "row list \<Rightarrow> author \<Rightarrow> nat \<Rightarrow> nat \<Rightarrow> change_record option" where
  "first_span changes me ef et =
    min_by (\<lambda>a b. c_from a < c_from b \<or> c_from a = c_from b \<and> c_id a \<le> c_id b)
      (map fst (filter (\<lambda>(c, _). c_who c = who me \<and> has_span c \<and> c_from c \<le> et \<and> c_to c \<ge> ef) changes))"

definition own_deletions :: "row list \<Rightarrow> author \<Rightarrow> gap list \<Rightarrow> ustr list \<Rightarrow> ustr list" where
  "own_deletions changes me sw owned =
    fold (\<lambda>g ids. fold (\<lambda>f ids.
        case find_change changes (f_change f) of
          Some c \<Rightarrow> if c_who c = who me \<and> \<not> has_span c \<and> \<not> orphan c then push_unique ids (c_id c) else ids
        | None \<Rightarrow> ids) (fragments g) ids) sw owned"

definition plan_owned :: "row list \<Rightarrow> gap_row list \<Rightarrow> nat \<Rightarrow> nat \<Rightarrow> author \<Rightarrow> ustr list" where
  "plan_owned changes gaps ef et me =
    own_deletions changes me (swallowed_gaps gaps ef et)
      (case first_span changes me ef et of Some c \<Rightarrow> push_unique [] (c_id c) | None \<Rightarrow> [])"

definition removes_original :: "row list \<Rightarrow> nat \<Rightarrow> nat \<Rightarrow> bool" where
  "removes_original changes ef et = list_ex (\<lambda>p. span_end_at changes p = None) [ef..<et]"

definition plan_mine ::
  "row list \<Rightarrow> ustr list \<Rightarrow> nat \<Rightarrow> author \<Rightarrow> ustr option \<Rightarrow> int \<Rightarrow> (nat \<Rightarrow> ustr) \<Rightarrow> nat \<Rightarrow> change_record \<times> nat" where
  "plan_mine changes owned ef me run now mint k =
    (case min_by (\<lambda>a b. c_from a \<le> c_from b) (List.map_filter (find_change changes) owned) of
       Some c \<Rightarrow> (c\<lparr>c_run := (if run = None then c_run c else run), c_at := now,
                    emptied := False, orphan := False\<rparr>, k)
     | None \<Rightarrow> (\<lparr>c_id = mint k, c_who = who me, c_author = author_name me, c_run = run, c_at = now,
                c_from = ef, c_to = ef, emptied = False, c_stale = False, orphan = False\<rparr>, Suc k))"

definition widen_mine :: "row list \<Rightarrow> ustr list \<Rightarrow> nat \<Rightarrow> nat \<Rightarrow> nat \<Rightarrow> change_record \<Rightarrow> change_record" where
  "widen_mine changes owned ef et len m =
    (let (from, to) = fold (\<lambda>nm (from, to).
        case find_change changes nm of
          None \<Rightarrow> (from, to)
        | Some c \<Rightarrow>
            if \<not> has_span c then (from, to)
            else (min from (c_from c), if c_to c > et then max to (shift ef et len (c_to c)) else to))
        owned (ef, ef + len)
     in m\<lparr>c_from := from, c_to := to\<rparr>)"

definition own_at_end :: "row list \<Rightarrow> gap list \<Rightarrow> ustr list \<Rightarrow> author \<Rightarrow> nat \<Rightarrow> bool" where
  "own_at_end changes sw owned me et \<longleftrightarrow>
    list_ex (\<lambda>(c, _). c_who c = who me \<and> has_span c \<and> c_from c = et \<and> c_id c \<in> set owned) changes \<or>
    list_ex (\<lambda>g. g_at g = et \<and> list_ex (\<lambda>f. f_change f \<in> set owned) (fragments g)) sw"

text \<open>The walk over the points of the edit.  \<open>mine\<close> is the id of the change the edit writes,
  if it writes one; the pair is (\<open>merged\<close>, \<open>after\<close>).\<close>

definition owner_now :: "ustr option \<Rightarrow> ustr list \<Rightarrow> ustr \<Rightarrow> ustr" where
  "owner_now mine owned change =
    (case mine of Some m \<Rightarrow> if change \<in> set owned then m else change | None \<Rightarrow> change)"

definition walk_gaps ::
  "ustr option \<Rightarrow> ustr list \<Rightarrow> gap list \<Rightarrow> bool \<Rightarrow> nat \<Rightarrow> nat \<Rightarrow> fragment list \<times> fragment list
    \<Rightarrow> fragment list \<times> fragment list" where
  "walk_gaps mine owned sw split et p =
    fold (\<lambda>g. fold (\<lambda>f (merged, after).
        let change = owner_now mine owned (f_change f) in
        if split \<and> p = et
        then (merged, push_fragment after change (f_text f) (f_id f) (f_rank f))
        else (push_fragment merged change (f_text f) (f_id f) (f_rank f), after)) (fragments g))
      (filter (\<lambda>g. g_at g = p) sw)"

definition walk_point ::
  "ustr \<Rightarrow> row list \<Rightarrow> ustr option \<Rightarrow> ustr list \<Rightarrow> gap list \<Rightarrow> bool \<Rightarrow> nat \<Rightarrow> nat
    \<Rightarrow> fragment list \<times> fragment list \<Rightarrow> fragment list \<times> fragment list" where
  "walk_point cur changes mine owned sw split et p acc =
    (let (merged, after) = walk_gaps mine owned sw split et p acc in
     case mine of
       Some m \<Rightarrow>
         if p < length cur \<and> p < et \<and> span_end_at changes p = None
         then (push_fragment merged m [cur ! p] None None, after)
         else (merged, after)
     | None \<Rightarrow> (merged, after))"

definition plan_walk ::
  "ustr \<Rightarrow> row list \<Rightarrow> ustr option \<Rightarrow> ustr list \<Rightarrow> gap list \<Rightarrow> bool \<Rightarrow> nat \<Rightarrow> nat \<Rightarrow> fragment list \<times> fragment list" where
  "plan_walk cur changes mine owned sw split ef et =
    fold (walk_point cur changes mine owned sw split et) [ef..<Suc et] ([], [])"

text \<open>What one record that is not merged becomes: the row that stays, and the row split off
  behind an insertion inside it.\<close>

definition emptied_at :: "nat \<Rightarrow> change_record \<Rightarrow> row" where
  "emptied_at p c = (c\<lparr>c_from := p, c_to := p, emptied := True\<rparr>, Kept)"

definition span_row ::
  "nat \<Rightarrow> nat \<Rightarrow> nat \<Rightarrow> (nat \<Rightarrow> ustr) \<Rightarrow> row \<Rightarrow> nat \<Rightarrow> row \<times> row list \<times> nat" where
  "span_row ef et len mint r k =
    (let (c, st) = r in
     if \<not> has_span c then ((c, st), [], k)
     else if c_to c \<le> ef then ((c, if len > 0 \<and> c_to c = ef then Set else st), [], k)
     else if c_from c \<ge> et then
       ((c\<lparr>c_from := shift ef et len (c_from c), c_to := shift ef et len (c_to c)\<rparr>,
         if len > 0 \<and> c_from c = et then Set else st), [], k)
     else if c_from c < ef \<and> c_to c > et \<and> len > 0 then
       ((c\<lparr>c_to := ef\<rparr>, Set),
        [(c\<lparr>c_id := mint k, c_from := ef + len, c_to := shift ef et len (c_to c)\<rparr>, Set)], Suc k)
     else
       (let from = (if c_from c < ef then c_from c else ef + len);
            to = (if c_to c > et then shift ef et len (c_to c)
                  else if c_from c < ef then ef else ef + len) in
        if to > from then ((c\<lparr>c_from := from, c_to := to\<rparr>, Set), [], k)
        else (emptied_at (ef + len) c, [], k)))"

fun plan_spans ::
  "ustr option \<Rightarrow> ustr list \<Rightarrow> nat \<Rightarrow> nat \<Rightarrow> nat \<Rightarrow> (nat \<Rightarrow> ustr) \<Rightarrow> row list \<Rightarrow> nat
    \<Rightarrow> row list \<times> row list \<times> nat" where
  "plan_spans mine owned ef et len mint [] k = ([], [], k)"
| "plan_spans mine owned ef et len mint ((c, st) # changes) k =
    (if mine \<noteq> None \<and> c_id c \<in> set owned then
       (let (out, new_spans, k') = plan_spans mine owned ef et len mint changes k in
        (if Some (c_id c) \<noteq> mine then (emptied_at (ef + len) c # out, new_spans, k')
         else (out, new_spans, k')))
     else
       (let (r, new, k1) = span_row ef et len mint (c, st) k;
            (out, new_spans, k') = plan_spans mine owned ef et len mint changes k1 in
        (r # out, new @ new_spans, k')))"

definition push_all :: "fragment list \<Rightarrow> fragment list \<Rightarrow> fragment list" where
  "push_all l fs = fold (\<lambda>f l. push_fragment l (f_change f) (f_text f) (f_id f) (f_rank f)) fs l"

definition outer_gaps :: "gap_row list \<Rightarrow> nat \<Rightarrow> nat \<Rightarrow> nat \<Rightarrow> gap_row list" where
  "outer_gaps gaps ef et len =
    List.map_filter (\<lambda>(g, st).
      if g_at g < ef then Some (g, st)
      else if g_at g > et then Some (g\<lparr>g_at := shift ef et len (g_at g)\<rparr>, st)
      else None) gaps"

definition place_merged ::
  "nat \<Rightarrow> fragment list \<Rightarrow> (nat \<Rightarrow> ustr) \<Rightarrow> nat \<Rightarrow> ustr list \<Rightarrow> gap_row list \<Rightarrow> gap_row list \<times> ustr list \<times> nat" where
  "place_merged pos merged mint k ids out_gaps =
    (if merged = [] then (out_gaps, ids, k)
     else (let there = filter (\<lambda>(g, _). g_at g = pos) out_gaps in
       case there of
         (first, _) # _ \<Rightarrow>
           (filter (\<lambda>(g, _). g_at g \<noteq> pos) out_gaps @
              [(first\<lparr>fragments :=
                  push_all (fold (\<lambda>(g, _) l. push_all l (fragments g)) there []) merged\<rparr>, Set)],
            ids, k)
       | [] \<Rightarrow>
           (let (nm, ids', k') = take_id mint k ids in
            (out_gaps @ [(\<lparr>g_id = nm, g_at = pos, fragments = merged, g_stale = False\<rparr>, Set)], ids', k'))))"

definition place_after ::
  "nat \<Rightarrow> fragment list \<Rightarrow> (nat \<Rightarrow> ustr) \<Rightarrow> nat \<Rightarrow> ustr list \<Rightarrow> gap_row list \<Rightarrow> gap_row list \<times> nat" where
  "place_after p after mint k ids out_gaps =
    (if after = [] then (out_gaps, k)
     else (let (nm, _, k') = take_id mint k ids in
       (out_gaps @ [(\<lparr>g_id = nm, g_at = p, fragments = after, g_stale = False\<rparr>, Set)], k')))"

definition reown_gap :: "ustr \<Rightarrow> ustr list \<Rightarrow> gap_row \<Rightarrow> gap_row" where
  "reown_gap m owned r =
    (let (g, st) = r in
     if list_ex (\<lambda>f. f_change f \<in> set owned \<and> f_change f \<noteq> m) (fragments g)
     then (g\<lparr>fragments := fold (\<lambda>f l.
               push_fragment l (if f_change f \<in> set owned then m else f_change f) (f_text f) (f_id f) (f_rank f))
             (fragments g) []\<rparr>, Set)
     else (g, st))"

definition referenced :: "gap_row list \<Rightarrow> ustr set" where
  "referenced gaps = f_change ` set (concat (map (fragments \<circ> fst) gaps))"

definition settle_row :: "gap_row list \<Rightarrow> row \<Rightarrow> row" where
  "settle_row gaps r =
    (let (c, st) = r in
     if has_span c then (c, st)
     else (case find (\<lambda>(g, _). list_ex (\<lambda>f. f_change f = c_id c) (fragments g)) gaps of
             Some (g, _) \<Rightarrow>
               if c_from c \<noteq> g_at g then (c\<lparr>c_from := g_at g, c_to := g_at g\<rparr>, st) else (c, st)
           | None \<Rightarrow> (c, st)))"

definition plan_live :: "row list \<Rightarrow> gap_row list \<Rightarrow> row list" where
  "plan_live out gaps =
    (let refd = referenced gaps;
         out' = map (\<lambda>(c, st). (if emptied c \<and> c_id c \<in> refd then c\<lparr>emptied := False\<rparr> else c, st)) out
     in sort_key (\<lambda>(c, _). (c_from c, c_to c))
          (filter (\<lambda>(c, _). has_span c \<or> c_id c \<in> refd \<or> emptied c) out'))"

definition plan_one ::
  "ustr \<Rightarrow> row list \<Rightarrow> gap_row list \<Rightarrow> nat \<Rightarrow> nat \<Rightarrow> ustr \<Rightarrow> author \<Rightarrow> ustr option \<Rightarrow> int \<Rightarrow> bool
    \<Rightarrow> (nat \<Rightarrow> ustr) \<Rightarrow> nat \<Rightarrow> row list \<times> gap_row list \<times> nat" where
  "plan_one cur changes gaps ef et ins me run now untracked mint k =
    (let len = length ins;
         sw = swallowed_gaps gaps ef et;
         records = (\<not> untracked \<and> (removes_original changes ef et \<or> len > 0));
         owned = (if untracked then [] else plan_owned changes gaps ef et me);
         (mine, k) = (if records
                      then (let (m, k) = plan_mine changes owned ef me run now mint k in
                            (Some (widen_mine changes owned ef et len m), k))
                      else (None, k));
         split = (len > 0 \<and> \<not> own_at_end changes sw owned me et);
         (merged, after) = plan_walk cur changes (map_option c_id mine) owned sw split ef et;
         (out, new_spans, k) = plan_spans (map_option c_id mine) owned ef et len mint changes k;
         out = out @ new_spans @ (case mine of Some m \<Rightarrow> [(m, Set)] | None \<Rightarrow> []);
         pos = (case mine of Some m \<Rightarrow> c_from m | None \<Rightarrow> ef);
         (gaps1, ids, k) = place_merged pos merged mint k (map g_id sw) (outer_gaps gaps ef et len);
         (gaps2, k) = place_after (ef + len) after mint k ids gaps1;
         gaps3 = (case mine of Some m \<Rightarrow> map (reown_gap (c_id m) owned) gaps2 | None \<Rightarrow> gaps2);
         gaps4 = sort_key (\<lambda>(g, _). g_at g) gaps3
     in (map (settle_row gaps4) (plan_live out gaps3), gaps4, k))"

section \<open>A batch of edits\<close>

text \<open>The state of the loop of \<open>plan_edits\<close>: the text so far, the rows, the removed rows, the
  adjustment and the next id.  The removed rows are kept by id, as the ordered maps of the
  source do: a later removal of the same id replaces the earlier row.\<close>

record loop_state =
  ls_cur :: ustr
  ls_changes :: "row list"
  ls_gaps :: "gap_row list"
  removed_changes :: "row list"
  removed_gaps :: "gap_row list"
  adj :: int
  next_id :: nat

definition map_insert :: "('v \<Rightarrow> ustr) \<Rightarrow> 'v \<Rightarrow> 'v list \<Rightarrow> 'v list" where
  "map_insert key v m = insort_key key v (filter (\<lambda>w. key w \<noteq> key v) m)"

type_synonym edit_in = "nat \<times> nat \<times> ustr"

definition splice :: "nat \<Rightarrow> nat \<Rightarrow> ustr \<Rightarrow> ustr \<Rightarrow> ustr" where
  "splice ef et ins cur = take ef cur @ ins @ drop et cur"

definition plan_step ::
  "ustr set \<Rightarrow> ustr set \<Rightarrow> author \<Rightarrow> ustr option \<Rightarrow> int \<Rightarrow> bool \<Rightarrow> (nat \<Rightarrow> ustr) \<Rightarrow> edit_in \<Rightarrow> loop_state \<Rightarrow> loop_state" where
  "plan_step orig_changes orig_gaps me run now untracked mint e s =
    (let (from, to, ins) = e;
         ef = nat (int from + adj s);
         et = nat (int to + adj s)
     in if ef = et \<and> ins = [] then s
        else
          (let (nc, ng, k) = plan_one (ls_cur s) (ls_changes s) (ls_gaps s) ef et ins me run now untracked mint (next_id s)
           in \<lparr>ls_cur = splice ef et ins (ls_cur s), ls_changes = nc, ls_gaps = ng,
               removed_changes = fold (\<lambda>(c, _) m.
                   if c_id c \<in> orig_changes \<and> \<not> list_ex (\<lambda>(n, _). c_id n = c_id c) nc
                   then map_insert (c_id \<circ> fst) (c, Removed) m else m) (ls_changes s) (removed_changes s),
               removed_gaps = fold (\<lambda>(g, _) m.
                   if g_id g \<in> orig_gaps \<and> \<not> list_ex (\<lambda>(n, _). g_id n = g_id g) ng
                   then map_insert (g_id \<circ> fst) (g, Removed) m else m) (ls_gaps s) (removed_gaps s),
               adj = adj s + (int (length ins) - int (et - ef)),
               next_id = k\<rparr>))"

definition plan_start :: "ustr \<Rightarrow> file_state \<Rightarrow> nat \<Rightarrow> loop_state" where
  "plan_start before st k =
    \<lparr>ls_cur = before, ls_changes = map (\<lambda>c. (c, Kept)) (fs_changes st),
     ls_gaps = map (\<lambda>g. (g, Kept)) (fs_gaps st),
     removed_changes = [], removed_gaps = [], adj = 0, next_id = k\<rparr>"

definition plan_loop ::
  "ustr \<Rightarrow> file_state \<Rightarrow> edit_in list \<Rightarrow> author \<Rightarrow> ustr option \<Rightarrow> int \<Rightarrow> bool \<Rightarrow> (nat \<Rightarrow> ustr) \<Rightarrow> nat \<Rightarrow> loop_state" where
  "plan_loop before st edits me run now untracked mint k =
    fold (plan_step (set (map c_id (fs_changes st))) (set (map g_id (fs_gaps st))) me run now untracked mint)
      edits (plan_start before st k)"

definition mark_new :: "('r \<Rightarrow> ustr) \<Rightarrow> ustr set \<Rightarrow> 'r \<times> plan_state \<Rightarrow> 'r \<times> plan_state" where
  "mark_new key known r = (if key (fst r) \<notin> known \<and> snd r = Kept then (fst r, Set) else r)"

definition plan_edits ::
  "ustr \<Rightarrow> file_state \<Rightarrow> edit_in list \<Rightarrow> author \<Rightarrow> ustr option \<Rightarrow> int \<Rightarrow> bool \<Rightarrow> (nat \<Rightarrow> ustr) \<Rightarrow> nat \<Rightarrow> plan" where
  "plan_edits before st edits me run now untracked mint k =
    (let s = plan_loop before st edits me run now untracked mint k in
     \<lparr>plan_changes = map (mark_new c_id (set (map c_id (fs_changes st)))) (ls_changes s) @ removed_changes s,
      plan_gaps = map (mark_new g_id (set (map g_id (fs_gaps st)))) (ls_gaps s) @ removed_gaps s\<rparr>)"

end
