(* ===== verification/Track_Original.thy ===== *)
theory Track_Original
  imports Track_Plan
begin

text \<open>
  What the planner promises: the original text of a file, the text with every suggested
  insertion left out and every deleted fragment put back, is the same before and after a
  tracked edit.  The theory defines the original text of a set of rows, the well-formedness
  of rows, and shows for each stage of \<open>plan_one\<close> what it does to the covered positions and to
  the texts of the gaps; the last section puts the stages together.
\<close>

section \<open>The original text of a set of rows\<close>

definition spans_pos :: "change_record \<Rightarrow> nat \<Rightarrow> bool" where
  "spans_pos c p \<longleftrightarrow> c_from c \<le> p \<and> p < c_to c"

definition covered :: "row list \<Rightarrow> nat \<Rightarrow> bool" where
  "covered rows p \<longleftrightarrow> (\<exists>c \<in> fst ` set rows. spans_pos c p)"

definition texts :: "fragment list \<Rightarrow> ustr" where
  "texts fs = concat (map f_text fs)"

definition gap_text :: "gap_row list \<Rightarrow> nat \<Rightarrow> ustr" where
  "gap_text gaps i = concat (map (\<lambda>r. texts (fragments (fst r))) (filter (\<lambda>r. g_at (fst r) = i) gaps))"

definition kept_char :: "ustr \<Rightarrow> row list \<Rightarrow> nat \<Rightarrow> ustr" where
  "kept_char cur rows i = (if i < length cur \<and> \<not> covered rows i then [cur ! i] else [])"

definition pieces :: "ustr \<Rightarrow> row list \<Rightarrow> gap_row list \<Rightarrow> nat \<Rightarrow> nat \<Rightarrow> ustr" where
  "pieces cur rows gaps i j = concat (map (\<lambda>p. gap_text gaps p @ kept_char cur rows p) [i..<j])"

definition original :: "ustr \<Rightarrow> row list \<Rightarrow> gap_row list \<Rightarrow> ustr" where
  "original cur rows gaps = pieces cur rows gaps 0 (Suc (length cur))"

text \<open>Well-formed rows over a text of length \<open>n\<close>: ids are unique, spans lie in the text and
  do not overlap, a gap lies in the text and not strictly inside a span, and a fragment that
  reads as a change of its own has no span.\<close>

definition wf_rows :: "nat \<Rightarrow> row list \<Rightarrow> gap_row list \<Rightarrow> bool" where
  "wf_rows n rows gaps \<longleftrightarrow>
    distinct (map (c_id \<circ> fst) rows) \<and>
    (\<forall>c \<in> fst ` set rows. c_from c \<le> c_to c \<and> (has_span c \<longrightarrow> c_to c \<le> n \<and> \<not> orphan c)) \<and>
    (\<forall>c \<in> fst ` set rows. \<forall>d \<in> fst ` set rows.
       has_span c \<and> has_span d \<and> c_id c \<noteq> c_id d \<longrightarrow> c_to c \<le> c_from d \<or> c_to d \<le> c_from c) \<and>
    (\<forall>g \<in> fst ` set gaps. g_at g \<le> n \<and>
       (\<forall>c \<in> fst ` set rows. \<not> (c_from c < g_at g \<and> g_at g < c_to c)))"

section \<open>Texts of fragment lists\<close>

lemma texts_simps [simp]:
  "texts [] = []" "texts (f # fs) = f_text f @ texts fs" "texts (fs @ gs) = texts fs @ texts gs"
  by (simp_all add: texts_def)

lemma texts_push [simp]: "texts (push_fragment l ch txt nm rank) = texts l @ txt"
proof (cases l rule: rev_cases)
  case (snoc ys y)
  then show ?thesis by (simp add: push_fragment_def)
qed (simp add: push_fragment_def)

lemma push_nonempty [simp]: "push_fragment l ch txt nm rank \<noteq> []"
  by (simp add: push_fragment_def)

lemma texts_fold_push:
  "texts (fold (\<lambda>f l. push_fragment l (ch f) (f_text f) (nm f) (rk f)) fs l) = texts l @ texts fs"
  by (induction fs arbitrary: l) simp_all

lemma texts_push_all [simp]: "texts (push_all l fs) = texts l @ texts fs"
  by (simp add: push_all_def texts_fold_push)

lemma texts_push_gaps:
  "texts (fold (\<lambda>(g, _) l. push_all l (fragments g)) rs l) =
    texts l @ concat (map (\<lambda>r. texts (fragments (fst r))) rs)"
  by (induction rs arbitrary: l) (auto simp: case_prod_beta)

section \<open>Gap texts through the stages\<close>

lemma gap_text_append [simp]: "gap_text (xs @ ys) i = gap_text xs i @ gap_text ys i"
  by (simp add: gap_text_def)

lemma gap_text_Nil [simp]: "gap_text [] i = []"
  by (simp add: gap_text_def)

lemma gap_text_Cons:
  "gap_text (r # rs) i = (if g_at (fst r) = i then texts (fragments (fst r)) else []) @ gap_text rs i"
  by (simp add: gap_text_def)

lemma gap_text_none: "\<forall>r \<in> set rs. g_at (fst r) \<noteq> i \<Longrightarrow> gap_text rs i = []"
  by (simp add: gap_text_def)

lemma gap_text_sort: "gap_text (sort_key (\<lambda>(g, _). g_at g) rs) i = gap_text rs i"
proof -
  have "filter (\<lambda>r. g_at (fst r) = i) (sort_key (\<lambda>r. g_at (fst r)) rs) = filter (\<lambda>r. g_at (fst r) = i) rs"
    by (rule sort_key_stable)
  moreover have "(\<lambda>(g, _). g_at g) = (\<lambda>r :: gap_row. g_at (fst r))" by auto
  ultimately show ?thesis by (simp add: gap_text_def)
qed

lemma gap_text_reown [simp]: "gap_text (map (reown_gap m owned) rs) i = gap_text rs i"
proof (induction rs)
  case (Cons r rs)
  have "texts (fragments (fst (reown_gap m owned r))) = texts (fragments (fst r))"
    "g_at (fst (reown_gap m owned r)) = g_at (fst r)"
    by (auto simp: reown_gap_def Let_def case_prod_beta texts_fold_push)
  with Cons show ?case by (simp add: gap_text_Cons)
qed simp

lemma shift_after: "et \<le> p \<Longrightarrow> ef \<le> et \<Longrightarrow> shift ef et len p = p - (et - ef) + len"
  by (simp add: shift_def)

lemma gap_text_outer:
  assumes "ef \<le> et"
  shows "gap_text (outer_gaps gaps ef et len) i =
    (if i < ef then gap_text gaps i
     else if i \<le> ef + len then [] else gap_text gaps (i + (et - ef) - len))"
proof (induction gaps)
  case Nil
  then show ?case by (simp add: outer_gaps_def map_filter_simps)
next
  case (Cons r gaps)
  obtain g st where r: "r = (g, st)" by (cases r)
  have out: "outer_gaps (r # gaps) ef et len =
    (if g_at g < ef then (g, st) # outer_gaps gaps ef et len
     else if g_at g > et then (g\<lparr>g_at := g_at g - (et - ef) + len\<rparr>, st) # outer_gaps gaps ef et len
     else outer_gaps gaps ef et len)"
    using assms by (simp add: outer_gaps_def map_filter_simps r shift_after)
  show ?case using Cons assms unfolding out
    by (auto simp: gap_text_Cons r)
qed

lemma gap_text_place_merged:
  "gap_text (fst (place_merged pos merged mint k ids gaps)) i =
    gap_text gaps i @ (if i = pos then texts merged else [])"
proof (cases "merged = [] \<or> filter (\<lambda>(g, _). g_at g = pos) gaps = []")
  case True
  then show ?thesis
    by (auto simp: place_merged_def Let_def gap_text_Cons case_prod_beta split: prod.splits)
next
  case False
  then obtain first st rest where there: "filter (\<lambda>(g, _). g_at g = pos) gaps = (first, st) # rest"
    by (metis list.exhaust surj_pair)
  then have "(first, st) \<in> set (filter (\<lambda>(g, _). g_at g = pos) gaps)" by simp
  then have at: "g_at first = pos" by simp
  have "gap_text (filter (\<lambda>(g, _). g_at g \<noteq> pos) gaps) i = (if i = pos then [] else gap_text gaps i)"
    by (induction gaps) (auto simp: gap_text_Cons)
  moreover have "gap_text gaps pos = concat (map (\<lambda>r. texts (fragments (fst r))) ((first, st) # rest))"
    unfolding gap_text_def there[symmetric] by (simp add: split_def)
  ultimately show ?thesis using False there at
    by (auto simp: place_merged_def Let_def gap_text_Cons texts_push_gaps)
qed

lemma gap_text_place_after:
  "gap_text (fst (place_after p after mint k ids gaps)) i =
    gap_text gaps i @ (if i = p then texts after else [])"
  by (auto simp: place_after_def Let_def gap_text_Cons split: prod.splits)

section \<open>The walk over the edit\<close>

definition sw_text :: "gap list \<Rightarrow> nat \<Rightarrow> ustr" where
  "sw_text sw p = concat (map (\<lambda>g. texts (fragments g)) (filter (\<lambda>g. g_at g = p) sw))"

lemma sw_text_swallowed: "ef \<le> p \<Longrightarrow> p \<le> et \<Longrightarrow> sw_text (swallowed_gaps gaps ef et) p = gap_text gaps p"
  by (induction gaps) (auto simp: swallowed_gaps_def sw_text_def gap_text_Cons)

definition both :: "fragment list \<times> fragment list \<Rightarrow> ustr \<times> ustr" where
  "both acc = (texts (fst acc), texts (snd acc))"

lemma walk_gaps_texts:
  "both (walk_gaps mine owned sw sp et p acc) =
    (if sp \<and> p = et then (texts (fst acc), texts (snd acc) @ sw_text sw p)
     else (texts (fst acc) @ sw_text sw p, texts (snd acc)))"
proof -
  have inner: "both (fold (\<lambda>f (merged, after).
        let change = owner_now mine owned (f_change f) in
        if sp \<and> p = et
        then (merged, push_fragment after change (f_text f) (f_id f) (f_rank f))
        else (push_fragment merged change (f_text f) (f_id f) (f_rank f), after)) fs acc) =
    (if sp \<and> p = et then (texts (fst acc), texts (snd acc) @ texts fs)
     else (texts (fst acc) @ texts fs, texts (snd acc)))" for fs acc
    by (induction fs arbitrary: acc) (auto simp: both_def Let_def case_prod_beta)
  have "both (fold (\<lambda>g. fold (\<lambda>f (merged, after).
        let change = owner_now mine owned (f_change f) in
        if sp \<and> p = et
        then (merged, push_fragment after change (f_text f) (f_id f) (f_rank f))
        else (push_fragment merged change (f_text f) (f_id f) (f_rank f), after)) (fragments g)) gs acc) =
    (if sp \<and> p = et then (texts (fst acc), texts (snd acc) @ concat (map (\<lambda>g. texts (fragments g)) gs))
     else (texts (fst acc) @ concat (map (\<lambda>g. texts (fragments g)) gs), texts (snd acc)))" for gs acc
    using inner by (induction gs arbitrary: acc) (auto simp: both_def)
  then show ?thesis unfolding walk_gaps_def sw_text_def .
qed

lemma span_end_at_None: "span_end_at rows p = None \<longleftrightarrow> \<not> covered rows p"
  by (induction rows) (auto simp: span_end_at_def covered_def spans_pos_def has_span_def)

lemma walk_point_texts:
  "both (walk_point cur rows mine owned sw sp et p acc) =
    (texts (fst acc) @ (if sp \<and> p = et then [] else sw_text sw p) @
       (if mine \<noteq> None \<and> p < et then kept_char cur rows p else []),
     texts (snd acc) @ (if sp \<and> p = et then sw_text sw p else []))"
proof -
  obtain m a where w: "walk_gaps mine owned sw sp et p acc = (m, a)" by (cases "walk_gaps mine owned sw sp et p acc")
  with walk_gaps_texts[of mine owned sw sp et p acc] show ?thesis
    by (cases mine) (auto simp: walk_point_def both_def kept_char_def span_end_at_None split: if_splits)
qed

lemma walk_texts:
  assumes "j \<le> et"
  shows "both (fold (walk_point cur rows mine owned sw sp et) [ef..<j] ([], [])) =
    (concat (map (\<lambda>p. sw_text sw p @ (if mine \<noteq> None then kept_char cur rows p else [])) [ef..<j]), [])"
  using assms
proof (induction j)
  case (Suc j)
  show ?case
  proof (cases "ef \<le> j")
    case True
    with Suc show ?thesis
      by (simp add: walk_point_texts) (simp add: both_def)
  qed (simp add: both_def)
qed (simp add: both_def)

lemma plan_walk_texts:
  assumes "ef \<le> et"
  shows "both (plan_walk cur rows mine owned (swallowed_gaps gaps ef et) sp ef et) =
    (concat (map (\<lambda>p. gap_text gaps p @ (if mine \<noteq> None then kept_char cur rows p else [])) [ef..<et]) @
       (if sp then [] else gap_text gaps et),
     if sp then gap_text gaps et else [])"
proof -
  have w: "both (plan_walk cur rows mine owned (swallowed_gaps gaps ef et) sp ef et) =
    (concat (map (\<lambda>p. sw_text (swallowed_gaps gaps ef et) p @ (if mine \<noteq> None then kept_char cur rows p else [])) [ef..<et]) @
       (if sp then [] else sw_text (swallowed_gaps gaps ef et) et),
     if sp then sw_text (swallowed_gaps gaps ef et) et else [])"
    using assms walk_texts[of et et cur rows mine owned "swallowed_gaps gaps ef et" sp ef]
    by (simp add: plan_walk_def walk_point_texts) (simp add: both_def)
  have m: "map (\<lambda>p. sw_text (swallowed_gaps gaps ef et) p @ (if mine \<noteq> None then kept_char cur rows p else [])) [ef..<et]
      = map (\<lambda>p. gap_text gaps p @ (if mine \<noteq> None then kept_char cur rows p else [])) [ef..<et]"
    by (rule map_cong[OF refl]) (simp add: sw_text_swallowed)
  show ?thesis unfolding w m using sw_text_swallowed[OF assms order_refl, of gaps] by simp
qed

text \<open>Fragments go after the inserted text only when the walk splits there and a gap sits at the
  end of the edit; with no gap and no original character in the edit the walk collects nothing.\<close>

lemma walk_after_empty:
  assumes "\<not> sp \<or> (\<forall>g \<in> set sw. g_at g \<noteq> et)"
  shows "snd (plan_walk cur rows mine owned sw sp ef et) = []"
proof -
  let ?push = "\<lambda>f (merged, after).
    (push_fragment merged (owner_now mine owned (f_change f)) (f_text f) (f_id f) (f_rank f), after)"
  have inner: "snd (fold ?push fs a) = snd a" for fs and a :: "fragment list \<times> fragment list"
    by (induction fs arbitrary: a) (simp_all add: case_prod_beta)
  have outer: "snd (fold (\<lambda>g. fold ?push (fragments g)) gs a) = snd a" for gs and a :: "fragment list \<times> fragment list"
    by (induction gs arbitrary: a) (simp_all only: fold.simps id_apply o_apply inner)
  have g: "snd (walk_gaps mine owned sw sp et p a) = snd a" for p a
  proof (cases "sp \<and> p = et")
    case True
    with assms have "filter (\<lambda>g. g_at g = p) sw = []" by (auto simp: filter_empty_conv)
    then show ?thesis by (simp add: walk_gaps_def)
  next
    case False
    with outer show ?thesis by (simp only: walk_gaps_def if_False Let_def) simp
  qed
  have "snd (walk_point cur rows mine owned sw sp et p a) = snd a" for p a
    using g[of p a] by (auto simp: walk_point_def Let_def case_prod_beta split: option.splits)
  then show ?thesis unfolding plan_walk_def
    by (rule_tac P="\<lambda>a. snd a = []" in fold_keeps) simp_all
qed

lemma walk_empty:
  assumes "\<forall>p. ef \<le> p \<and> p < et \<longrightarrow> covered rows p"
  shows "plan_walk cur rows mine owned [] sp ef et = ([], [])"
proof -
  have "fold (walk_point cur rows mine owned [] sp et) ps ([], []) = ([], [])" if "\<forall>p \<in> set ps. ef \<le> p" for ps
    using that
  proof (induction ps)
    case (Cons p ps)
    then have "walk_point cur rows mine owned [] sp et p ([], []) = ([], [])"
      using assms by (auto simp: walk_point_def walk_gaps_def span_end_at_None split: option.splits)
    with Cons show ?case by simp
  qed simp
  from this[of "[ef..<Suc et]"] show ?thesis by (simp add: plan_walk_def del: upt_Suc)
qed

section \<open>Covered positions through the stages\<close>

lemma covered_simps [simp]:
  "covered [] p = False"
  "covered (r # rs) p = (spans_pos (fst r) p \<or> covered rs p)"
  "covered (rs @ qs) p = (covered rs p \<or> covered qs p)"
  by (auto simp: covered_def)

text \<open>Where a position of the text after the edit was before it.\<close>

definition pre_pos :: "nat \<Rightarrow> nat \<Rightarrow> nat \<Rightarrow> nat \<Rightarrow> nat" where
  "pre_pos ef et len q = q + (et - ef) - len"

definition spans_pos_after :: "nat \<Rightarrow> nat \<Rightarrow> nat \<Rightarrow> change_record \<Rightarrow> nat \<Rightarrow> bool" where
  "spans_pos_after ef et len c q \<longleftrightarrow>
    (if q < ef then spans_pos c q else if q < ef + len then False else spans_pos c (pre_pos ef et len q))"

lemma spans_pos_has_span: "spans_pos c p \<Longrightarrow> has_span c"
  by (simp add: spans_pos_def has_span_def)

lemma spans_pos_after_has_span: "spans_pos_after ef et len c q \<Longrightarrow> has_span c"
  by (auto simp: spans_pos_after_def dest: spans_pos_has_span split: if_splits)

lemma span_row_covers:
  assumes "ef \<le> et" "span_row ef et len mint (c, st) k = (r, new, k')"
  shows "spans_pos (fst r) q \<or> covered new q \<longleftrightarrow> spans_pos_after ef et len c q"
  using assms unfolding span_row_def Let_def case_prod_conv
  by (auto simp: spans_pos_def spans_pos_after_def pre_pos_def has_span_def shift_def emptied_at_def
      split: if_splits)

lemma plan_spans_covers:
  assumes "ef \<le> et" "plan_spans mine owned ef et len mint rows k = (out, new, k')"
  shows "covered (out @ new) q \<longleftrightarrow>
    (\<exists>c \<in> fst ` set rows. \<not> (mine \<noteq> None \<and> c_id c \<in> set owned) \<and> spans_pos_after ef et len c q)"
  using assms(2)
proof (induction rows arbitrary: k out new k')
  case (Cons r rows)
  obtain c st where r: "r = (c, st)" by (cases r)
  show ?case
  proof (cases "mine \<noteq> None \<and> c_id c \<in> set owned")
    case True
    then obtain out' where "plan_spans mine owned ef et len mint rows k = (out', new, k')"
      "out = (if Some (c_id c) \<noteq> mine then emptied_at (ef + len) c # out' else out')"
      using Cons.prems by (auto simp: r Let_def split: prod.splits if_splits)
    with Cons.IH[of k out' new k'] True r show ?thesis
      by (auto simp: emptied_at_def spans_pos_def)
  next
    case False
    then obtain s n1 k1 out' n2 where p: "span_row ef et len mint (c, st) k = (s, n1, k1)"
      "plan_spans mine owned ef et len mint rows k1 = (out', n2, k')" "out = s # out'" "new = n1 @ n2"
      using Cons.prems by (auto simp: r Let_def split: prod.splits if_splits)
    from Cons.IH[OF p(2)] span_row_covers[OF assms(1) p(1), of q] False p(3,4) r show ?thesis
      by auto
  qed
qed simp

lemma settle_row_covers [simp]: "spans_pos (fst (settle_row gaps r)) q = spans_pos (fst r) q"
  by (auto simp: settle_row_def Let_def spans_pos_def has_span_def case_prod_beta split: option.splits)

lemma covered_settle [simp]: "covered (map (settle_row gaps) rows) q = covered rows q"
  by (induction rows) simp_all

lemma covered_live [simp]: "covered (plan_live out gaps) q = covered out q"
proof -
  have "covered (filter (\<lambda>(c, _). has_span c \<or> P c)
      (map (\<lambda>(c, st). (if Q c then c\<lparr>emptied := False\<rparr> else c, st)) out)) q = covered out q" for P Q
    by (induction out) (auto simp: spans_pos_def has_span_def split: if_splits)
  moreover have "covered (sort_key f rows) q = covered rows q" for f :: "row \<Rightarrow> nat \<times> nat" and rows
    by (simp add: covered_def)
  ultimately show ?thesis by (simp add: plan_live_def Let_def)
qed

section \<open>The changes an edit owns\<close>

lemma find_change_iff:
  assumes "distinct (map (c_id \<circ> fst) rows)"
  shows "find_change rows nm = Some c \<longleftrightarrow> c \<in> fst ` set rows \<and> c_id c = nm"
  using assms
proof (induction rows)
  case (Cons r rows)
  then show ?case by (cases r) (force simp: find_change_def)
qed (simp add: find_change_def)

lemma min_by_in: "min_by le xs = Some x \<Longrightarrow> x \<in> set xs"
  by (induction xs arbitrary: x) (auto split: option.splits if_splits)

lemma first_span_Some:
  assumes "first_span rows me ef et = Some c"
  shows "c \<in> fst ` set rows" "has_span c" "c_from c \<le> et" "ef \<le> c_to c" "c_who c = who me"
  using min_by_in[OF assms[unfolded first_span_def]] by auto

text \<open>The owned ids: that of the first own span, if there is one, and those of own changes
  that have no span.\<close>

definition spanless :: "row list \<Rightarrow> ustr \<Rightarrow> bool" where
  "spanless rows nm \<longleftrightarrow> (\<exists>c. find_change rows nm = Some c \<and> \<not> has_span c)"

lemma find_change_id: "find_change rows nm = Some c \<Longrightarrow> c_id c = nm"
  by (induction rows) (auto simp: find_change_def split: if_splits)

lemma own_deletions_shape:
  "\<exists>rest. own_deletions rows me sw owned = owned @ rest \<and> (\<forall>x \<in> set rest. spanless rows x)"
proof -
  let ?P = "\<lambda>ids. \<exists>rest. ids = owned @ rest \<and> (\<forall>x \<in> set rest. spanless rows x)"
  have one: "?P (case find_change rows (f_change f) of
          Some c \<Rightarrow> if c_who c = who me \<and> \<not> has_span c \<and> \<not> orphan c then push_unique ids (c_id c) else ids
        | None \<Rightarrow> ids)" if P: "?P ids" for f ids
  proof (cases "find_change rows (f_change f)")
    case None
    with P show ?thesis by simp
  next
    case (Some c)
    from P obtain rest where "ids = owned @ rest" "\<forall>x \<in> set rest. spanless rows x" by blast
    moreover have "\<not> has_span c \<Longrightarrow> spanless rows (c_id c)"
      using Some find_change_id[OF Some] by (auto simp: spanless_def)
    ultimately show ?thesis using Some
      by (auto simp: push_unique_def intro!: exI[of _ "rest @ [c_id c]"])
  qed
  have inner: "?P (fold (\<lambda>f ids.
        case find_change rows (f_change f) of
          Some c \<Rightarrow> if c_who c = who me \<and> \<not> has_span c \<and> \<not> orphan c then push_unique ids (c_id c) else ids
        | None \<Rightarrow> ids) fs ids)" if "?P ids" for fs ids
    by (rule fold_keeps[where P = ?P, OF that one])
  show ?thesis unfolding own_deletions_def
  proof (rule fold_keeps[where P = ?P])
    show "?P owned" by simp
  qed (rule inner)
qed

lemma plan_owned_shape:
  "\<exists>rest. plan_owned rows gaps ef et me =
      (case first_span rows me ef et of Some c \<Rightarrow> [c_id c] | None \<Rightarrow> []) @ rest \<and>
    (\<forall>x \<in> set rest. spanless rows x)"
  using own_deletions_shape[of rows me "swallowed_gaps gaps ef et"
      "case first_span rows me ef et of Some c \<Rightarrow> [c_id c] | None \<Rightarrow> []"]
  by (cases "first_span rows me ef et") (simp_all add: plan_owned_def push_unique_def)

lemma widen_spanless:
  "\<forall>x \<in> set rest. spanless rows x \<Longrightarrow> widen_mine rows (xs @ rest) ef et len m = widen_mine rows xs ef et len m"
proof -
  assume sp: "\<forall>x \<in> set rest. spanless rows x"
  let ?f = "\<lambda>nm (from, to). case find_change rows nm of
          None \<Rightarrow> (from, to)
        | Some c \<Rightarrow>
            if \<not> has_span c then (from, to)
            else (min from (c_from c), if c_to c > et then max to (shift ef et len (c_to c)) else to)"
  have "?f x acc = acc" if "x \<in> set rest" for x acc
    using sp that by (cases acc) (force simp: spanless_def)
  then have "fold ?f rest acc = acc" for acc
    by (induction rest arbitrary: acc) simp_all
  then show ?thesis by (simp add: widen_mine_def)
qed

section \<open>The change an edit writes\<close>

lemma widen_first:
  assumes "distinct (map (c_id \<circ> fst) rows)"
  shows "widen_mine rows (plan_owned rows gaps ef et me) ef et len m =
    (case first_span rows me ef et of
       None \<Rightarrow> m\<lparr>c_from := ef, c_to := ef + len\<rparr>
     | Some c \<Rightarrow> m\<lparr>c_from := min ef (c_from c),
         c_to := if c_to c > et then max (ef + len) (shift ef et len (c_to c)) else ef + len\<rparr>)"
proof -
  obtain rest where o: "plan_owned rows gaps ef et me =
      (case first_span rows me ef et of Some c \<Rightarrow> [c_id c] | None \<Rightarrow> []) @ rest"
    "\<forall>x \<in> set rest. spanless rows x" using plan_owned_shape by blast
  show ?thesis
  proof (cases "first_span rows me ef et")
    case None
    with widen_spanless[OF o(2), of "[]"] o(1) show ?thesis by (simp add: widen_mine_def)
  next
    case (Some c)
    from first_span_Some[OF Some] find_change_iff[OF assms, of "c_id c" c]
    have "find_change rows (c_id c) = Some c" "has_span c" by auto
    with widen_spanless[OF o(2), of "[c_id c]"] o(1) Some show ?thesis by (simp add: widen_mine_def)
  qed
qed

lemma mine_covers:
  assumes "distinct (map (c_id \<circ> fst) rows)" "ef \<le> et"
  shows "spans_pos (widen_mine rows (plan_owned rows gaps ef et me) ef et len m) q \<longleftrightarrow>
    ef \<le> q \<and> q < ef + len \<or>
    (\<exists>c. first_span rows me ef et = Some c \<and> spans_pos_after ef et len c q)"
proof (cases "first_span rows me ef et")
  case None
  with assms(1) show ?thesis by (simp add: widen_first spans_pos_def)
next
  case (Some c)
  from first_span_Some[OF Some] have "c_from c \<le> et" "ef \<le> c_to c" by auto
  with Some assms(1) \<open>ef \<le> et\<close> show ?thesis
    by (auto simp: widen_first spans_pos_def spans_pos_after_def pre_pos_def shift_def)
qed

lemma owned_span_first:
  assumes "distinct (map (c_id \<circ> fst) rows)" "c \<in> fst ` set rows" "has_span c"
  shows "c_id c \<in> set (plan_owned rows gaps ef et me) \<longleftrightarrow> first_span rows me ef et = Some c"
proof -
  obtain rest where o: "plan_owned rows gaps ef et me =
      (case first_span rows me ef et of Some c \<Rightarrow> [c_id c] | None \<Rightarrow> []) @ rest"
    "\<forall>x \<in> set rest. spanless rows x" using plan_owned_shape by blast
  have f: "find_change rows (c_id c) = Some c" using find_change_iff[OF assms(1)] assms(2) by simp
  with assms(3) o(2) have "c_id c \<notin> set rest" by (auto simp: spanless_def)
  moreover have "d = c" if "first_span rows me ef et = Some d" "c_id c = c_id d" for d
    using first_span_Some(1)[OF that(1)] find_change_iff[OF assms(1), of "c_id d" d] f that(2) by simp
  ultimately show ?thesis using o(1) by (auto split: option.splits)
qed

text \<open>What is covered after the edit: the inserted text when the edit is recorded, and
  elsewhere exactly what was covered before.\<close>

lemma out_covered:
  assumes d: "distinct (map (c_id \<circ> fst) rows)" and "ef \<le> et"
    and "plan_spans (map_option c_id mine) owned ef et len mint rows k = (out, new, k')"
    and "mine = None \<or> mine = Some (widen_mine rows owned ef et len m)"
    and "owned = plan_owned rows gaps ef et me \<or> mine = None"
  shows "covered (out @ new @ (case mine of Some m \<Rightarrow> [(m, Set)] | None \<Rightarrow> [])) q \<longleftrightarrow>
    (if q < ef then covered rows q
     else if q < ef + len then mine \<noteq> None else covered rows (pre_pos ef et len q))"
proof -
  have old: "(\<exists>c \<in> fst ` set rows. spans_pos_after ef et len c q) \<longleftrightarrow>
    (if q < ef then covered rows q else if q < ef + len then False else covered rows (pre_pos ef et len q))"
    by (auto simp: spans_pos_after_def covered_def)
  note sp = plan_spans_covers[OF assms(2,3), of q]
  show ?thesis
  proof (cases mine)
    case None
    with sp old show ?thesis by simp
  next
    case (Some w)
    with assms(4,5) have w: "w = widen_mine rows (plan_owned rows gaps ef et me) ef et len m"
      and o: "owned = plan_owned rows gaps ef et me" by auto
    have "(\<exists>c \<in> fst ` set rows. c_id c \<notin> set owned \<and> spans_pos_after ef et len c q) \<or>
        (\<exists>c. first_span rows me ef et = Some c \<and> spans_pos_after ef et len c q) \<longleftrightarrow>
        (\<exists>c \<in> fst ` set rows. spans_pos_after ef et len c q)"
      using owned_span_first[OF d, of _ gaps ef et me] first_span_Some(1)[of rows me ef et]
        spans_pos_after_has_span unfolding o by metis
    with Some sp old mine_covers[OF d assms(2), of gaps me len m q] show ?thesis
      by (auto simp: w split: if_splits)
  qed
qed

section \<open>One edit\<close>

definition recorded :: "row list \<Rightarrow> nat \<Rightarrow> nat \<Rightarrow> ustr \<Rightarrow> bool \<Rightarrow> bool" where
  "recorded rows ef et ins untracked \<longleftrightarrow> \<not> untracked \<and> (removes_original rows ef et \<or> length ins > 0)"

text \<open>Where the merged gap goes: the start of the own span the edit touches, or the edit.\<close>

definition merge_pos :: "row list \<Rightarrow> author \<Rightarrow> nat \<Rightarrow> nat \<Rightarrow> bool \<Rightarrow> nat" where
  "merge_pos rows me ef et rec =
    (if rec then (case first_span rows me ef et of None \<Rightarrow> ef | Some c \<Rightarrow> min ef (c_from c)) else ef)"

text \<open>The texts at each position after the edit, given the texts merged at \<open>pos\<close> and put after
  the inserted text.\<close>

definition gaps_after ::
  "gap_row list \<Rightarrow> nat \<Rightarrow> nat \<Rightarrow> nat \<Rightarrow> nat \<Rightarrow> ustr \<Rightarrow> ustr \<Rightarrow> nat \<Rightarrow> ustr" where
  "gaps_after gaps ef et len pos merged after i =
    (if i < ef then gap_text gaps i
     else if i \<le> ef + len then [] else gap_text gaps (i + (et - ef) - len)) @
    (if i = pos then merged else []) @ (if i = ef + len then after else [])"

lemma own_at_end_none: "\<not> own_at_end rows sw [] me et"
  by (auto simp: own_at_end_def list_ex_iff)

lemma plan_one_stages:
  assumes "plan_one cur rows gaps ef et ins me run now untracked mint k = (nc, ng, k')"
  obtains owned mine m0 k1 sp merged after out new k2 pos g1 ids k3 g2 g3 where
    "owned = (if untracked then [] else plan_owned rows gaps ef et me)"
    "mine = (if recorded rows ef et ins untracked then Some (widen_mine rows owned ef et (length ins) m0) else None)"
    "(m0, k1) = plan_mine rows owned ef me run now mint k \<and> recorded rows ef et ins untracked \<or>
      k1 = k \<and> \<not> recorded rows ef et ins untracked"
    "sp = (length ins > 0 \<and> \<not> own_at_end rows (swallowed_gaps gaps ef et) owned me et)"
    "plan_walk cur rows (map_option c_id mine) owned (swallowed_gaps gaps ef et) sp ef et = (merged, after)"
    "plan_spans (map_option c_id mine) owned ef et (length ins) mint rows k1 = (out, new, k2)"
    "pos = (case mine of Some m \<Rightarrow> c_from m | None \<Rightarrow> ef)"
    "place_merged pos merged mint k2 (map g_id (swallowed_gaps gaps ef et)) (outer_gaps gaps ef et (length ins)) = (g1, ids, k3)"
    "place_after (ef + length ins) after mint k3 ids g1 = (g2, k')"
    "g3 = (case mine of Some m \<Rightarrow> map (reown_gap (c_id m) owned) g2 | None \<Rightarrow> g2)"
    "nc = map (settle_row ng) (plan_live (out @ new @ (case mine of Some m \<Rightarrow> [(m, Set)] | None \<Rightarrow> [])) g3)"
    "ng = sort_key (\<lambda>(g, _). g_at g) g3"
proof -
  define rec where "rec = recorded rows ef et ins untracked"
  define owned where "owned = (if untracked then [] else plan_owned rows gaps ef et me)"
  define m0 where "m0 = fst (plan_mine rows owned ef me run now mint k)"
  define k1 where "k1 = (if rec then snd (plan_mine rows owned ef me run now mint k) else k)"
  define mine where "mine = (if rec then Some (widen_mine rows owned ef et (length ins) m0) else None)"
  define sp where "sp = (length ins > 0 \<and> \<not> own_at_end rows (swallowed_gaps gaps ef et) owned me et)"
  obtain merged after where w: "plan_walk cur rows (map_option c_id mine) owned (swallowed_gaps gaps ef et) sp ef et
      = (merged, after)" by (cases "plan_walk cur rows (map_option c_id mine) owned (swallowed_gaps gaps ef et) sp ef et")
  obtain out new k2 where s: "plan_spans (map_option c_id mine) owned ef et (length ins) mint rows k1 = (out, new, k2)"
    by (cases "plan_spans (map_option c_id mine) owned ef et (length ins) mint rows k1") auto
  define pos where "pos = (case mine of Some m \<Rightarrow> c_from m | None \<Rightarrow> ef)"
  obtain g1 ids k3 where p1: "place_merged pos merged mint k2 (map g_id (swallowed_gaps gaps ef et))
      (outer_gaps gaps ef et (length ins)) = (g1, ids, k3)"
    by (cases "place_merged pos merged mint k2 (map g_id (swallowed_gaps gaps ef et))
      (outer_gaps gaps ef et (length ins))") auto
  obtain g2 k4 where p2: "place_after (ef + length ins) after mint k3 ids g1 = (g2, k4)"
    by (cases "place_after (ef + length ins) after mint k3 ids g1")
  define g3 where "g3 = (case mine of Some m \<Rightarrow> map (reown_gap (c_id m) owned) g2 | None \<Rightarrow> g2)"
  have res: "nc = map (settle_row (sort_key (\<lambda>(g, _). g_at g) g3))
      (plan_live (out @ new @ (case mine of Some m \<Rightarrow> [(m, Set)] | None \<Rightarrow> [])) g3)"
    "ng = sort_key (\<lambda>(g, _). g_at g) g3" "k' = k4"
    using assms(1) w s p1 p2
    unfolding plan_one_def Let_def owned_def[symmetric] g3_def pos_def sp_def mine_def k1_def m0_def rec_def recorded_def
    by (auto simp: split_def split: if_splits)
  show thesis
  proof (rule that[OF owned_def mine_def[unfolded rec_def] _ sp_def w s pos_def p1 _ g3_def])
    show "(m0, k1) = plan_mine rows owned ef me run now mint k \<and> recorded rows ef et ins untracked \<or>
        k1 = k \<and> \<not> recorded rows ef et ins untracked"
      by (simp add: m0_def k1_def rec_def)
  qed (simp_all add: p2 res)
qed

lemma plan_one_effect:
  assumes "plan_one cur rows gaps ef et ins me run now untracked mint k = (nc, ng, k')"
    and d: "distinct (map (c_id \<circ> fst) rows)" and le: "ef \<le> et"
  shows "\<exists>sp. (sp \<longrightarrow> ins \<noteq> []) \<and> (untracked \<and> ins \<noteq> [] \<longrightarrow> sp) \<and>
    (\<forall>q. covered nc q \<longleftrightarrow>
      (if q < ef then covered rows q
       else if q < ef + length ins then recorded rows ef et ins untracked
       else covered rows (pre_pos ef et (length ins) q))) \<and>
    (\<forall>i. gap_text ng i = gaps_after gaps ef et (length ins)
      (merge_pos rows me ef et (recorded rows ef et ins untracked))
      (concat (map (\<lambda>p. gap_text gaps p @
          (if recorded rows ef et ins untracked then kept_char cur rows p else [])) [ef..<et]) @
        (if sp then [] else gap_text gaps et))
      (if sp then gap_text gaps et else []) i)"
  using assms(1)
proof (rule plan_one_stages, goal_cases)
  case (1 owned mine m0 k1 sp merged after out new k2 pos g1 ids k3 g2 g3)
  define rec where "rec = recorded rows ef et ins untracked"
  have mine_rec: "mine \<noteq> None \<longleftrightarrow> rec" by (simp add: 1(2) rec_def)
  have cov: "covered nc q \<longleftrightarrow> (if q < ef then covered rows q
       else if q < ef + length ins then rec else covered rows (pre_pos ef et (length ins) q))" for q
    using out_covered[OF d le 1(6), of m0 gaps me q] unfolding 1(11) mine_rec
    by (simp add: 1(1,2) rec_def recorded_def split: if_splits)
  have pos: "pos = merge_pos rows me ef et rec"
    by (auto simp: 1(1,2,7) merge_pos_def rec_def recorded_def widen_first[OF d] split: option.splits)
  have "gap_text g3 i = gap_text g2 i" for i by (simp add: 1(10) split: option.splits)
  then have gt: "gap_text ng i = gap_text (outer_gaps gaps ef et (length ins)) i @
      (if i = pos then texts merged else []) @ (if i = ef + length ins then texts after else [])" for i
    using gap_text_place_merged[of pos merged mint k2 "map g_id (swallowed_gaps gaps ef et)" "outer_gaps gaps ef et (length ins)" i]
      gap_text_place_after[of "ef + length ins" after mint k3 ids g1 i]
    by (simp add: 1(8,9,12) gap_text_sort)
  have tx: "texts merged = concat (map (\<lambda>p. gap_text gaps p @ (if rec then kept_char cur rows p else [])) [ef..<et]) @
       (if sp then [] else gap_text gaps et)" "texts after = (if sp then gap_text gaps et else [])"
    using plan_walk_texts[OF le, of cur rows "map_option c_id mine" owned gaps sp] mine_rec
    by (simp_all add: 1(5) both_def)
  show ?case
  proof (intro exI[of _ sp] conjI allI impI)
    show "sp \<Longrightarrow> ins \<noteq> []" "untracked \<and> ins \<noteq> [] \<Longrightarrow> sp"
      by (auto simp: 1(1,4) own_at_end_none)
  qed (simp_all only: cov gt tx pos gap_text_outer[OF le] rec_def[symmetric] gaps_after_def)
qed

section \<open>Putting the pieces together\<close>

lemma pieces_split: "i \<le> j \<Longrightarrow> j \<le> l \<Longrightarrow> pieces cur rows gaps i l = pieces cur rows gaps i j @ pieces cur rows gaps j l"
  using upt_add_eq_append[of i j "l - j"] by (simp add: pieces_def)

lemma pieces_single: "pieces cur rows gaps i (Suc i) = gap_text gaps i @ kept_char cur rows i"
  by (simp add: pieces_def)

lemma pieces_none [simp]: "pieces cur rows gaps i i = []"
  by (simp add: pieces_def)

lemma pieces_shift:
  assumes "\<And>t. t < j - i \<Longrightarrow> gap_text gaps (i + t) @ kept_char cur rows (i + t) =
      gap_text gaps' (i' + t) @ kept_char cur' rows' (i' + t)" "j - i = j' - i'"
  shows "pieces cur rows gaps i j = pieces cur' rows' gaps' i' j'"
proof -
  have upt: "[a..<b] = map ((+) a) [0..<b - a]" for a b
    by (rule nth_equalityI) simp_all
  have "map (\<lambda>p. gap_text gaps p @ kept_char cur rows p) [i..<j] =
      map (\<lambda>p. gap_text gaps' p @ kept_char cur' rows' p) [i'..<j']"
    using assms unfolding upt[of i j] upt[of i' j'] by simp
  then show ?thesis by (simp add: pieces_def)
qed

lemma pieces_gap:
  assumes "i < j" "\<And>p. i < p \<Longrightarrow> p < j \<Longrightarrow> gap_text gaps p = []" "\<And>p. i \<le> p \<Longrightarrow> p < j \<Longrightarrow> kept_char cur rows p = []"
  shows "pieces cur rows gaps i j = gap_text gaps i"
proof -
  have "pieces cur rows gaps i j = pieces cur rows gaps i (Suc i) @ pieces cur rows gaps (Suc i) j"
    using assms(1) by (intro pieces_split) auto
  moreover have "pieces cur rows gaps (Suc i) j = []" using assms by (auto simp: pieces_def)
  ultimately show ?thesis using assms by (simp add: pieces_single)
qed

lemma pieces_chars:
  assumes "\<And>p. i \<le> p \<Longrightarrow> p < j \<Longrightarrow> gap_text gaps p = (if p = i then t else [])" "i < j \<or> t = []"
    "\<And>p. i \<le> p \<Longrightarrow> p < j \<Longrightarrow> kept_char cur rows p = [xs ! (p - i)]" "length xs = j - i"
  shows "pieces cur rows gaps i j = t @ xs"
  using assms
proof (induction xs arbitrary: i t)
  case Nil
  then show ?case by (simp add: pieces_def)
next
  case (Cons x xs)
  then have ij: "i < j" by (metis length_Cons zero_less_Suc zero_less_diff)
  have "pieces cur rows gaps (Suc i) j = [] @ xs"
  proof (rule Cons.IH)
    fix p assume "Suc i \<le> p" "p < j"
    with Cons.prems(1)[of p] Cons.prems(3)[of p]
    show "gap_text gaps p = (if p = Suc i then [] else [])" "kept_char cur rows p = [xs ! (p - Suc i)]"
      by (simp_all add: nth_Cons' Suc_diff_le)
  qed (use Cons.prems(4) in auto)
  moreover have "pieces cur rows gaps i j = pieces cur rows gaps i (Suc i) @ pieces cur rows gaps (Suc i) j"
    using ij by (intro pieces_split) auto
  ultimately show ?case using Cons.prems(1)[of i] Cons.prems(3)[of i] ij by (simp add: pieces_single)
qed

lemma kept_char_splice:
  assumes "ef \<le> et" "et \<le> length cur"
    and "\<And>q. covered nc q \<longleftrightarrow> (if q < ef then covered rows q
       else if q < ef + length ins then rec else covered rows (pre_pos ef et (length ins) q))"
  shows "kept_char (splice ef et ins cur) nc q =
    (if q < ef then kept_char cur rows q
     else if q < ef + length ins then (if rec then [] else [ins ! (q - ef)])
     else kept_char cur rows (pre_pos ef et (length ins) q))"
proof -
  have le: "ef \<le> length cur" using assms(1,2) by simp
  have "length (splice ef et ins cur) = length cur + length ins - (et - ef)"
    using assms(1,2) by (simp add: splice_def)
  moreover have "q < length cur + length ins - (et - ef) \<Longrightarrow> splice ef et ins cur ! q =
      (if q < ef then cur ! q else if q < ef + length ins then ins ! (q - ef)
       else cur ! pre_pos ef et (length ins) q)"
    using assms(1,2) le
    by (auto simp: splice_def nth_append pre_pos_def min_absorb2 intro!: arg_cong[where f = "(!) cur"])
  ultimately show ?thesis using assms by (auto simp: kept_char_def pre_pos_def)
qed

text \<open>Between the start of the own span an edit touches and the edit itself there is nothing of
  the original text but what sits at that start.\<close>

lemma merge_pos_own_span:
  assumes "merge_pos rows me ef et rec \<le> p" "p < ef"
  obtains c where "c \<in> fst ` set rows" "c_from c \<le> p" "p < c_to c" "c_from c = merge_pos rows me ef et rec"
proof -
  from assms obtain c where "first_span rows me ef et = Some c" "c_from c \<le> p" "merge_pos rows me ef et rec = c_from c"
    by (auto simp: merge_pos_def min_def split: if_splits option.splits)
  with first_span_Some[of rows me ef et c] assms(2) that show ?thesis by auto
qed

lemma merge_pos_blank:
  assumes wf: "wf_rows n rows gaps"
  shows "\<forall>p. merge_pos rows me ef et rec < p \<and> p < ef \<longrightarrow> gap_text gaps p = []"
    and "\<forall>p. merge_pos rows me ef et rec \<le> p \<and> p < ef \<longrightarrow> kept_char cur rows p = []"
proof -
  show "\<forall>p. merge_pos rows me ef et rec < p \<and> p < ef \<longrightarrow> gap_text gaps p = []"
  proof (intro allI impI gap_text_none ballI)
    fix p r assume p: "merge_pos rows me ef et rec < p \<and> p < ef" and "r \<in> set gaps"
    then obtain c where "c \<in> fst ` set rows" "c_from c < p" "p < c_to c"
      using merge_pos_own_span[of rows me ef et rec p] by (metis less_imp_le)
    with wf \<open>r \<in> set gaps\<close> show "g_at (fst r) \<noteq> p" unfolding wf_rows_def by blast
  qed
  show "\<forall>p. merge_pos rows me ef et rec \<le> p \<and> p < ef \<longrightarrow> kept_char cur rows p = []"
    by (metis covered_def spans_pos_def kept_char_def merge_pos_own_span)
qed

lemma merge_pos_le: "merge_pos rows me ef et rec \<le> ef" "rec \<or> merge_pos rows me ef et rec = ef"
  by (auto simp: merge_pos_def split: option.splits)

lemma edit_middle:
  assumes le: "ef \<le> et" "et \<le> length cur" "pos \<le> ef" "rec \<or> pos = ef"
    and cov: "\<forall>q. covered nc q \<longleftrightarrow> (if q < ef then covered rows q
       else if q < ef + length ins then rec else covered rows (pre_pos ef et (length ins) q))"
    and gt: "\<forall>i. gap_text ng i = gaps_after gaps ef et (length ins) pos merged after i"
    and blank: "\<forall>p. pos < p \<and> p < ef \<longrightarrow> gap_text gaps p = []"
      "\<forall>p. pos \<le> p \<and> p < ef \<longrightarrow> kept_char cur rows p = []"
  shows "pieces (splice ef et ins cur) nc ng pos (ef + length ins) @ gap_text ng (ef + length ins) =
      (if pos < ef then gap_text gaps pos else []) @ merged @ (if rec then [] else ins) @ after"
proof -
  note kc = kept_char_splice[OF le(1,2) cov[rule_format]]
  consider (rec) "rec" "pos < ef + length ins" | (empty) "pos = ef" "ins = []" | (new) "\<not> rec" "pos = ef" "ins \<noteq> []"
    using le(3,4) length_greater_0_conv[of ins]
    by (cases rec; cases "ins = []"; cases "pos = ef") fastforce+
  then show ?thesis
  proof cases
    case rec
    then have "pieces (splice ef et ins cur) nc ng pos (ef + length ins) = gap_text ng pos"
      by (intro pieces_gap) (auto simp: gt kc gaps_after_def blank)
    with rec le(3) show ?thesis by (auto simp: gt gaps_after_def)
  next
    case empty
    then show ?thesis by (simp add: gt gaps_after_def)
  next
    case new
    then have "pieces (splice ef et ins cur) nc ng ef (ef + length ins) = merged @ ins"
      by (intro pieces_chars) (auto simp: gt kc gaps_after_def)
    with new show ?thesis by (simp add: gt gaps_after_def)
  qed
qed

lemma edit_original:
  assumes le: "ef \<le> et" "et \<le> length cur" "pos \<le> ef" "rec \<or> pos = ef"
    and cov: "\<forall>q. covered nc q \<longleftrightarrow> (if q < ef then covered rows q
       else if q < ef + length ins then rec else covered rows (pre_pos ef et (length ins) q))"
    and gt: "\<forall>i. gap_text ng i = gaps_after gaps ef et (length ins) pos merged after i"
    and blank: "\<forall>p. pos < p \<and> p < ef \<longrightarrow> gap_text gaps p = []"
      "\<forall>p. pos \<le> p \<and> p < ef \<longrightarrow> kept_char cur rows p = []"
  shows "original (splice ef et ins cur) nc ng =
    pieces cur rows gaps 0 ef @ merged @ (if rec then [] else ins) @ after @ kept_char cur rows et @
    pieces cur rows gaps (Suc et) (Suc (length cur))"
proof -
  let ?L = "length ins" let ?cur' = "splice ef et ins cur"
  note kc = kept_char_splice[OF le(1,2) cov[rule_format]]
  note mid = edit_middle[OF le cov gt blank]
  have len: "length ?cur' = length cur + ?L - (et - ef)" using le by (simp add: splice_def)
  have head: "pieces ?cur' nc ng 0 pos = pieces cur rows gaps 0 pos"
    by (rule pieces_shift) (use le(3) in \<open>auto simp: gt kc gaps_after_def\<close>)
  have tail: "pieces ?cur' nc ng (Suc (ef + ?L)) (Suc (length ?cur')) = pieces cur rows gaps (Suc et) (Suc (length cur))"
    by (rule pieces_shift) (use le len in \<open>auto simp: gt kc pre_pos_def gaps_after_def add.commute\<close>)
  have split: "original ?cur' nc ng = pieces ?cur' nc ng 0 pos @
      (pieces ?cur' nc ng pos (ef + ?L) @ gap_text ng (ef + ?L)) @ kept_char ?cur' nc (ef + ?L) @
      pieces ?cur' nc ng (Suc (ef + ?L)) (Suc (length ?cur'))"
    unfolding original_def
    using pieces_split[of 0 pos "Suc (length ?cur')" ?cur' nc ng] len le
      pieces_split[of pos "ef + ?L" "Suc (length ?cur')" ?cur' nc ng]
      pieces_split[of "ef + ?L" "Suc (ef + ?L)" "Suc (length ?cur')" ?cur' nc ng]
    by (simp add: pieces_single)
  have "pieces cur rows gaps pos ef = (if pos < ef then gap_text gaps pos else [])"
    using pieces_gap[of pos ef gaps cur rows] blank by (cases "pos < ef") (auto simp: pieces_def)
  then have before: "pieces cur rows gaps 0 ef = pieces cur rows gaps 0 pos @ (if pos < ef then gap_text gaps pos else [])"
    using pieces_split[of 0 pos ef cur rows gaps] le(3) by simp
  have at: "kept_char ?cur' nc (ef + ?L) = kept_char cur rows et" using le by (simp add: kc pre_pos_def)
  show ?thesis unfolding split head mid tail at before by simp
qed

lemma plan_one_original:
  assumes p: "plan_one cur rows gaps ef et ins me run now untracked mint k = (nc, ng, k')"
    and wf: "wf_rows (length cur) rows gaps" and le: "ef \<le> et" "et \<le> length cur"
  shows "original (splice ef et ins cur) nc ng =
    pieces cur rows gaps 0 ef @
    concat (map (\<lambda>p. gap_text gaps p @
      (if recorded rows ef et ins untracked then kept_char cur rows p else [])) [ef..<et]) @
    (if recorded rows ef et ins untracked then [] else ins) @
    gap_text gaps et @ kept_char cur rows et @ pieces cur rows gaps (Suc et) (Suc (length cur))"
proof -
  let ?rec = "recorded rows ef et ins untracked"
  let ?M = "concat (map (\<lambda>p. gap_text gaps p @ (if ?rec then kept_char cur rows p else [])) [ef..<et])"
  have d: "distinct (map (c_id \<circ> fst) rows)" using wf by (simp add: wf_rows_def)
  from plan_one_effect[OF p d le(1)] obtain sp where sp: "sp \<longrightarrow> ins \<noteq> []" "untracked \<and> ins \<noteq> [] \<longrightarrow> sp"
    and cov: "\<forall>q. covered nc q \<longleftrightarrow> (if q < ef then covered rows q
       else if q < ef + length ins then ?rec else covered rows (pre_pos ef et (length ins) q))"
    and gt: "\<forall>i. gap_text ng i = gaps_after gaps ef et (length ins) (merge_pos rows me ef et ?rec)
      (?M @ (if sp then [] else gap_text gaps et)) (if sp then gap_text gaps et else []) i"
    by (elim exE conjE)
  note o = edit_original[OF le merge_pos_le cov gt merge_pos_blank[OF wf]]
  show ?thesis
  proof (cases sp)
    case True
    then show ?thesis by (subst o) simp
  next
    case False
    with sp have "?rec \<or> ins = []" by (auto simp: recorded_def)
    with False show ?thesis by (subst o) auto
  qed
qed

lemma not_removes_original: "\<not> removes_original rows ef et \<Longrightarrow> ef \<le> p \<Longrightarrow> p < et \<Longrightarrow> kept_char cur rows p = []"
  by (auto simp: removes_original_def list_ex_iff span_end_at_None kept_char_def)

lemma plan_one_keeps_original:
  assumes "plan_one cur rows gaps ef et ins me run now False mint k = (nc, ng, k')"
    and wf: "wf_rows (length cur) rows gaps" and le: "ef \<le> et" "et \<le> length cur"
  shows "original (splice ef et ins cur) nc ng = original cur rows gaps"
proof -
  let ?rec = "recorded rows ef et ins False"
  have "concat (map (\<lambda>p. gap_text gaps p @ (if ?rec then kept_char cur rows p else [])) [ef..<et])
      = pieces cur rows gaps ef et"
    unfolding pieces_def using not_removes_original[of rows ef et _ cur]
    by (intro arg_cong[where f = concat] map_cong refl) (auto simp: recorded_def)
  moreover have "?rec \<or> ins = []" by (auto simp: recorded_def)
  moreover have "original cur rows gaps = pieces cur rows gaps 0 ef @ pieces cur rows gaps ef et @
      (gap_text gaps et @ kept_char cur rows et) @ pieces cur rows gaps (Suc et) (Suc (length cur))"
    unfolding original_def
    using pieces_split[of 0 ef "Suc (length cur)" cur rows gaps] le
      pieces_split[of ef et "Suc (length cur)" cur rows gaps]
      pieces_split[of et "Suc et" "Suc (length cur)" cur rows gaps]
    by (simp add: pieces_single)
  ultimately show ?thesis using plan_one_original[OF assms] by auto
qed

end
