(* ===== verification/Track_Wf.thy ===== *)
theory Track_Wf
  imports Track_Original
begin

text \<open>
  The planner keeps its rows well formed: unique ids, spans inside the text and apart from one
  another, gaps inside the text and never strictly inside a span.  The argument is pointwise:
  two spans overlap exactly when they cover a common position, and a gap is strictly inside a
  span exactly when the span covers the positions on both sides of it.
\<close>

section \<open>Well-formedness, pointwise\<close>

definition apart :: "row list \<Rightarrow> bool" where
  "apart rows \<longleftrightarrow> (\<forall>c \<in> fst ` set rows. \<forall>d \<in> fst ` set rows. \<forall>p. spans_pos c p \<and> spans_pos d p \<longrightarrow> c_id c = c_id d)"

definition bounded :: "nat \<Rightarrow> row list \<Rightarrow> bool" where
  "bounded n rows \<longleftrightarrow>
    (\<forall>c \<in> fst ` set rows. c_from c \<le> c_to c \<and> (has_span c \<longrightarrow> c_to c \<le> n \<and> \<not> orphan c))"

definition clear_gap :: "row list \<Rightarrow> nat \<Rightarrow> bool" where
  "clear_gap rows i \<longleftrightarrow> (\<forall>p. i = Suc p \<longrightarrow> (\<forall>c \<in> fst ` set rows. \<not> (spans_pos c p \<and> spans_pos c i)))"

lemma apart_iff:
  "apart rows \<longleftrightarrow> (\<forall>c \<in> fst ` set rows. \<forall>d \<in> fst ` set rows.
     has_span c \<and> has_span d \<and> c_id c \<noteq> c_id d \<longrightarrow> c_to c \<le> c_from d \<or> c_to d \<le> c_from c)"
proof -
  have "(\<exists>p. spans_pos c p \<and> spans_pos d p) \<longleftrightarrow> has_span c \<and> has_span d \<and> \<not> (c_to c \<le> c_from d \<or> c_to d \<le> c_from c)" for c d
  proof
    assume "has_span c \<and> has_span d \<and> \<not> (c_to c \<le> c_from d \<or> c_to d \<le> c_from c)"
    then have "spans_pos c (max (c_from c) (c_from d)) \<and> spans_pos d (max (c_from c) (c_from d))"
      by (auto simp: spans_pos_def has_span_def)
    then show "\<exists>p. spans_pos c p \<and> spans_pos d p" by blast
  qed (auto simp: spans_pos_def has_span_def)
  then show ?thesis unfolding apart_def by blast
qed

lemma clear_gap_iff: "clear_gap rows i \<longleftrightarrow> (\<forall>c \<in> fst ` set rows. \<not> (c_from c < i \<and> i < c_to c))"
  by (cases i) (auto simp: clear_gap_def spans_pos_def less_Suc_eq_le)

lemma wf_rows_iff:
  "wf_rows n rows gaps \<longleftrightarrow> distinct (map (c_id \<circ> fst) rows) \<and> bounded n rows \<and> apart rows \<and>
    (\<forall>g \<in> fst ` set gaps. g_at g \<le> n \<and> clear_gap rows (g_at g))"
  unfolding wf_rows_def apart_iff clear_gap_iff bounded_def by blast

section \<open>Where each planned row comes from\<close>

lemma span_row_source:
  assumes "ef \<le> et" "span_row ef et len mint (c, st) k = (r, new, k')"
  shows "\<forall>x \<in> set (r # new). \<forall>q. spans_pos (fst x) q \<longrightarrow> spans_pos_after ef et len c q"
    and "\<forall>x \<in> set new. \<forall>q. spans_pos (fst r) q \<longrightarrow> \<not> spans_pos (fst x) q"
    and "length new \<le> 1" "new = [] \<and> k' = k \<or> (\<exists>x. new = [x] \<and> c_id (fst x) = mint k \<and> k' = Suc k)"
    and "c_id (fst r) = c_id c"
  using assms unfolding span_row_def Let_def case_prod_conv
  by (auto simp: spans_pos_def spans_pos_after_def pre_pos_def has_span_def shift_def emptied_at_def
      split: if_splits)

lemma span_row_bounded:
  assumes "ef \<le> et" "et \<le> n" "c_from c \<le> c_to c \<and> (has_span c \<longrightarrow> c_to c \<le> n \<and> \<not> orphan c)"
    and "span_row ef et len mint (c, st) k = (r, new, k')" "x \<in> set (r # new)"
  shows "c_from (fst x) \<le> c_to (fst x) \<and> (has_span (fst x) \<longrightarrow> c_to (fst x) \<le> n - (et - ef) + len \<and> \<not> orphan (fst x))"
  using assms unfolding span_row_def Let_def case_prod_conv
  by (auto simp: has_span_def shift_def emptied_at_def split: if_splits)

text \<open>The rows around the edit: each has a source that is not merged, whose cover it keeps; no
  position is covered twice; and the ids are those of the rows that are not merged, with fresh
  ones for the parts split off.\<close>

lemma plan_spans_source:
  assumes le: "ef \<le> et" and "plan_spans mine owned ef et len mint rows k = (out, new, k')" "x \<in> set (out @ new)"
  shows "(\<exists>c \<in> fst ` set rows. \<not> (mine \<noteq> None \<and> c_id c \<in> set owned) \<and>
      (\<forall>q. spans_pos (fst x) q \<longrightarrow> spans_pos_after ef et len c q)) \<or> (\<forall>q. \<not> spans_pos (fst x) q)"
  using assms(2,3)
proof (induction rows arbitrary: k out new k')
  case (Cons r rows)
  obtain c st where r: "r = (c, st)" by (cases r)
  show ?case
  proof (cases "mine \<noteq> None \<and> c_id c \<in> set owned")
    case True
    then obtain out' where p: "plan_spans mine owned ef et len mint rows k = (out', new, k')"
      "out = (if Some (c_id c) \<noteq> mine then emptied_at (ef + len) c # out' else out')"
      using Cons.prems by (auto simp: r Let_def split: prod.splits if_splits)
    show ?thesis
    proof (cases "x \<in> set (out' @ new)")
      case True
      from Cons.IH[OF p(1) True] show ?thesis by auto
    next
      case False
      with Cons.prems(2) p(2) have "x = emptied_at (ef + len) c" by (auto split: if_splits)
      then show ?thesis by (auto simp: emptied_at_def spans_pos_def)
    qed
  next
    case False
    then obtain s n1 k1 out' n2 where p: "span_row ef et len mint (c, st) k = (s, n1, k1)"
      "plan_spans mine owned ef et len mint rows k1 = (out', n2, k')" "out = s # out'" "new = n1 @ n2"
      using Cons.prems by (auto simp: r Let_def split: prod.splits if_splits)
    from Cons.prems(2) p(3,4) have "x \<in> set (s # n1) \<or> x \<in> set (out' @ n2)" by auto
    then show ?thesis
    proof
      assume "x \<in> set (s # n1)"
      with span_row_source(1)[OF le p(1)] False r show ?thesis by fastforce
    next
      assume "x \<in> set (out' @ n2)"
      from Cons.IH[OF p(2) this] show ?thesis by auto
    qed
  qed
qed simp

lemma plan_spans_ids:
  assumes "ef \<le> et" "plan_spans mine owned ef et len mint rows k = (out, new, k')"
  shows "map (c_id \<circ> fst) out = filter (\<lambda>i. \<not> (i \<in> set owned \<and> Some i = mine)) (map (c_id \<circ> fst) rows)"
    and "map (c_id \<circ> fst) new = map mint [k..<k'] \<and> k \<le> k'"
  using assms(2)
proof (induction rows arbitrary: k out new k')
  case (Cons r rows)
  obtain c st where r: "r = (c, st)" by (cases r)
  {
    case 1
    then show ?case using Cons.IH(1) span_row_source(5)[OF assms(1)]
      by (auto simp: r Let_def emptied_at_def split: prod.splits if_splits)
  next
    case 2
    show ?case
    proof (cases "mine \<noteq> None \<and> c_id c \<in> set owned")
      case True
      with 2 Cons.IH(2) show ?thesis by (auto simp: r Let_def split: prod.splits if_splits)
    next
      case False
      then obtain s n1 k1 out' n2 where p: "span_row ef et len mint (c, st) k = (s, n1, k1)"
        "plan_spans mine owned ef et len mint rows k1 = (out', n2, k')" "new = n1 @ n2"
        using 2 by (auto simp: r Let_def split: prod.splits if_splits)
      from Cons.IH(2)[OF p(2)] span_row_source(4)[OF assms(1) p(1)] p(3) show ?thesis
        by (auto simp: upt_conv_Cons)
    qed
  }
qed simp_all

lemma spans_pos_after_common: "spans_pos_after ef et len c q \<Longrightarrow> spans_pos_after ef et len d q \<Longrightarrow> \<exists>p. spans_pos c p \<and> spans_pos d p"
  by (auto simp: spans_pos_after_def split: if_splits)

lemma plan_spans_apart:
  assumes le: "ef \<le> et" and "plan_spans mine owned ef et len mint rows k = (out, new, k')"
    and "distinct (map (c_id \<circ> fst) rows)" "apart rows"
  shows "apart (out @ new)"
  using assms(2-)
proof (induction rows arbitrary: k out new k')
  case Nil
  then show ?case by (simp add: apart_def)
next
  case (Cons r rows)
  obtain c st where r: "r = (c, st)" by (cases r)
  have tl: "distinct (map (c_id \<circ> fst) rows)" "apart rows" "c_id c \<notin> c_id ` fst ` set rows"
    using Cons.prems(2,3) by (auto simp: r apart_def image_image o_def)
  show ?case
  proof (cases "mine \<noteq> None \<and> c_id c \<in> set owned")
    case True
    then obtain out' where p: "plan_spans mine owned ef et len mint rows k = (out', new, k')"
      "out = (if Some (c_id c) \<noteq> mine then emptied_at (ef + len) c # out' else out')"
      using Cons.prems by (auto simp: r Let_def split: prod.splits if_splits)
    have "\<not> spans_pos (fst (emptied_at (ef + len) c)) q" for q by (simp add: emptied_at_def spans_pos_def)
    with Cons.IH[OF p(1) tl(1,2)] p(2) show ?thesis unfolding apart_def by (auto split: if_splits)
  next
    case False
    then obtain s n1 k1 out' n2 where p: "span_row ef et len mint (c, st) k = (s, n1, k1)"
      "plan_spans mine owned ef et len mint rows k1 = (out', n2, k')" "out = s # out'" "new = n1 @ n2"
      using Cons.prems by (auto simp: r Let_def split: prod.splits if_splits)
    note src = span_row_source[OF le p(1)]
    have here: "c_id (fst x) = c_id (fst y)" if "x \<in> set (s # n1)" "y \<in> set (s # n1)" "spans_pos (fst x) q" "spans_pos (fst y) q" for x y q
      using src(2,4) that by auto
    have cross: False if "x \<in> set (s # n1)" "y \<in> set (out' @ n2)" "spans_pos (fst x) q" "spans_pos (fst y) q" for x y q
    proof -
      from src(1) that have "spans_pos_after ef et len c q" by blast
      moreover from plan_spans_source[OF le p(2) that(2)] that(4)
      obtain d where d: "d \<in> fst ` set rows" "spans_pos_after ef et len d q" by blast
      ultimately obtain pp where "spans_pos c pp" "spans_pos d pp" using spans_pos_after_common by blast
      with Cons.prems(3) d(1) r have "c_id c = c_id d" unfolding apart_def by fastforce
      with tl(3) d(1) show False by auto
    qed
    have "c_id (fst x) = c_id (fst y)" if "x \<in> set (out @ new)" "y \<in> set (out @ new)" "spans_pos (fst x) q" "spans_pos (fst y) q" for x y q
    proof -
      have "x \<in> set (s # n1) \<or> x \<in> set (out' @ n2)" "y \<in> set (s # n1) \<or> y \<in> set (out' @ n2)"
        using that(1,2) p(3,4) by auto
      with here cross Cons.IH[OF p(2) tl(1,2)] that(3,4) show ?thesis unfolding apart_def by blast
    qed
    then show ?thesis unfolding apart_def by blast
  qed
qed

lemma plan_spans_bounded:
  assumes "ef \<le> et" "et \<le> n" "plan_spans mine owned ef et len mint rows k = (out, new, k')" "bounded n rows"
  shows "bounded (n - (et - ef) + len) (out @ new)"
  using assms(3,4)
proof (induction rows arbitrary: k out new k')
  case Nil
  then show ?case by (simp add: bounded_def)
next
  case (Cons r rows)
  obtain c st where r: "r = (c, st)" by (cases r)
  have tl: "bounded n rows" "c_from c \<le> c_to c \<and> (has_span c \<longrightarrow> c_to c \<le> n \<and> \<not> orphan c)"
    using Cons.prems(2) by (auto simp: r bounded_def)
  show ?case
  proof (cases "mine \<noteq> None \<and> c_id c \<in> set owned")
    case True
    then obtain out' where p: "plan_spans mine owned ef et len mint rows k = (out', new, k')"
      "out = (if Some (c_id c) \<noteq> mine then emptied_at (ef + len) c # out' else out')"
      using Cons.prems by (auto simp: r Let_def split: prod.splits if_splits)
    with Cons.IH[OF p(1) tl(1)] show ?thesis by (auto simp: bounded_def emptied_at_def has_span_def split: if_splits)
  next
    case False
    then obtain s n1 k1 out' n2 where p: "span_row ef et len mint (c, st) k = (s, n1, k1)"
      "plan_spans mine owned ef et len mint rows k1 = (out', n2, k')" "out = s # out'" "new = n1 @ n2"
      using Cons.prems by (auto simp: r Let_def split: prod.splits if_splits)
    from Cons.IH[OF p(2) tl(1)] span_row_bounded[OF assms(1,2) tl(2) p(1)] p(3,4) show ?thesis
      unfolding bounded_def by auto
  qed
qed

section \<open>Where each planned gap is\<close>

lemma outer_gaps_at:
  assumes "ef \<le> et" "r \<in> set (outer_gaps gaps ef et len)"
  shows "\<exists>g \<in> fst ` set gaps. g_at g < ef \<and> g_at (fst r) = g_at g \<or>
    et < g_at g \<and> g_at (fst r) = g_at g - (et - ef) + len"
  using assms by (force simp: outer_gaps_def map_filter_def shift_after split: if_splits)

lemma place_merged_at:
  "r \<in> set (fst (place_merged pos merged mint k ids gaps)) \<Longrightarrow> r \<in> set gaps \<or> g_at (fst r) = pos \<and> merged \<noteq> []"
proof (cases "filter (\<lambda>(g, _). g_at g = pos) gaps")
  case (Cons f rest)
  then have "f \<in> set (filter (\<lambda>(g, _). g_at g = pos) gaps)" by simp
  then have "g_at (fst f) = pos" by auto
  with Cons show "r \<in> set (fst (place_merged pos merged mint k ids gaps)) \<Longrightarrow> r \<in> set gaps \<or> g_at (fst r) = pos \<and> merged \<noteq> []"
    by (auto simp: place_merged_def Let_def split: prod.splits if_splits)
qed (auto simp: place_merged_def Let_def split: prod.splits if_splits)

lemma place_after_at:
  "r \<in> set (fst (place_after p after mint k ids gaps)) \<Longrightarrow> r \<in> set gaps \<or> g_at (fst r) = p \<and> after \<noteq> []"
  by (auto simp: place_after_def Let_def split: prod.splits if_splits)

lemma reown_gap_at [simp]: "g_at (fst (reown_gap m owned r)) = g_at (fst r)"
  by (simp add: reown_gap_def Let_def case_prod_beta)

section \<open>The planned rows\<close>

lemma widen_id [simp]: "c_id (widen_mine rows owned ef et len m) = c_id m"
    "orphan (widen_mine rows owned ef et len m) = orphan m"
  by (simp_all add: widen_mine_def split: prod.splits)

lemma plan_mine_cases:
  assumes "(m, k1) = plan_mine rows owned ef me run now mint k"
  shows "\<not> orphan m \<and> (c_id m \<in> set owned \<and> c_id m \<in> c_id ` fst ` set rows \<and> k1 = k \<or> c_id m = mint k \<and> k1 = Suc k)"
proof (cases "min_by (\<lambda>a b. c_from a \<le> c_from b) (List.map_filter (find_change rows) owned)")
  case None
  with assms show ?thesis by (simp add: plan_mine_def)
next
  case (Some c)
  from min_by_in[OF Some] obtain x where x: "x \<in> set owned" "find_change rows x = Some c"
    by (auto simp: map_filter_def)
  have "c \<in> fst ` set rows" using x(2)
    by (auto simp: find_change_def find_Some_iff) (metis fst_conv image_eqI nth_mem)
  with Some assms x find_change_id[OF x(2)] show ?thesis by (auto simp: plan_mine_def)
qed

text \<open>A row of the result stands for one planned row: same id, same cover.\<close>

lemma settled_row:
  assumes "x \<in> set (map (settle_row ng) (plan_live all g3))"
  shows "\<exists>y \<in> set all. c_id (fst x) = c_id (fst y) \<and> (\<forall>q. spans_pos (fst x) q = spans_pos (fst y) q) \<and>
    has_span (fst x) = has_span (fst y) \<and> orphan (fst x) = orphan (fst y) \<and>
    (has_span (fst y) \<longrightarrow> c_to (fst x) = c_to (fst y)) \<and> (c_from (fst y) \<le> c_to (fst y) \<longrightarrow> c_from (fst x) \<le> c_to (fst x))"
proof -
  have s: "c_id (fst (settle_row ng r)) = c_id (fst r) \<and> has_span (fst (settle_row ng r)) = has_span (fst r) \<and>
     orphan (fst (settle_row ng r)) = orphan (fst r) \<and> (has_span (fst r) \<longrightarrow> c_to (fst (settle_row ng r)) = c_to (fst r)) \<and>
     (c_from (fst r) \<le> c_to (fst r) \<longrightarrow> c_from (fst (settle_row ng r)) \<le> c_to (fst (settle_row ng r)))" for r
    by (auto simp: settle_row_def Let_def has_span_def case_prod_beta split: option.splits)
  from assms obtain r where r: "r \<in> set (plan_live all g3)" "x = settle_row ng r" by auto
  then obtain y where y: "y \<in> set all" "fst r = fst y \<or> fst r = (fst y)\<lparr>emptied := False\<rparr>"
    by (auto simp: plan_live_def Let_def split: if_splits)
  from y(2) have e: "c_id (fst r) = c_id (fst y)" "c_from (fst r) = c_from (fst y)" "c_to (fst r) = c_to (fst y)"
    "orphan (fst r) = orphan (fst y)" by auto
  then have "has_span (fst r) = has_span (fst y)" "spans_pos (fst r) q = spans_pos (fst y) q" for q
    by (simp_all add: has_span_def spans_pos_def)
  with e s[of r] r(2) settle_row_covers[of ng r] show ?thesis by (intro bexI[OF _ y(1)]) simp
qed

lemma distinct_settled:
  assumes "distinct (map (c_id \<circ> fst) all)"
  shows "distinct (map (c_id \<circ> fst) (map (settle_row ng) (plan_live all g3)))"
proof -
  have s: "c_id (fst (settle_row ng r)) = c_id (fst r)" for r
    by (auto simp: settle_row_def Let_def case_prod_beta split: option.splits)
  have f: "distinct (map (c_id \<circ> fst) (filter P (map (\<lambda>(c, st). (if Q c then c\<lparr>emptied := False\<rparr> else c, st)) all)))" for P Q
    using assms by (induction all) (force simp: case_prod_beta)+
  have "distinct (map (c_id \<circ> fst) (sort_key g xs)) \<longleftrightarrow> distinct (map (c_id \<circ> fst) xs)"
    for g :: "row \<Rightarrow> nat \<times> nat" and xs by (simp add: distinct_map)
  with f have "distinct (map (c_id \<circ> fst) (plan_live all g3))" by (simp add: plan_live_def Let_def)
  then show ?thesis by (simp add: s o_def)
qed

section \<open>The rows of one edit together\<close>

definition fresh_ids :: "(nat \<Rightarrow> ustr) \<Rightarrow> nat \<Rightarrow> row list \<Rightarrow> bool" where
  "fresh_ids mint k rows \<longleftrightarrow> inj mint \<and> (\<forall>j \<ge> k. mint j \<notin> c_id ` fst ` set rows)"

definition planned :: "row list \<Rightarrow> row list \<Rightarrow> change_record option \<Rightarrow> row list" where
  "planned out new mine = out @ new @ (case mine of Some m \<Rightarrow> [(m, Set)] | None \<Rightarrow> [])"

lemma planned_ids:
  assumes "ef \<le> et" "distinct (map (c_id \<circ> fst) rows)" "fresh_ids mint k rows"
    and sp: "plan_spans (map_option c_id mine) owned ef et len mint rows k1 = (out, new, k2)"
    and mine: "mine = None \<and> k1 = k \<or> (\<exists>m. mine = Some m \<and>
      (c_id m \<in> set owned \<and> c_id m \<in> c_id ` fst ` set rows \<and> k1 = k \<or> c_id m = mint k \<and> k1 = Suc k))"
  shows "distinct (map (c_id \<circ> fst) (planned out new mine))" "fresh_ids mint k2 (planned out new mine)" "k \<le> k2"
proof -
  have k: "k \<le> k1" using mine by auto
  have inj: "inj mint" and old: "\<And>j. k \<le> j \<Longrightarrow> mint j \<notin> c_id ` fst ` set rows"
    using assms(3) by (auto simp: fresh_ids_def)
  note ids = plan_spans_ids[OF assms(1) sp]
  then have k2: "k1 \<le> k2" by simp
  have "set (map (c_id \<circ> fst) out) \<subseteq> set (map (c_id \<circ> fst) rows)" "distinct (map (c_id \<circ> fst) out)"
    unfolding ids(1) using assms(2) by (auto simp del: set_map)
  then have out: "c_id ` fst ` set out \<subseteq> c_id ` fst ` set rows" "distinct (map (c_id \<circ> fst) out)"
    by (simp_all add: image_comp)
  have new: "c_id ` fst ` set new = mint ` {k1..<k2}" "distinct (map (c_id \<circ> fst) new)"
  proof -
    have "c_id ` fst ` set new = set (map (c_id \<circ> fst) new)" by (simp add: image_comp)
    also have "\<dots> = mint ` {k1..<k2}" using conjunct1[OF ids(2)] by simp
    finally show "c_id ` fst ` set new = mint ` {k1..<k2}" .
    show "distinct (map (c_id \<circ> fst) new)"
      using conjunct1[OF ids(2)] inj by (simp add: distinct_map inj_on_def inj_def)
  qed
  have m: "c_id m \<notin> c_id ` fst ` set out \<and> c_id m \<notin> mint ` {k1..<k2} \<and> (\<forall>j \<ge> k2. mint j \<noteq> c_id m)" if "mine = Some m" for m
    using mine that
  proof (elim disjE exE conjE)
    fix w assume w: "mine = Some w" "c_id w \<in> set owned" "c_id w \<in> c_id ` fst ` set rows" "k1 = k"
    then have "c_id m \<notin> set (map (c_id \<circ> fst) out)" using that unfolding ids(1) by simp
    moreover have "mint j \<noteq> c_id m" if "k \<le> j" for j
      using old[OF that] w(1,3) \<open>mine = Some m\<close> by (metis option.inject)
    then have "c_id m \<notin> mint ` {k1..<k2}" "\<forall>j \<ge> k2. mint j \<noteq> c_id m" using w(4) k2 by fastforce+
    ultimately show ?thesis by (simp add: image_comp)
  next
    fix w assume w: "mine = Some w" "c_id w = mint k" "k1 = Suc k"
    with that have "c_id m = mint k" by simp
    moreover from old[of k] out(1) have "mint k \<notin> c_id ` fst ` set out" by blast
    ultimately show ?thesis using w(3) k2 by (simp add: image_iff inj_eq[OF inj])
  qed simp
  have on: "i \<notin> mint ` {k1..<k2}" if "i \<in> c_id ` fst ` set out" for i
  proof
    assume "i \<in> mint ` {k1..<k2}"
    then obtain j where "i = mint j" "k \<le> j" using k by auto
    moreover have "i \<in> c_id ` fst ` set rows" by (rule subsetD[OF out(1) that])
    ultimately show False using old[of j] by metis
  qed
  have "c_id ` fst ` set out \<inter> c_id ` fst ` set new = {}" unfolding new(1) using on by blast
  then have "set (map (c_id \<circ> fst) out) \<inter> set (map (c_id \<circ> fst) new) = {}" by (simp add: image_comp)
  moreover have "c_id w \<notin> set (map (c_id \<circ> fst) out)" "c_id w \<notin> set (map (c_id \<circ> fst) new)" if "mine = Some w" for w
    using m[OF that] new(1) by (simp_all add: image_comp)
  ultimately show "distinct (map (c_id \<circ> fst) (planned out new mine))"
    using out(2) new(2) by (cases mine) (simp_all add: planned_def del: set_map)
  show "fresh_ids mint k2 (planned out new mine)"
    unfolding fresh_ids_def
  proof (intro conjI inj allI impI)
    fix j assume j: "k2 \<le> j"
    with k k2 have "mint j \<notin> c_id ` fst ` set rows" by (intro old) simp
    then have "mint j \<notin> c_id ` fst ` set out" using subsetD[OF out(1)] by metis
    moreover from j new(1) have "mint j \<notin> c_id ` fst ` set new" by (auto simp: inj_eq[OF inj])
    ultimately show "mint j \<notin> c_id ` fst ` set (planned out new mine)"
      using m j by (auto simp: planned_def image_Un split: option.splits)
  qed
  show "k \<le> k2" using k k2 by simp
qed

text \<open>A planned row keeps the cover of a row that was not merged, spans_pos nothing, or is the
  change the edit writes.\<close>

lemma planned_source:
  assumes "ef \<le> et" "plan_spans (map_option c_id mine) owned ef et len mint rows k1 = (out, new, k2)"
    "x \<in> set (planned out new mine)"
  shows "(\<exists>c \<in> fst ` set rows. \<not> (mine \<noteq> None \<and> c_id c \<in> set owned) \<and>
      (\<forall>q. spans_pos (fst x) q \<longrightarrow> spans_pos_after ef et len c q)) \<or> (\<forall>q. \<not> spans_pos (fst x) q) \<or> mine = Some (fst x)"
  using plan_spans_source[OF assms(1,2), of x] assms(3) by (auto simp: planned_def split: option.splits)

lemma planned_apart:
  assumes le: "ef \<le> et" and d: "distinct (map (c_id \<circ> fst) rows)" and "apart rows"
    and sp: "plan_spans (map_option c_id mine) owned ef et len mint rows k1 = (out, new, k2)"
    and mine: "mine = None \<or> mine = Some (widen_mine rows owned ef et len m) \<and> owned = plan_owned rows gaps ef et me"
  shows "apart (planned out new mine)"
proof -
  note src = plan_spans_source[OF le sp]
  have main: "\<not> (spans_pos w q \<and> spans_pos (fst x) q)" if w: "mine = Some w" and x: "x \<in> set (out @ new)" for w x q
  proof
    assume q: "spans_pos w q \<and> spans_pos (fst x) q"
    with src[OF x] w obtain c where c: "c \<in> fst ` set rows" "c_id c \<notin> set owned" "spans_pos_after ef et len c q" by auto
    from mine w q mine_covers[OF d le, of gaps me len m q] c(3)
    obtain f where f: "first_span rows me ef et = Some f" "spans_pos_after ef et len f q"
      by (auto simp: spans_pos_after_def split: if_splits)
    from spans_pos_after_common[OF c(3) f(2)] first_span_Some(1)[OF f(1)] c(1) \<open>apart rows\<close>
    have "c_id c = c_id f" unfolding apart_def by blast
    moreover have "c_id f \<in> set owned"
      using owned_span_first[OF d first_span_Some(1,2)[OF f(1)], of gaps ef et me] f(1) mine w by auto
    ultimately show False using c(2) by simp
  qed
  show ?thesis
  proof (cases mine)
    case None
    with plan_spans_apart[OF le sp d \<open>apart rows\<close>] show ?thesis by (simp add: planned_def)
  next
    case (Some w)
    have "set (planned out new mine) = insert (w, Set) (set (out @ new))" using Some by (auto simp: planned_def)
    with main[OF Some] plan_spans_apart[OF le sp d \<open>apart rows\<close>] show ?thesis
      unfolding apart_def by auto
  qed
qed

lemma planned_bounded:
  assumes le: "ef \<le> et" "et \<le> n" and d: "distinct (map (c_id \<circ> fst) rows)" and b: "bounded n rows"
    and sp: "plan_spans (map_option c_id mine) owned ef et len mint rows k1 = (out, new, k2)"
    and mine: "mine = None \<or> mine = Some (widen_mine rows owned ef et len m) \<and> owned = plan_owned rows gaps ef et me \<and> \<not> orphan m"
  shows "bounded (n - (et - ef) + len) (planned out new mine)"
proof -
  have "c_from w \<le> c_to w \<and> c_to w \<le> n - (et - ef) + len \<and> \<not> orphan w" if "mine = Some w" for w
  proof (cases "first_span rows me ef et")
    case None
    with that mine le show ?thesis by (auto simp: widen_first[OF d])
  next
    case (Some c)
    with first_span_Some[OF Some] b have "c_to c \<le> n" by (auto simp: bounded_def)
    with that mine le Some show ?thesis by (auto simp: widen_first[OF d] shift_def)
  qed
  with plan_spans_bounded[OF le sp b] show ?thesis
    by (auto simp: planned_def bounded_def split: option.splits)
qed

section \<open>Gaps stay outside spans\<close>

lemma planned_pair:
  assumes le: "ef \<le> et" and d: "distinct (map (c_id \<circ> fst) rows)"
    and sp: "plan_spans (map_option c_id mine) owned ef et len mint rows k1 = (out, new, k2)"
    and mine: "mine = None \<or> mine = Some (widen_mine rows owned ef et len m) \<and> owned = plan_owned rows gaps ef et me"
    and x: "x \<in> set (planned out new mine)" "spans_pos (fst x) q1" "spans_pos (fst x) q2"
  shows "(\<exists>c \<in> fst ` set rows. spans_pos_after ef et len c q1 \<and> spans_pos_after ef et len c q2) \<or>
    mine = Some (fst x) \<and> (ef \<le> q1 \<and> q1 < ef + len \<or> ef \<le> q2 \<and> q2 < ef + len)"
  using planned_source[OF le sp x(1)]
proof (elim disjE)
  assume "mine = Some (fst x)"
  with mine have "fst x = widen_mine rows (plan_owned rows gaps ef et me) ef et len m" by auto
  with x(2,3) have "ef \<le> q1 \<and> q1 < ef + len \<or> (\<exists>c. first_span rows me ef et = Some c \<and> spans_pos_after ef et len c q1)"
    "ef \<le> q2 \<and> q2 < ef + len \<or> (\<exists>c. first_span rows me ef et = Some c \<and> spans_pos_after ef et len c q2)"
    by (simp_all add: mine_covers[OF d le])
  with \<open>mine = Some (fst x)\<close> first_span_Some(1)[of rows me ef et] show ?thesis by (metis option.inject)
qed (use x(2,3) in auto)

lemma planned_clear_before:
  assumes le: "ef \<le> et" and d: "distinct (map (c_id \<circ> fst) rows)"
    and sp: "plan_spans (map_option c_id mine) owned ef et len mint rows k1 = (out, new, k2)"
    and mine: "mine = None \<or> mine = Some (widen_mine rows owned ef et len m) \<and> owned = plan_owned rows gaps ef et me"
    and "clear_gap rows i"
  shows "i < ef \<Longrightarrow> clear_gap (planned out new mine) i"
    and "et < i \<Longrightarrow> clear_gap (planned out new mine) (i - (et - ef) + len)"
proof -
  note pair = planned_pair[OF le d sp mine]
  show "clear_gap (planned out new mine) i" if "i < ef"
  proof (unfold clear_gap_def, intro allI impI ballI notI)
    fix p c assume p: "i = Suc p" "c \<in> fst ` set (planned out new mine)" "spans_pos c p \<and> spans_pos c i"
    then obtain x where "x \<in> set (planned out new mine)" "c = fst x" by auto
    with pair[of x p i] p(1,3) that have "\<exists>c \<in> fst ` set rows. spans_pos c p \<and> spans_pos c i"
      by (auto simp: spans_pos_after_def)
    with p(1) \<open>clear_gap rows i\<close> show False by (auto simp: clear_gap_def)
  qed
  show "clear_gap (planned out new mine) (i - (et - ef) + len)" if i: "et < i"
  proof (unfold clear_gap_def, intro allI impI ballI notI)
    fix p c assume p: "i - (et - ef) + len = Suc p" "c \<in> fst ` set (planned out new mine)"
      "spans_pos c p \<and> spans_pos c (i - (et - ef) + len)"
    then obtain x where x: "x \<in> set (planned out new mine)" "c = fst x" by auto
    have pre: "\<not> p < ef + len" "pre_pos ef et len p = i - 1" "pre_pos ef et len (i - (et - ef) + len) = i"
      using i le p(1) by (auto simp: pre_pos_def)
    have "\<not> i - (et - ef) + len < ef + len" using i le by auto
    with pair[OF x(1), of p "i - (et - ef) + len"] p(3) x(2) pre
    obtain d where "d \<in> fst ` set rows" "spans_pos d (i - 1)" "spans_pos d i"
      by (auto simp: spans_pos_after_def)
    with i \<open>clear_gap rows i\<close> show False by (cases i) (auto simp: clear_gap_def)
  qed
qed

lemma all_covered_between: "spans_pos c a \<Longrightarrow> spans_pos c b \<Longrightarrow> a \<le> p \<Longrightarrow> p \<le> b \<Longrightarrow> spans_pos c p"
  by (auto simp: spans_pos_def)

lemma planned_clear_merged:
  assumes le: "ef \<le> et" and d: "distinct (map (c_id \<circ> fst) rows)" and ap: "apart rows"
    and gaps: "\<forall>g \<in> fst ` set gaps. clear_gap rows (g_at g)"
    and sp: "plan_spans (map_option c_id mine) owned ef et len mint rows k1 = (out, new, k2)"
    and mine: "mine = None \<or> mine = Some (widen_mine rows owned ef et len m) \<and> owned = plan_owned rows gaps ef et me"
    and w: "plan_walk cur rows mine_id owned (swallowed_gaps gaps ef et) s ef et = (merged, after)" "merged \<noteq> []"
    and pos: "pos = (case mine of Some m \<Rightarrow> c_from m | None \<Rightarrow> ef)" "pos = merge_pos rows me ef et (mine \<noteq> None)"
  shows "clear_gap (planned out new mine) pos"
proof (unfold clear_gap_def, intro allI impI ballI notI)
  fix p c assume p: "pos = Suc p" "c \<in> fst ` set (planned out new mine)" "spans_pos c p \<and> spans_pos c pos"
  then obtain x where x: "x \<in> set (planned out new mine)" "c = fst x" by auto
  have "mine \<noteq> Some (fst x)" using p(1,3) x(2) pos(1) by (auto simp: spans_pos_def)
  with planned_source[OF le sp x(1)] p(3) x(2) obtain b where b: "b \<in> fst ` set rows"
    "\<not> (mine \<noteq> None \<and> c_id b \<in> set owned)" "spans_pos_after ef et len b p" "spans_pos_after ef et len b pos" by auto
  have "pos \<le> ef" unfolding pos(2) by (rule merge_pos_le)
  show False
  proof (cases "pos < ef")
    case True
    then obtain f where f: "first_span rows me ef et = Some f" "c_from f = pos" "mine \<noteq> None"
      using pos(2) by (auto simp: merge_pos_def min_def split: option.splits if_splits)
    note fs = first_span_Some[OF f(1)]
    have "spans_pos f pos" using fs(2,4) f(2) True by (simp add: spans_pos_def has_span_def)
    moreover have "spans_pos b pos" using b(4) True by (simp add: spans_pos_after_def)
    ultimately have "c_id b = c_id f" using ap b(1) fs(1) unfolding apart_def by blast
    with owned_span_first[OF d fs(1,2), of gaps ef et me] f mine b(2) show False by auto
  next
    case False
    with \<open>pos \<le> ef\<close> have "pos = ef" by simp
    with b(3,4) p(1) have len: "len = 0" "spans_pos b p" "spans_pos b et" using le
      by (auto simp: spans_pos_after_def pre_pos_def split: if_splits)
    then have cov: "spans_pos b q" if "p \<le> q" "q \<le> et" for q using all_covered_between that by blast
    have "swallowed_gaps gaps ef et = []"
    proof (rule ccontr)
      assume "swallowed_gaps gaps ef et \<noteq> []"
      then obtain g where g: "g \<in> fst ` set gaps" "ef \<le> g_at g" "g_at g \<le> et"
        by (auto simp: swallowed_gaps_def filter_empty_conv) (metis fst_conv image_eqI)
      then obtain q where q: "g_at g = Suc q" "p \<le> q" using p(1) \<open>pos = ef\<close> by (cases "g_at g") auto
      with cov[of q] cov[of "Suc q"] g b(1) gaps show False by (auto simp: clear_gap_def)
    qed
    moreover have "\<forall>q. ef \<le> q \<and> q < et \<longrightarrow> covered rows q"
      unfolding covered_def using cov p(1) \<open>pos = ef\<close> by (intro allI impI bexI[OF _ b(1)]) simp
    ultimately show False using walk_empty[of ef et rows cur mine_id owned s] w by simp
  qed
qed

lemma planned_clear_after:
  assumes le: "ef \<le> et" and d: "distinct (map (c_id \<circ> fst) rows)"
    and gaps: "\<forall>g \<in> fst ` set gaps. clear_gap rows (g_at g)"
    and sp: "plan_spans (map_option c_id mine) owned ef et len mint rows k1 = (out, new, k2)"
    and mine: "mine = None \<or> mine = Some (widen_mine rows owned ef et len m) \<and> owned = plan_owned rows gaps ef et me"
    and w: "plan_walk cur rows mine_id owned (swallowed_gaps gaps ef et) s ef et = (merged, after)" "after \<noteq> []"
    and s: "s = (len > 0 \<and> \<not> own_at_end rows (swallowed_gaps gaps ef et) owned me et)"
  shows "clear_gap (planned out new mine) (ef + len)"
proof (unfold clear_gap_def, intro allI impI ballI notI)
  fix p c assume p: "ef + len = Suc p" "c \<in> fst ` set (planned out new mine)" "spans_pos c p \<and> spans_pos c (ef + len)"
  then obtain x where x: "x \<in> set (planned out new mine)" "c = fst x" by auto
  have "snd (plan_walk cur rows mine_id owned (swallowed_gaps gaps ef et) s ef et) \<noteq> []" using w by simp
  with walk_after_empty have "s" "\<exists>g \<in> set (swallowed_gaps gaps ef et). g_at g = et" by blast+
  with s gaps have len: "len > 0" "\<not> own_at_end rows (swallowed_gaps gaps ef et) owned me et" "clear_gap rows et"
    by (auto simp: swallowed_gaps_def)
  from planned_source[OF le sp x(1)] p(1,3) x(2) len(1) have "mine = Some (fst x)"
    by (auto simp: spans_pos_after_def)
  with mine have fx: "fst x = widen_mine rows (plan_owned rows gaps ef et me) ef et len m" "owned = plan_owned rows gaps ef et me" by auto
  with p(3) x(2) mine_covers[OF d le, of gaps me len m "ef + len"]
  obtain f where f: "first_span rows me ef et = Some f" "spans_pos_after ef et len f (ef + len)" by auto
  note fs = first_span_Some[OF f(1)]
  have cov: "spans_pos f et" using f(2) le by (simp add: spans_pos_after_def pre_pos_def)
  show False
  proof (cases "c_from f = et")
    case True
    have "c_id f \<in> set owned" using owned_span_first[OF d fs(1,2), of gaps ef et me] f(1) fx(2) by simp
    with True fs len(2) show False by (auto simp: own_at_end_def list_ex_iff)
  next
    case False
    with cov obtain q where "et = Suc q" "spans_pos f q" by (cases et) (auto simp: spans_pos_def)
    with cov len(3) fs(1) show False by (auto simp: clear_gap_def)
  qed
qed

lemma take_id_next: "take_id mint k ids = (nm, ids', k') \<Longrightarrow> k \<le> k'"
  by (auto simp: take_id_def split: list.splits)

lemma place_next:
  "place_merged pos merged mint k ids gaps = (g, ids', k') \<Longrightarrow> k \<le> k'"
  "place_after p after mint k ids gaps = (g, k') \<Longrightarrow> k \<le> k'"
  by (auto simp: place_merged_def place_after_def Let_def dest: take_id_next split: prod.splits list.splits if_splits)

lemma settled_wf:
  assumes "distinct (map (c_id \<circ> fst) all)" "bounded n all" "apart all"
  shows "distinct (map (c_id \<circ> fst) (map (settle_row ng) (plan_live all g3)))"
    and "bounded n (map (settle_row ng) (plan_live all g3))" "apart (map (settle_row ng) (plan_live all g3))"
    and "clear_gap all i \<Longrightarrow> clear_gap (map (settle_row ng) (plan_live all g3)) i"
    and "fresh_ids mint k all \<Longrightarrow> k \<le> k' \<Longrightarrow> fresh_ids mint k' (map (settle_row ng) (plan_live all g3))"
proof -
  let ?nc = "map (settle_row ng) (plan_live all g3)"
  note row = settled_row[of _ ng all g3]
  show "distinct (map (c_id \<circ> fst) ?nc)" by (rule distinct_settled[OF assms(1)])
  have change: "\<exists>d \<in> fst ` set all. c_id c = c_id d \<and> (\<forall>q. spans_pos c q = spans_pos d q) \<and> has_span c = has_span d \<and>
      orphan c = orphan d \<and> (has_span d \<longrightarrow> c_to c = c_to d) \<and> (c_from d \<le> c_to d \<longrightarrow> c_from c \<le> c_to c)"
    if "c \<in> fst ` set ?nc" for c
  proof -
    from that obtain x where "x \<in> set ?nc" "c = fst x" by (auto simp del: set_map)
    with row[of x] show ?thesis by blast
  qed
  show "bounded n ?nc" unfolding bounded_def
  proof
    fix c assume "c \<in> fst ` set ?nc"
    from change[OF this] assms(2) show "c_from c \<le> c_to c \<and> (has_span c \<longrightarrow> c_to c \<le> n \<and> \<not> orphan c)"
      unfolding bounded_def by auto
  qed
  show "apart ?nc" unfolding apart_def
  proof (intro ballI allI impI)
    fix c d p assume "c \<in> fst ` set ?nc" "d \<in> fst ` set ?nc" "spans_pos c p \<and> spans_pos d p"
    with change[of c] change[of d] obtain c' d' where "c' \<in> fst ` set all" "d' \<in> fst ` set all"
      "spans_pos c' p" "spans_pos d' p" "c_id c = c_id c'" "c_id d = c_id d'" by metis
    with assms(3) show "c_id c = c_id d" unfolding apart_def by metis
  qed
  show "clear_gap ?nc i" if "clear_gap all i" unfolding clear_gap_def
  proof (intro allI impI ballI)
    fix p c assume "i = Suc p" "c \<in> fst ` set ?nc"
    with change[of c] that show "\<not> (spans_pos c p \<and> spans_pos c i)" unfolding clear_gap_def by metis
  qed
  show "fresh_ids mint k' ?nc" if "fresh_ids mint k all" "k \<le> k'" unfolding fresh_ids_def
  proof (intro conjI allI impI)
    show "inj mint" using that(1) by (simp add: fresh_ids_def)
    fix j assume "k' \<le> j"
    with that have j: "mint j \<notin> c_id ` fst ` set all" by (simp add: fresh_ids_def)
    show "mint j \<notin> c_id ` fst ` set ?nc"
    proof
      assume "mint j \<in> c_id ` fst ` set ?nc"
      then obtain c where "c \<in> fst ` set ?nc" "mint j = c_id c" by blast
      with change[of c] j show False by (metis imageI)
    qed
  qed
qed

lemma plan_one_wf:
  assumes "plan_one cur rows gaps ef et ins me run now untracked mint k = (nc, ng, k')"
    and wf: "wf_rows (length cur) rows gaps" and fresh: "fresh_ids mint k rows"
    and le: "ef \<le> et" "et \<le> length cur"
  shows "wf_rows (length (splice ef et ins cur)) nc ng" "fresh_ids mint k' nc" "k \<le> k'"
  using assms(1)
proof (atomize (full), rule plan_one_stages, goal_cases)
  case (1 owned mine m0 k1 sp merged after out new k2 pos g1 ids k3 g2 g3)
  let ?n = "length cur - (et - ef) + length ins"
  have n: "length (splice ef et ins cur) = ?n" using le by (simp add: splice_def)
  from wf have d: "distinct (map (c_id \<circ> fst) rows)" and b: "bounded (length cur) rows" and ap: "apart rows"
    and gp: "\<forall>g \<in> fst ` set gaps. g_at g \<le> length cur" "\<forall>g \<in> fst ` set gaps. clear_gap rows (g_at g)"
    by (auto simp: wf_rows_iff)
  have m: "recorded rows ef et ins untracked \<Longrightarrow> \<not> orphan m0 \<and>
      (c_id m0 \<in> set owned \<and> c_id m0 \<in> c_id ` fst ` set rows \<and> k1 = k \<or> c_id m0 = mint k \<and> k1 = Suc k)"
    using 1(3) plan_mine_cases[of m0 k1 rows owned ef me run now mint k] by auto
  have mine1: "mine = None \<and> k1 = k \<or> (\<exists>m. mine = Some m \<and>
      (c_id m \<in> set owned \<and> c_id m \<in> c_id ` fst ` set rows \<and> k1 = k \<or> c_id m = mint k \<and> k1 = Suc k))"
    using m 1(2,3) by (auto split: if_splits)
  have mine2: "mine = None \<or> mine = Some (widen_mine rows owned ef et (length ins) m0) \<and>
      owned = plan_owned rows gaps ef et me \<and> \<not> orphan m0"
    using m 1(1,2) by (auto simp: recorded_def split: if_splits)
  then have mine3: "mine = None \<or> mine = Some (widen_mine rows owned ef et (length ins) m0) \<and>
      owned = plan_owned rows gaps ef et me" by blast
  note ids = planned_ids[OF le(1) d fresh 1(6) mine1]
  note wfs = settled_wf[OF ids(1) planned_bounded[OF le d b 1(6) mine2] planned_apart[OF le(1) d ap 1(6) mine3]]
  have nc: "nc = map (settle_row ng) (plan_live (planned out new mine) g3)" using 1(11) by (simp add: planned_def)
  note clear = wfs(4)[of _ ng g3, folded nc]
  have k': "k2 \<le> k'" using place_next(1)[OF 1(8)] place_next(2)[OF 1(9)] by simp
  have pos: "pos = merge_pos rows me ef et (mine \<noteq> None)"
    using mine3 by (auto simp: 1(7) merge_pos_def widen_first[OF d] split: option.splits)
  have "g_at g \<le> ?n \<and> clear_gap nc (g_at g)" if "g \<in> fst ` set ng" for g
  proof -
    from that obtain r where "r \<in> set g2" "g_at g = g_at (fst r)"
      using 1(10,12) by (auto split: option.splits)
    then consider (outer) h where "h \<in> fst ` set gaps" "g_at h < ef \<and> g_at g = g_at h \<or>
        et < g_at h \<and> g_at g = g_at h - (et - ef) + length ins"
      | (merged) "g_at g = pos" "merged \<noteq> []" | (after) "g_at g = ef + length ins" "after \<noteq> []"
      using place_after_at[of r] place_merged_at[of r] outer_gaps_at[OF le(1), of r gaps "length ins"] 1(8,9)
      by (metis fst_conv)
    then show ?thesis
    proof cases
      case outer
      with gp planned_clear_before[OF le(1) d 1(6) mine3, of "g_at h"] le show ?thesis
        by (auto intro!: clear)
    next
      case merged
      with planned_clear_merged[OF le(1) d ap gp(2) 1(6) mine3 1(5) _ 1(7) pos] le merge_pos_le(1)[of rows me ef et "mine \<noteq> None"] pos
      show ?thesis by (auto intro!: clear)
    next
      case after
      with planned_clear_after[OF le(1) d gp(2) 1(6) mine3 1(5) _ 1(4)] le show ?thesis by (auto intro!: clear)
    qed
  qed
  with wfs(1,2,3) wfs(5)[OF ids(2) k'] ids(3) k' show ?case unfolding wf_rows_iff n nc by auto
qed

end
