(* ===== verification/Track_Batch.thy ===== *)
theory Track_Batch
  imports Track_Wf
begin

text \<open>
  A whole batch of edits through \<open>plan_edits\<close>: the loop edits the text as the batch says,
  keeps the rows well formed, keeps every stored row in the plan as kept, set or removed, and
  for a tracked batch keeps the original text of the file.
\<close>

section \<open>The batch\<close>

text \<open>Edits in the coordinates of the text before the batch, ascending and not overlapping.\<close>

fun edits_ok :: "nat \<Rightarrow> nat \<Rightarrow> edit_in list \<Rightarrow> bool" where
  "edits_ok t0 n [] \<longleftrightarrow> True"
| "edits_ok t0 n ((from, to, ins) # es) \<longleftrightarrow> t0 \<le> from \<and> from \<le> to \<and> to \<le> n \<and> edits_ok to n es"

text \<open>The text after the batch, with no running adjustment: what lies between the edits is
  copied, what they replace is replaced.\<close>

fun edited_from :: "nat \<Rightarrow> ustr \<Rightarrow> edit_in list \<Rightarrow> ustr" where
  "edited_from t0 before [] = drop t0 before"
| "edited_from t0 before ((from, to, ins) # es) =
    take (from - t0) (drop t0 before) @ ins @ edited_from to before es"

definition edited :: "ustr \<Rightarrow> edit_in list \<Rightarrow> ustr" where
  "edited before es = edited_from 0 before es"

definition live :: "('r \<times> plan_state) list \<Rightarrow> ('r \<times> plan_state) list" where
  "live rs = filter (\<lambda>r. snd r \<noteq> Removed) rs"

definition state_rows :: "'r list \<Rightarrow> ('r \<times> plan_state) list" where
  "state_rows xs = map (\<lambda>x. (x, Kept)) xs"

section \<open>One step of the loop\<close>

definition loop_inv :: "ustr \<Rightarrow> nat \<Rightarrow> loop_state \<Rightarrow> (nat \<Rightarrow> ustr) \<Rightarrow> bool" where
  "loop_inv before t0 s mint \<longleftrightarrow>
    (\<exists>pre. ls_cur s = pre @ drop t0 before \<and> int (length pre) = int t0 + adj s) \<and> t0 \<le> length before \<and>
    wf_rows (length (ls_cur s)) (ls_changes s) (ls_gaps s) \<and> fresh_ids mint (next_id s) (ls_changes s)"

lemma plan_step_cases:
  assumes "loop_inv before t0 s mint" "t0 \<le> from" "from \<le> to" "to \<le> length before"
    and s': "s' = plan_step oc og me run now untracked mint (from, to, ins) s"
  obtains ef et where "ef = nat (int from + adj s)" "et = nat (int to + adj s)" "ef \<le> et" "et \<le> length (ls_cur s)"
    "ls_cur s' = splice ef et ins (ls_cur s)" "et - ef = to - from" "int ef = int from + adj s"
    "ef = et \<and> ins = [] \<and> s' = s \<or>
     \<not> (ef = et \<and> ins = []) \<and> adj s' = adj s + (int (length ins) - int (et - ef)) \<and>
       plan_one (ls_cur s) (ls_changes s) (ls_gaps s) ef et ins me run now untracked mint (next_id s)
        = (ls_changes s', ls_gaps s', next_id s')"
proof -
  from assms(1) obtain pre where pre: "ls_cur s = pre @ drop t0 before" "int (length pre) = int t0 + adj s"
    by (auto simp: loop_inv_def)
  let ?ef = "nat (int from + adj s)" let ?et = "nat (int to + adj s)"
  have "?ef \<le> ?et" "?et \<le> length (ls_cur s)" "?et - ?ef = to - from" "int ?ef = int from + adj s"
    using pre assms(2-4) by auto
  moreover have "splice ?ef ?et [] (ls_cur s) = ls_cur s" if "?ef = ?et"
    using that by (simp add: splice_def)
  ultimately show thesis
    by (intro that[of ?ef ?et])
       (auto simp: s' plan_step_def Let_def split: prod.splits)
qed

lemma plan_step_inv:
  assumes inv: "loop_inv before t0 s mint" and e: "t0 \<le> from" "from \<le> to" "to \<le> length before"
    and s': "s' = plan_step oc og me run now untracked mint (from, to, ins) s"
  shows "loop_inv before to s' mint" "\<not> untracked \<Longrightarrow>
      original (ls_cur s') (ls_changes s') (ls_gaps s') = original (ls_cur s) (ls_changes s) (ls_gaps s)"
    and "ls_cur s = pre @ drop t0 before \<Longrightarrow> int (length pre) = int t0 + adj s \<Longrightarrow>
      ls_cur s' = (pre @ take (from - t0) (drop t0 before) @ ins) @ drop to before \<and>
      int (length (pre @ take (from - t0) (drop t0 before) @ ins)) = int to + adj s'"
proof -
  show cur: "ls_cur s' = (pre @ take (from - t0) (drop t0 before) @ ins) @ drop to before \<and>
      int (length (pre @ take (from - t0) (drop t0 before) @ ins)) = int to + adj s'"
    if pre: "ls_cur s = pre @ drop t0 before" "int (length pre) = int t0 + adj s" for pre
    using inv e s'
  proof (rule plan_step_cases, goal_cases)
    case (1 ef et)
    have ef: "ef = length pre + (from - t0)" "et = length pre + (to - t0)" using pre(2) e 1(1,2) by auto
    have "ls_cur s' = (pre @ take (from - t0) (drop t0 before) @ ins) @ drop to before"
      using pre(1) e by (simp add: 1(5) splice_def ef)
    moreover have "adj s' = adj s + (int (length ins) - int (et - ef))" using 1(8) by auto
    ultimately show ?case using pre(2) e 1(6) by auto
  qed
  from inv obtain pre where "ls_cur s = pre @ drop t0 before" "int (length pre) = int t0 + adj s"
    by (auto simp: loop_inv_def)
  note c = cur[OF this]
  have "wf_rows (length (ls_cur s')) (ls_changes s') (ls_gaps s') \<and> fresh_ids mint (next_id s') (ls_changes s') \<and>
      (\<not> untracked \<longrightarrow>
      original (ls_cur s') (ls_changes s') (ls_gaps s') = original (ls_cur s) (ls_changes s) (ls_gaps s))"
    using inv e s'
  proof (rule plan_step_cases, goal_cases)
    case (1 ef et)
    from inv have wf: "wf_rows (length (ls_cur s)) (ls_changes s) (ls_gaps s)" "fresh_ids mint (next_id s) (ls_changes s)"
      by (auto simp: loop_inv_def)
    from 1(8) show ?case
    proof (elim disjE conjE)
      assume p: "plan_one (ls_cur s) (ls_changes s) (ls_gaps s) ef et ins me run now untracked mint (next_id s)
        = (ls_changes s', ls_gaps s', next_id s')"
      from plan_one_wf[OF p wf 1(3,4)] plan_one_keeps_original[OF _ wf(1) 1(3,4)] p show ?case
        unfolding 1(5) by auto
    qed (use wf in simp)
  qed
  with c e(3) show "loop_inv before to s' mint" "\<not> untracked \<Longrightarrow>
      original (ls_cur s') (ls_changes s') (ls_gaps s') = original (ls_cur s) (ls_changes s) (ls_gaps s)"
    unfolding loop_inv_def by blast+
qed

section \<open>The whole loop\<close>

lemma plan_fold:
  assumes "loop_inv before t0 s mint" "edits_ok t0 (length before) es"
    and "ls_cur s = pre @ drop t0 before" "int (length pre) = int t0 + adj s"
  shows "(\<exists>t1. loop_inv before t1 (fold (plan_step oc og me run now untracked mint) es s) mint) \<and>
    (\<not> untracked \<longrightarrow> (let s' = fold (plan_step oc og me run now untracked mint) es s in
      original (ls_cur s') (ls_changes s') (ls_gaps s') = original (ls_cur s) (ls_changes s) (ls_gaps s))) \<and>
    ls_cur (fold (plan_step oc og me run now untracked mint) es s) = pre @ edited_from t0 before es"
  using assms
proof (induction es arbitrary: t0 s pre)
  case Nil
  then show ?case by auto
next
  case (Cons e es)
  obtain fr to ins where e: "e = (fr, to, ins)" by (cases e)
  let ?s = "plan_step oc og me run now untracked mint e s"
  from Cons.prems(2) have ok: "t0 \<le> fr" "fr \<le> to" "to \<le> length before" "edits_ok to (length before) es"
    by (auto simp: e)
  note step = plan_step_inv[OF Cons.prems(1) ok(1-3) refl,
      where oc = oc and og = og and me = me and run = run and now = now and untracked = untracked and ins = ins, folded e]
  from step(3)[OF Cons.prems(3,4)] have cur: "ls_cur ?s = (pre @ take (fr - t0) (drop t0 before) @ ins) @ drop to before"
    "int (length (pre @ take (fr - t0) (drop t0 before) @ ins)) = int to + adj ?s" by auto
  from Cons.IH[OF step(1) ok(4) cur] step(2) show ?case by (auto simp: e Let_def)
qed

lemma plan_loop_result:
  assumes "wf_rows (length before) (state_rows (fs_changes st)) (state_rows (fs_gaps st))"
    and "fresh_ids mint k (state_rows (fs_changes st))" "edits_ok 0 (length before) es"
  shows "ls_cur (plan_loop before st es me run now untracked mint k) = edited before es"
    and "wf_rows (length (edited before es)) (ls_changes (plan_loop before st es me run now untracked mint k))
      (ls_gaps (plan_loop before st es me run now untracked mint k))"
    and "\<not> untracked \<Longrightarrow> original (edited before es) (ls_changes (plan_loop before st es me run now untracked mint k))
      (ls_gaps (plan_loop before st es me run now untracked mint k)) =
      original before (state_rows (fs_changes st)) (state_rows (fs_gaps st))"
proof -
  have inv: "loop_inv before 0 (plan_start before st k) mint"
    using assms(1,2) by (auto simp: loop_inv_def plan_start_def state_rows_def)
  have "ls_cur (plan_start before st k) = [] @ drop 0 before" "int (length ([] :: ustr)) = int 0 + adj (plan_start before st k)"
    by (simp_all add: plan_start_def)
  note f = plan_fold[OF inv assms(3) this, where oc = "set (map c_id (fs_changes st))" and
      og = "set (map g_id (fs_gaps st))" and me = me and run = run and now = now and untracked = untracked,
      folded plan_loop_def edited_def]
  then show cur: "ls_cur (plan_loop before st es me run now untracked mint k) = edited before es" by (simp add: edited_def)
  from f show "wf_rows (length (edited before es)) (ls_changes (plan_loop before st es me run now untracked mint k))
      (ls_gaps (plan_loop before st es me run now untracked mint k))"
    unfolding cur[symmetric] by (auto simp: loop_inv_def)
  from f show "\<not> untracked \<Longrightarrow> original (edited before es) (ls_changes (plan_loop before st es me run now untracked mint k))
      (ls_gaps (plan_loop before st es me run now untracked mint k)) =
      original before (state_rows (fs_changes st)) (state_rows (fs_gaps st))"
    unfolding cur[symmetric] by (auto simp: Let_def plan_start_def state_rows_def)
qed

section \<open>Stored fragments\<close>

text \<open>The stored fragments of a list of gaps: those that have a record, with its id, its text and
  its rank.\<close>

definition stored_in :: "fragment list \<Rightarrow> (ustr \<times> ustr \<times> rat option) set" where
  "stored_in fs = {(i, f_text f, f_rank f) | f i. f \<in> set fs \<and> f_id f = Some i}"

definition stored :: "gap_row list \<Rightarrow> (ustr \<times> ustr \<times> rat option) set" where
  "stored gaps = (\<Union>r \<in> set gaps. stored_in (fragments (fst r)))"

lemma stored_in_simps [simp]:
  "stored_in [] = {}"
  "stored_in (f # fs) = (case f_id f of None \<Rightarrow> {} | Some i \<Rightarrow> {(i, f_text f, f_rank f)}) \<union> stored_in fs"
  "stored_in (fs @ gs) = stored_in fs \<union> stored_in gs"
  by (auto simp: stored_in_def split: option.splits)

lemma stored_in_push [simp]:
  "stored_in (push_fragment l ch txt nm rank) =
    stored_in l \<union> (case nm of None \<Rightarrow> {} | Some i \<Rightarrow> {(i, txt, rank)})"
  by (cases l rule: rev_cases) (auto simp: push_fragment_def split: option.splits)

lemma stored_in_fold_push:
  "stored_in (fold (\<lambda>f l. push_fragment l (ch f) (f_text f) (f_id f) (f_rank f)) fs l) = stored_in l \<union> stored_in fs"
  by (induction fs arbitrary: l) auto

lemma stored_in_push_all [simp]: "stored_in (push_all l fs) = stored_in l \<union> stored_in fs"
  by (simp add: push_all_def stored_in_fold_push)

lemma stored_simps [simp]:
  "stored [] = {}" "stored (r # rs) = stored_in (fragments (fst r)) \<union> stored rs"
  "stored (rs @ qs) = stored rs \<union> stored qs"
  by (auto simp: stored_def)

lemma stored_push_gaps: "stored_in (fold (\<lambda>(g, _) l. push_all l (fragments g)) rs l) = stored_in l \<union> stored rs"
  by (induction rs arbitrary: l) auto

lemma stored_outer:
  "stored gaps = stored (outer_gaps gaps ef et len) \<union> (\<Union>g \<in> set (swallowed_gaps gaps ef et). stored_in (fragments g))"
  by (induction gaps) (auto simp: outer_gaps_def swallowed_gaps_def map_filter_simps split: if_splits)

lemma stored_place_merged:
  "stored (fst (place_merged pos merged mint k ids gaps)) = stored gaps \<union> stored_in merged"
proof (cases "filter (\<lambda>(g, _). g_at g = pos) gaps")
  case Nil
  then show ?thesis by (auto simp: place_merged_def Let_def split: prod.splits)
next
  case (Cons f rest)
  have "stored gaps = stored (filter (\<lambda>(g, _). g_at g \<noteq> pos) gaps) \<union> stored (filter (\<lambda>(g, _). g_at g = pos) gaps)"
    by (auto simp: stored_def)
  with Cons show ?thesis
    by (cases f) (auto simp: place_merged_def Let_def stored_push_gaps simp del: fold.simps)
qed

lemma stored_place_after: "stored (fst (place_after p after mint k ids gaps)) = stored gaps \<union> stored_in after"
  by (auto simp: place_after_def Let_def split: prod.splits)

lemma stored_reown: "stored (map (reown_gap m owned) gaps) = stored gaps"
proof (induction gaps)
  case (Cons r gaps)
  have "stored_in (fragments (fst (reown_gap m owned r))) = stored_in (fragments (fst r))"
    by (simp add: reown_gap_def Let_def case_prod_beta stored_in_fold_push)
  with Cons show ?case by simp
qed simp

definition stored_both :: "fragment list \<times> fragment list \<Rightarrow> (ustr \<times> ustr \<times> rat option) set" where
  "stored_both a = stored_in (fst a) \<union> stored_in (snd a)"

lemma stored_walk_gaps:
  "stored_both (walk_gaps mine owned sw s et p a) =
    stored_both a \<union> (\<Union>g \<in> {g \<in> set sw. g_at g = p}. stored_in (fragments g))"
proof -
  let ?push = "\<lambda>f (merged, after).
        let change = owner_now mine owned (f_change f) in
        if s \<and> p = et
        then (merged, push_fragment after change (f_text f) (f_id f) (f_rank f))
        else (push_fragment merged change (f_text f) (f_id f) (f_rank f), after)"
  have one: "stored_both (?push f a) = stored_both a \<union> stored_in [f]" for f a
    by (cases a) (simp add: stored_both_def Let_def Un_ac)
  have inner: "stored_both (fold ?push fs a) = stored_both a \<union> stored_in fs" for fs a
  proof (induction fs arbitrary: a)
    case (Cons f fs)
    from Cons[of "?push f a"] one[of f a] show ?case by (simp only: fold.simps o_apply) auto
  qed simp
  have outer: "stored_both (fold (\<lambda>g. fold ?push (fragments g)) gs a) = stored_both a \<union> (\<Union>g \<in> set gs. stored_in (fragments g))" for gs a
    by (induction gs arbitrary: a) (simp_all only: fold.simps id_apply o_apply inner list.set, auto)
  show ?thesis unfolding walk_gaps_def outer by simp
qed

lemma stored_walk:
  "stored_both (fold (walk_point cur rows mine owned sw s et) ps a) =
    stored_both a \<union> (\<Union>g \<in> {g \<in> set sw. g_at g \<in> set ps}. stored_in (fragments g))"
proof (induction ps arbitrary: a)
  case (Cons p ps)
  have "stored_both (walk_point cur rows mine owned sw s et p a) = stored_both (walk_gaps mine owned sw s et p a)"
    by (auto simp: walk_point_def stored_both_def split: prod.splits option.splits)
  with Cons stored_walk_gaps[of mine owned sw s et p a] show ?case by auto
qed simp

lemma plan_one_stored:
  assumes "plan_one cur rows gaps ef et ins me run now untracked mint k = (nc, ng, k')"
  shows "stored ng = stored gaps"
  using assms
proof (rule plan_one_stages, goal_cases)
  case (1 owned mine m0 k1 sp merged after out new k2 pos g1 ids k3 g2 g3)
  have "stored_in merged \<union> stored_in after = (\<Union>g \<in> set (swallowed_gaps gaps ef et). stored_in (fragments g))"
    using stored_walk[of cur rows "map_option c_id mine" owned "swallowed_gaps gaps ef et" sp et "[ef..<Suc et]" "([], [])"] 1(5)
    by (auto simp: plan_walk_def stored_both_def swallowed_gaps_def simp del: upt_Suc)
  moreover have "stored g2 = stored (outer_gaps gaps ef et (length ins)) \<union> stored_in merged \<union> stored_in after"
    using stored_place_merged[of pos merged mint k2 "map g_id (swallowed_gaps gaps ef et)" "outer_gaps gaps ef et (length ins)"]
      stored_place_after[of "ef + length ins" after mint k3 ids g1] by (simp add: 1(8,9))
  moreover have "stored g3 = stored g2" by (simp add: 1(10) stored_reown split: option.splits)
  moreover have "stored ng = stored g3" by (simp add: 1(12) stored_def)
  ultimately show ?case using stored_outer[of gaps ef et "length ins"] by auto
qed

section \<open>The plan\<close>

definition no_removed :: "('r \<times> plan_state) list \<Rightarrow> bool" where
  "no_removed rs \<longleftrightarrow> (\<forall>r \<in> set rs. snd r \<noteq> Removed)"

lemma span_row_state:
  "span_row ef et len mint (c, st) k = (r, new, k') \<Longrightarrow> st \<noteq> Removed \<Longrightarrow> no_removed (r # new)"
  by (auto simp: span_row_def Let_def no_removed_def emptied_at_def split: if_splits)

lemma plan_spans_state:
  "plan_spans mine owned ef et len mint rows k = (out, new, k') \<Longrightarrow> no_removed rows \<Longrightarrow> no_removed (out @ new)"
proof (induction rows arbitrary: k out new k')
  case (Cons r rows)
  obtain c st where r: "r = (c, st)" by (cases r)
  from Cons.prems(2) have tl: "no_removed rows" "st \<noteq> Removed" by (auto simp: no_removed_def r)
  show ?case
  proof (cases "mine \<noteq> None \<and> c_id c \<in> set owned")
    case True
    then obtain out' where p: "plan_spans mine owned ef et len mint rows k = (out', new, k')"
      "out = (if Some (c_id c) \<noteq> mine then emptied_at (ef + len) c # out' else out')"
      using Cons.prems by (auto simp: r Let_def split: prod.splits if_splits)
    with Cons.IH[OF p(1) tl(1)] show ?thesis by (auto simp: no_removed_def emptied_at_def split: if_splits)
  next
    case False
    then obtain s n1 k1 out' n2 where p: "span_row ef et len mint (c, st) k = (s, n1, k1)"
      "plan_spans mine owned ef et len mint rows k1 = (out', n2, k')" "out = s # out'" "new = n1 @ n2"
      using Cons.prems by (auto simp: r Let_def split: prod.splits if_splits)
    from Cons.IH[OF p(2) tl(1)] span_row_state[OF p(1) tl(2)] p(3,4) show ?thesis
      by (auto simp: no_removed_def)
  qed
qed (simp add: no_removed_def)

lemma plan_one_states:
  assumes "plan_one cur rows gaps ef et ins me run now untracked mint k = (nc, ng, k')"
    and "no_removed rows" "no_removed gaps"
  shows "no_removed nc \<and> no_removed ng"
  using assms(1)
proof (rule plan_one_stages, goal_cases)
  case (1 owned mine m0 k1 sp merged after out new k2 pos g1 ids k3 g2 g3)
  have "snd (settle_row ng r) = snd r" for r
    by (auto simp: settle_row_def Let_def case_prod_beta split: option.splits)
  moreover have live: "no_removed (plan_live out' g3)" if "no_removed out'" for out'
    using that by (auto simp: plan_live_def no_removed_def Let_def)
  have "no_removed (out @ new @ (case mine of Some m \<Rightarrow> [(m, Set)] | None \<Rightarrow> []))"
    using plan_spans_state[OF 1(6) assms(2)] by (auto simp: no_removed_def split: option.splits)
  note live[OF this]
  ultimately have "no_removed nc" unfolding 1(11) by (simp add: no_removed_def)
  moreover have "no_removed (outer_gaps gaps ef et (length ins))"
    using assms(3) by (auto simp: no_removed_def outer_gaps_def map_filter_def split: if_splits)
  then have "no_removed g1" using 1(8)
    by (auto simp: no_removed_def place_merged_def Let_def split: if_splits list.splits prod.splits)
  then have "no_removed g2" using 1(9)
    by (auto simp: no_removed_def place_after_def Let_def split: if_splits prod.splits)
  then have "no_removed ng"
    by (auto simp: no_removed_def 1(10,12) reown_gap_def Let_def split: option.splits if_splits)
  ultimately show ?case by simp
qed

definition step_keeps :: "file_state \<Rightarrow> loop_state \<Rightarrow> bool" where
  "step_keeps st s \<longleftrightarrow> no_removed (ls_changes s) \<and> no_removed (ls_gaps s) \<and>
    (\<forall>r \<in> set (removed_changes s). snd r = Removed) \<and> (\<forall>r \<in> set (removed_gaps s). snd r = Removed) \<and>
    stored (ls_gaps s) = stored (state_rows (fs_gaps st))"

lemma map_insert_removed:
  assumes "\<forall>r \<in> set m. snd r = Removed"
  shows "\<forall>r \<in> set (fold (\<lambda>(c, _) m. if P c then map_insert key (c, Removed) m else m) rs m). snd r = Removed"
  by (rule fold_keeps, rule assms) (auto simp: map_insert_def set_insort_key split: if_splits)

lemma plan_step_keeps: "step_keeps st s \<Longrightarrow> step_keeps st (plan_step oc og me run now untracked mint e s)"
proof -
  assume k: "step_keeps st s"
  obtain fr to ins where e: "e = (fr, to, ins)" by (cases e)
  let ?ef = "nat (int fr + adj s)" let ?et = "nat (int to + adj s)"
  obtain nc ng k' where p: "plan_one (ls_cur s) (ls_changes s) (ls_gaps s) ?ef ?et ins me run now untracked mint (next_id s) = (nc, ng, k')"
    by (metis surj_pair)
  show ?thesis
  proof (cases "?ef = ?et \<and> ins = []")
    case True
    with k show ?thesis by (simp add: plan_step_def e)
  next
    case False
    from k have "no_removed (ls_changes s)" "no_removed (ls_gaps s)" by (simp_all add: step_keeps_def)
    from plan_one_states[OF p this] plan_one_stored[OF p] k show ?thesis
      unfolding step_keeps_def plan_step_def e Let_def
      by (simp only: p case_prod_conv False if_False loop_state.simps)
         (intro conjI map_insert_removed; simp)
  qed
qed

lemma plan_loop_keeps: "step_keeps st (plan_loop before st es me run now untracked mint k)"
proof -
  have "step_keeps st (plan_start before st k)"
    by (auto simp: step_keeps_def plan_start_def no_removed_def state_rows_def)
  then show ?thesis unfolding plan_loop_def by (rule fold_keeps) (rule plan_step_keeps)
qed

lemma mark_new_fst [simp]: "fst (mark_new key known r) = fst r"
  by (simp add: mark_new_def)

lemma live_plan:
  "live (plan_changes (plan_edits before st es me run now untracked mint k)) =
    map (mark_new c_id (set (map c_id (fs_changes st)))) (ls_changes (plan_loop before st es me run now untracked mint k))"
  "live (plan_gaps (plan_edits before st es me run now untracked mint k)) =
    map (mark_new g_id (set (map g_id (fs_gaps st)))) (ls_gaps (plan_loop before st es me run now untracked mint k))"
proof -
  have mark: "live (map (mark_new key known) rs @ qs) = map (mark_new key known) rs"
    if "no_removed rs" "\<forall>r \<in> set qs. snd r = Removed" for key :: "'r \<Rightarrow> ustr" and known rs qs
    using that by (induction rs) (auto simp: live_def no_removed_def mark_new_def filter_empty_conv)
  show "live (plan_changes (plan_edits before st es me run now untracked mint k)) =
    map (mark_new c_id (set (map c_id (fs_changes st)))) (ls_changes (plan_loop before st es me run now untracked mint k))"
    "live (plan_gaps (plan_edits before st es me run now untracked mint k)) =
    map (mark_new g_id (set (map g_id (fs_gaps st)))) (ls_gaps (plan_loop before st es me run now untracked mint k))"
    using plan_loop_keeps[of st before es me run now untracked mint k]
    by (simp_all add: plan_edits_def Let_def mark step_keeps_def)
qed

lemma map_mark_same:
  "fst ` set (map (mark_new key known) rs) = fst ` set rs" "map (f \<circ> fst) (map (mark_new key known) rs) = map (f \<circ> fst) rs"
  by (auto simp: image_image)

lemma original_mark: "original cur (map (mark_new key known) rows) (map (mark_new key' known') gaps) = original cur rows gaps"
proof -
  have "covered (map (mark_new key known) rows) = covered rows" by (auto simp: covered_def image_image)
  moreover have "gap_text (map (mark_new key' known') gaps) = gap_text gaps"
    by (intro ext, induction gaps) (auto simp: gap_text_Cons)
  ultimately show ?thesis by (simp add: original_def pieces_def kept_char_def)
qed

lemma wf_mark: "wf_rows n (map (mark_new key known) rows) (map (mark_new key' known') gaps) = wf_rows n rows gaps"
  unfolding wf_rows_def by (simp only: map_mark_same)

lemma stored_mark: "stored (map (mark_new key known) gaps) = stored gaps"
  by (simp add: stored_def)

section \<open>A sample file\<close>

text \<open>Somebody suggested inserting the second and third letters and deleting what stood at the
  end of the fourth; the author of the batch replaces a stretch across both and appends.\<close>

definition sample_text :: ustr where "sample_text = lit ''abcdef''"

definition sample_me :: author where "sample_me = \<lparr>who = lit ''me'', author_name = lit ''Me''\<rparr>"

definition sample_state :: file_state where
  "sample_state = \<lparr>fs_changes =
     [\<lparr>c_id = lit ''s'', c_who = lit ''you'', c_author = lit ''You'', c_run = None, c_at = 1,
       c_from = 1, c_to = 3, emptied = False, c_stale = False, orphan = False\<rparr>],
    fs_gaps =
     [\<lparr>g_id = lit ''g'', g_at = 4, fragments =
        [\<lparr>f_id = Some (lit ''f''), f_change = lit ''s'', f_text = lit ''old'', f_rank = None, f_stale = False\<rparr>],
       g_stale = False\<rparr>]\<rparr>"

definition sample_edits :: "edit_in list" where
  "sample_edits = [(2, 5, lit ''XY''), (6, 6, lit ''Z'')]"

definition sample_mint :: "nat \<Rightarrow> ustr" where "sample_mint n = [0, n]"

lemma sample_wf: "wf_rows (length sample_text) (state_rows (fs_changes sample_state)) (state_rows (fs_gaps sample_state))"
  by (simp add: wf_rows_def sample_text_def sample_state_def state_rows_def has_span_def)

lemma sample_fresh: "fresh_ids sample_mint 0 (state_rows (fs_changes sample_state))"
  by (simp add: fresh_ids_def sample_mint_def inj_def sample_state_def state_rows_def)

lemma sample_edits_ok: "edits_ok 0 (length sample_text) sample_edits"
  by (simp add: sample_edits_def sample_text_def)

section \<open>Properties\<close>

text \<open>C6: a tracked batch never changes what the document says once every suggestion is undone:
  with the planned records over the edited text, leaving out the recorded insertions and
  putting back the recorded deletions gives exactly the original text from before the batch,
  whatever spans and gaps of other people and of the author the edits cut, split, shift and
  merge.\<close>

theorem tracked_batch_keeps_original:
  assumes "wf_rows (length before) (state_rows (fs_changes st)) (state_rows (fs_gaps st))"
    and "fresh_ids mint k (state_rows (fs_changes st))" "edits_ok 0 (length before) es"
  shows "original (edited before es)
      (live (plan_changes (plan_edits before st es me run now False mint k)))
      (live (plan_gaps (plan_edits before st es me run now False mint k))) =
    original before (state_rows (fs_changes st)) (state_rows (fs_gaps st))"
  unfolding live_plan original_mark by (rule plan_loop_result(3)[OF assms]) simp

theorem tracked_batch_keeps_original_witness:
  "original (edited sample_text sample_edits)
      (live (plan_changes (plan_edits sample_text sample_state sample_edits sample_me None 5 False sample_mint 0)))
      (live (plan_gaps (plan_edits sample_text sample_state sample_edits sample_me None 5 False sample_mint 0))) =
    original sample_text (state_rows (fs_changes sample_state)) (state_rows (fs_gaps sample_state))"
  by (rule tracked_batch_keeps_original[OF sample_wf sample_fresh sample_edits_ok])

text \<open>C7: every plan is well formed over the text after the batch: its live records have unique
  ids, its spans lie in that text and do not overlap, and no gap lies strictly inside a span;
  so a plan can be planned on again.\<close>

theorem plan_edits_wf:
  assumes "wf_rows (length before) (state_rows (fs_changes st)) (state_rows (fs_gaps st))"
    and "fresh_ids mint k (state_rows (fs_changes st))" "edits_ok 0 (length before) es"
  shows "wf_rows (length (edited before es))
      (live (plan_changes (plan_edits before st es me run now untracked mint k)))
      (live (plan_gaps (plan_edits before st es me run now untracked mint k)))"
  unfolding live_plan wf_mark by (rule plan_loop_result(2)[OF assms])

theorem plan_edits_wf_witness:
  "wf_rows (length (edited sample_text sample_edits))
      (live (plan_changes (plan_edits sample_text sample_state sample_edits sample_me None 5 True sample_mint 0)))
      (live (plan_gaps (plan_edits sample_text sample_state sample_edits sample_me None 5 True sample_mint 0)))"
  by (rule plan_edits_wf[OF sample_wf sample_fresh sample_edits_ok])

text \<open>C8: a stored fragment is never rewritten or dropped by a plan, whoever stored it and
  whether the edits are tracked or not: the live gaps of the plan hold exactly the stored
  fragments the file had, each with its id, its text and its rank.\<close>

theorem stored_fragments_survive:
  "stored (live (plan_gaps (plan_edits before st es me run now untracked mint k))) = stored (state_rows (fs_gaps st))"
  unfolding live_plan stored_mark
  using plan_loop_keeps[of st before es me run now untracked mint k] by (simp add: step_keeps_def)

text \<open>An untracked edit changes the original text only where it edits: the characters it
  deletes that were not suggestions go, its own text comes in as original text, and every
  deleted fragment inside the edit stays, in order, before the new text or, for the fragments
  at its end, after it.\<close>

theorem untracked_edit_original:
  assumes "plan_one cur rows gaps ef et ins me run now True mint k = (nc, ng, k')"
    and "wf_rows (length cur) rows gaps" "ef \<le> et" "et \<le> length cur"
  shows "original (splice ef et ins cur) nc ng =
    pieces cur rows gaps 0 ef @ concat (map (gap_text gaps) [ef..<et]) @ ins @ gap_text gaps et @
    kept_char cur rows et @ pieces cur rows gaps (Suc et) (Suc (length cur))"
  using plan_one_original[OF assms] by (simp add: recorded_def)

theorem untracked_edit_original_witness:
  "original (splice 1 3 (lit ''x'') sample_text)
      (fst (plan_one sample_text (state_rows (fs_changes sample_state)) (state_rows (fs_gaps sample_state))
        1 3 (lit ''x'') sample_me None 5 True sample_mint 0))
      (fst (snd (plan_one sample_text (state_rows (fs_changes sample_state)) (state_rows (fs_gaps sample_state))
        1 3 (lit ''x'') sample_me None 5 True sample_mint 0))) =
    pieces sample_text (state_rows (fs_changes sample_state)) (state_rows (fs_gaps sample_state)) 0 1 @
    concat (map (gap_text (state_rows (fs_gaps sample_state))) [1..<3]) @ lit ''x'' @
    gap_text (state_rows (fs_gaps sample_state)) 3 @ kept_char sample_text (state_rows (fs_changes sample_state)) 3 @
    pieces sample_text (state_rows (fs_changes sample_state)) (state_rows (fs_gaps sample_state))
      (Suc 3) (Suc (length sample_text))"
proof -
  obtain nc ng k' where p: "plan_one sample_text (state_rows (fs_changes sample_state)) (state_rows (fs_gaps sample_state))
      1 3 (lit ''x'') sample_me None 5 True sample_mint 0 = (nc, ng, k')" by (metis surj_pair)
  have "(1::nat) \<le> 3" "3 \<le> length sample_text" by (simp_all add: sample_text_def)
  from untracked_edit_original[OF p sample_wf this] show ?thesis unfolding p fst_conv snd_conv .
qed

end
