(* ===== verification/Edits.thy ===== *)
theory Edits
  imports Track_Batch Text_Index "HOL-Library.Multiset"
begin

text \<open>
  Edits to a text: the overlap policies of \<open>document/overlap.rs\<close>, the line endings of
  \<open>base/text.rs\<close>, and \<open>apply_text_edits\<close> of \<open>document/session/edits.rs\<close>.  The shared text is
  the CRDT library's, so it is a record of the operations the code calls, with the documented
  behaviour of those stated in the locale \<open>text_laws\<close>; \<open>plain_text\<close> is the reading of it as a
  plain string.  The lemmas show that comparing each range with the one before it decides the
  pairwise question, and that the edits land as one simultaneous replacement or not at all.
\<close>

section \<open>Overlap policies\<close>

datatype allow = Allow_Yes | Allow_No

record overlap_policy =
  touching :: allow
  insert_at_boundary :: allow
  coincident_inserts :: allow
  sorted_input :: bool

definition APPLY_SORTED :: overlap_policy where
  "APPLY_SORTED = \<lparr>touching = Allow_Yes, insert_at_boundary = Allow_Yes, coincident_inserts = Allow_Yes, sorted_input = True\<rparr>"

definition AGENT_PATCH :: overlap_policy where
  "AGENT_PATCH = \<lparr>touching = Allow_Yes, insert_at_boundary = Allow_Yes, coincident_inserts = Allow_No, sorted_input = False\<rparr>"

record overlap =
  o_first :: nat
  o_second :: nat

definition conflicts :: "nat \<times> nat \<Rightarrow> nat \<times> nat \<Rightarrow> overlap_policy \<Rightarrow> bool" where
  "conflicts a b policy =
    (if fst b < fst a then True
     else (case (fst a = snd a, fst b = snd b) of
             (True, True) \<Rightarrow> fst a = fst b \<and> coincident_inserts policy = Allow_No
           | (True, False) \<Rightarrow> fst a = fst b \<and> insert_at_boundary policy = Allow_No
           | (False, True) \<Rightarrow>
               if fst b = snd a then insert_at_boundary policy = Allow_No else fst b < snd a
           | (False, False) \<Rightarrow>
               if fst b = snd a then touching policy = Allow_No else fst b < snd a))"

fun check_windows :: "(nat \<times> nat) list \<Rightarrow> overlap_policy \<Rightarrow> nat list \<Rightarrow> overlap + unit" where
  "check_windows ranges policy (i # j # order) =
    (if conflicts (ranges ! i) (ranges ! j) policy then Inl \<lparr>o_first = i, o_second = j\<rparr>
     else check_windows ranges policy (j # order))"
| "check_windows ranges policy _ = Inr ()"

definition check_overlaps :: "(nat \<times> nat) list \<Rightarrow> overlap_policy \<Rightarrow> overlap + unit" where
  "check_overlaps ranges policy =
    (let order = [0..<length ranges];
         order = (if \<not> sorted_input policy then sort_key (\<lambda>i. ranges ! i) order else order) in
     check_windows ranges policy order)"

section \<open>Line endings\<close>

datatype line_ending = Lf | CrLf | Cr

definition LF :: uchar where "LF = 0x0A"
definition CR :: uchar where "CR = 0x0D"

fun has_crlf :: "byte list \<Rightarrow> bool" where
  "has_crlf (a # b # bs) \<longleftrightarrow> a = 0x0D \<and> b = 0x0A \<or> has_crlf (b # bs)"
| "has_crlf _ = False"

definition detect :: "byte list \<Rightarrow> line_ending" where
  "detect bs = (if has_crlf bs then CrLf else if 0x0D \<in> set bs then Cr else Lf)"

text \<open>\<open>str::replace\<close> with the pattern CR LF, then with the pattern CR.\<close>

fun replace_crlf :: "ustr \<Rightarrow> ustr" where
  "replace_crlf (a # b # t) = (if a = CR \<and> b = LF then LF # replace_crlf t else a # replace_crlf (b # t))"
| "replace_crlf t = t"

definition normalise_lines :: "ustr \<Rightarrow> ustr" where
  "normalise_lines t =
    (if CR \<notin> set t then t else map (\<lambda>c. if c = CR then LF else c) (replace_crlf t))"

definition apply_ending :: "line_ending \<Rightarrow> ustr \<Rightarrow> ustr" where
  "apply_ending e t =
    (case e of
       Lf \<Rightarrow> t
     | CrLf \<Rightarrow> concat (map (\<lambda>c. if c = LF then [CR, LF] else [c]) t)
     | Cr \<Rightarrow> map (\<lambda>c. if c = LF then CR else c) t)"

section \<open>The shared text\<close>

record 't text_ops =
  text_string :: "'t \<Rightarrow> ustr"
  text_len16 :: "'t \<Rightarrow> nat"
  delete_utf16 :: "'t \<Rightarrow> nat \<Rightarrow> nat \<Rightarrow> 't \<times> bool"
  insert_utf16 :: "'t \<Rightarrow> nat \<Rightarrow> ustr \<Rightarrow> 't \<times> bool"
  convert_pos :: "'t \<Rightarrow> nat \<Rightarrow> nat option"

record edit =
  ed_at :: nat
  ed_delete :: nat
  ed_insert :: ustr

text \<open>The edits from the last to the first; the answer says whether every one was taken.\<close>

fun apply_back :: "'t text_ops \<Rightarrow> edit list \<Rightarrow> 't \<Rightarrow> 't \<times> bool" where
  "apply_back T [] x = (x, True)"
| "apply_back T (e # es) x =
    (let (x1, deleted) = (if ed_delete e > 0 then delete_utf16 T x (ed_at e) (ed_delete e) else (x, True)) in
     if \<not> deleted then (x1, False)
     else (let (x2, inserted) = (if ed_insert e \<noteq> [] then insert_utf16 T x1 (ed_at e) (ed_insert e) else (x1, True)) in
       if \<not> inserted then (x2, False) else apply_back T es x2))"

definition apply_text_edits :: "'t text_ops \<Rightarrow> edit list \<Rightarrow> 't \<Rightarrow> 't \<times> bool" where
  "apply_text_edits T edits x =
    (let len = text_len16 T x;
         ranges = map (\<lambda>e. (ed_at e, usize_add (ed_at e) (ed_delete e))) edits in
     if list_ex (\<lambda>(_, fin). fin > len) ranges \<or> \<not> is_ok (check_overlaps ranges APPLY_SORTED) then (x, False)
     else apply_back T (rev edits) x)"

section \<open>The pairwise question\<close>

definition empty_range :: "nat \<times> nat \<Rightarrow> bool" where
  "empty_range r \<longleftrightarrow> fst r = snd r"

text \<open>Two ranges an agent may patch together: one ends where the other starts or before, and
  they are not two insertions at one position.\<close>

definition ranges_apart :: "nat \<times> nat \<Rightarrow> nat \<times> nat \<Rightarrow> bool" where
  "ranges_apart a b \<longleftrightarrow> (snd a \<le> fst b \<or> snd b \<le> fst a) \<and> \<not> (a = b \<and> empty_range a)"

lemma conflicts_sorted: "fst a \<le> snd a \<Longrightarrow> conflicts a b APPLY_SORTED \<longleftrightarrow> fst b < snd a"
  by (auto simp: conflicts_def APPLY_SORTED_def split: bool.splits)

lemma conflicts_agent:
  "fst a \<le> snd a \<Longrightarrow> conflicts a b AGENT_PATCH \<longleftrightarrow> fst b < snd a \<or> a = b \<and> empty_range a"
  by (cases a; cases b) (auto simp: conflicts_def AGENT_PATCH_def empty_range_def split: bool.splits)

lemma check_windows_iff:
  "is_ok (check_windows ranges policy order) \<longleftrightarrow>
    successively (\<lambda>a b. \<not> conflicts a b policy) (map (\<lambda>i. ranges ! i) order)"
  by (induction ranges policy order rule: check_windows.induct) simp_all

lemma check_overlaps_iff:
  "is_ok (check_overlaps ranges policy) \<longleftrightarrow>
    successively (\<lambda>a b. \<not> conflicts a b policy) (if sorted_input policy then ranges else sort ranges)"
proof -
  have "map (\<lambda>i. ranges ! i) (sort_key (\<lambda>i. ranges ! i) [0..<length ranges]) = sort ranges"
  proof (rule properties_for_sort[symmetric])
    have "mset (map (\<lambda>i. ranges ! i) (sort_key (\<lambda>i. ranges ! i) [0..<length ranges])) = mset (map (\<lambda>i. ranges ! i) [0..<length ranges])"
      by simp
    then show "mset (map (\<lambda>i. ranges ! i) (sort_key (\<lambda>i. ranges ! i) [0..<length ranges])) = mset ranges" by (simp only: map_nth)
  qed simp
  then show ?thesis by (simp add: check_overlaps_def Let_def check_windows_iff map_nth)
qed

definition proper :: "nat \<times> nat \<Rightarrow> bool" where
  "proper r \<longleftrightarrow> fst r \<le> snd r"

definition before_range :: "nat \<times> nat \<Rightarrow> nat \<times> nat \<Rightarrow> bool" where
  "before_range a b \<longleftrightarrow> proper a \<and> proper b \<and> snd a \<le> fst b \<and> \<not> (a = b \<and> empty_range a)"

lemma transp_before: "transp before_range"
proof (rule transpI)
  fix a b c
  assume ab: "before_range a b" and bc: "before_range b c"
  have "\<not> (a = c \<and> empty_range a)"
  proof
    assume "a = c \<and> empty_range a"
    with ab bc have "a = b" by (intro prod_eqI) (auto simp: before_range_def proper_def empty_range_def)
    with ab \<open>a = c \<and> empty_range a\<close> show False by (auto simp: before_range_def)
  qed
  moreover have "proper a" "proper c" "snd a \<le> fst c" using ab bc by (auto simp: before_range_def proper_def)
  ultimately show "before_range a c" by (simp add: before_range_def)
qed

lemma successively_proper:
  assumes "\<And>a b. proper a \<Longrightarrow> proper b \<Longrightarrow> P a b = Q a b" "\<forall>r \<in> set rs. proper r"
  shows "successively P rs = successively Q rs"
  using assms(2) by (induction rs rule: induct_list012) (simp_all add: assms(1))

lemma sorted_apart:
  assumes "sorted rs" "\<forall>r \<in> set rs. proper r"
  shows "sorted_wrt before_range rs \<longleftrightarrow> sorted_wrt ranges_apart rs"
  using assms
proof (induction rs)
  case (Cons a rs)
  have "before_range a b \<longleftrightarrow> ranges_apart a b" if "b \<in> set rs" for b
  proof -
    have le: "a \<le> b" and p: "proper a" "proper b" using Cons.prems that by auto
    have "a = b \<and> empty_range a" if "snd b \<le> fst a" "\<not> snd a \<le> fst b"
      using le p that by (cases a; cases b) (auto simp: proper_def empty_range_def less_eq_prod_def)
    then show ?thesis using p by (auto simp: before_range_def ranges_apart_def)
  qed
  with Cons show ?case by auto
qed simp

lemma sorted_wrt_perm:
  assumes "symp P" "mset xs = mset ys" "sorted_wrt P xs"
  shows "sorted_wrt P ys"
  using assms(2,3)
proof (induction xs arbitrary: ys)
  case (Cons x xs)
  then obtain us vs where ys: "ys = us @ x # vs" by (metis in_set_conv_decomp list.set_intros(1) set_mset_mset)
  then have m: "mset xs = mset (us @ vs)" using Cons.prems(1) by simp
  then have "set xs = set us \<union> set vs" by (metis mset_eq_setD set_append)
  with Cons.prems(2) have l: "\<forall>u \<in> set us. P u x" "\<forall>v \<in> set vs. P x v" using sympD[OF assms(1)] by auto
  have "sorted_wrt P (us @ vs)" by (rule Cons.IH[OF m]) (use Cons.prems(2) in simp)
  with l show ?case unfolding ys by (simp add: sorted_wrt_append)
qed simp

lemma symp_ranges_apart: "symp ranges_apart"
  by (rule sympI) (auto simp: ranges_apart_def)

lemma check_agent_apart:
  assumes "\<forall>r \<in> set ranges. proper r"
  shows "is_ok (check_overlaps ranges AGENT_PATCH) \<longleftrightarrow> sorted_wrt ranges_apart ranges"
proof -
  have "successively (\<lambda>a b. \<not> conflicts a b AGENT_PATCH) (sort ranges) = successively before_range (sort ranges)"
    by (rule successively_proper) (use assms in \<open>auto simp: conflicts_agent before_range_def proper_def\<close>)
  also have "\<dots> = sorted_wrt before_range (sort ranges)" by (rule successively_conv_sorted_wrt[OF transp_before])
  also have "\<dots> = sorted_wrt ranges_apart (sort ranges)" by (rule sorted_apart) (use assms in auto)
  also have "\<dots> = sorted_wrt ranges_apart ranges" using sorted_wrt_perm[OF symp_ranges_apart] by (metis mset_sort)
  finally show ?thesis unfolding check_overlaps_iff by (simp add: AGENT_PATCH_def)
qed

section \<open>Edits in code points\<close>

text \<open>The edits of a batch read in the characters of the text they are measured against.\<close>

definition edit_at :: "ustr \<Rightarrow> edit \<Rightarrow> edit_in \<Rightarrow> bool" where
  "edit_at s e c \<longleftrightarrow> (case c of (i, j, ins) \<Rightarrow> i \<le> j \<and> j \<le> length s \<and> ed_at e = str_len16 (take i s) \<and>
    ed_at e + ed_delete e = str_len16 (take j s) \<and> ins = ed_insert e)"

definition edits_at :: "ustr \<Rightarrow> edit list \<Rightarrow> edit_in list \<Rightarrow> bool" where
  "edits_at s = list_all2 (edit_at s)"

lemma len16_take_le_iff: "i \<le> length s \<Longrightarrow> j \<le> length s \<Longrightarrow> str_len16 (take i s) \<le> str_len16 (take j s) \<longleftrightarrow> i \<le> j"
proof (induction s arbitrary: i j)
  case (Cons c s)
  then show ?case by (cases i; cases j) auto
qed simp

lemma len8_take_le_iff: "i \<le> length s \<Longrightarrow> j \<le> length s \<Longrightarrow> str_len8 (take i s) \<le> str_len8 (take j s) \<longleftrightarrow> i \<le> j"
proof (induction s arbitrary: i j)
  case (Cons c s)
  then show ?case by (cases i; cases j) auto
qed simp

locale text_laws =
  fixes T :: "'t text_ops"
  assumes len: "text_len16 T x = str_len16 (text_string T x)"
    and delete: "i \<le> j \<Longrightarrow> j \<le> length (text_string T x) \<Longrightarrow>
      \<exists>x'. delete_utf16 T x (str_len16 (take i (text_string T x)))
          (str_len16 (take j (text_string T x)) - str_len16 (take i (text_string T x))) = (x', True) \<and>
        text_string T x' = take i (text_string T x) @ drop j (text_string T x)"
    and insert: "i \<le> length (text_string T x) \<Longrightarrow>
      \<exists>x'. insert_utf16 T x (str_len16 (take i (text_string T x))) ins = (x', True) \<and>
        text_string T x' = take i (text_string T x) @ ins @ drop i (text_string T x)"
    and convert: "i \<le> length (text_string T x) \<Longrightarrow> convert_pos T x (str_len16 (take i (text_string T x))) = Some i"
begin

lemma one_edit:
  assumes "edit_at s e (i, j, ins)" "s = text_string T x"
  shows "\<exists>x'. apply_back T (e # es) x = apply_back T es x' \<and> text_string T x' = take i s @ ins @ drop j s"
proof -
  from assms(1) have e: "i \<le> j" "j \<le> length s" "ed_at e = str_len16 (take i s)" "ins = ed_insert e"
    and d: "ed_delete e = str_len16 (take j s) - str_len16 (take i s)" by (auto simp: edit_at_def)
  obtain x1 where x1: "(if ed_delete e > 0 then delete_utf16 T x (ed_at e) (ed_delete e) else (x, True)) = (x1, True)"
    "text_string T x1 = take i s @ drop j s"
  proof (cases "ed_delete e > 0")
    case True
    with delete[of i j x] e d assms(2) that show ?thesis by auto
  next
    case False
    then have "str_len16 (take j s) \<le> str_len16 (take i s)" using d by simp
    then have "i = j" using e(1,2) len16_take_le_iff[of j s i] by simp
    with False assms(2) that[of x] show ?thesis by simp
  qed
  have i: "take i (text_string T x1) = take i s" "drop i (text_string T x1) = drop j s" "i \<le> length (text_string T x1)"
    using x1(2) e(1,2) by simp_all
  obtain x2 where "(if ed_insert e \<noteq> [] then insert_utf16 T x1 (ed_at e) (ed_insert e) else (x1, True)) = (x2, True)"
    "text_string T x2 = take i s @ ins @ drop j s"
    using insert[of i x1 "ed_insert e"] i e x1(2) by (cases "ed_insert e = []") auto
  with x1 show ?thesis by (intro exI[of _ x2]) simp
qed

lemma apply_back_append:
  "apply_back T (es @ fs) x = (case apply_back T es x of (x', ok) \<Rightarrow> if ok then apply_back T fs x' else (x', False))"
  by (induction T es x rule: apply_back.induct) (auto simp: Let_def split: prod.splits)

lemma apply_back_edits:
  assumes "edits_at s edits cps" "edits_ok t0 (length s) cps" "t0 \<le> length s" "text_string T x = s"
  shows "\<exists>x'. apply_back T (rev edits) x = (x', True) \<and> text_string T x' = take t0 s @ edited_from t0 s cps"
  using assms
proof (induction cps arbitrary: edits t0)
  case Nil
  then show ?case by (simp add: edits_at_def)
next
  case (Cons c cps)
  obtain i j ins where c: "c = (i, j, ins)" by (metis prod_cases3)
  from Cons.prems(1) obtain e es where e: "edits = e # es" "edit_at s e c" "edits_at s es cps"
    by (auto simp: edits_at_def list_all2_Cons2)
  from Cons.prems(2) c have ok: "t0 \<le> i" "i \<le> j" "j \<le> length s" "edits_ok j (length s) cps" by auto
  from Cons.IH[OF e(3) ok(4,3) Cons.prems(4)] obtain x1 where x1: "apply_back T (rev es) x = (x1, True)"
    "text_string T x1 = take j s @ edited_from j s cps" by blast
  have "edit_at (text_string T x1) e (i, j, ins)"
    using e(2) ok c by (auto simp: edit_at_def x1(2))
  from one_edit[OF this refl, of "[]"] obtain x2 where "apply_back T [e] x1 = (x2, True)"
    "text_string T x2 = take i s @ ins @ edited_from j s cps" using ok by (auto simp: x1(2))
  with x1(1) e(1) c ok(1) show ?case by (simp add: apply_back_append take_slice[of t0 i s])
qed

end

lemma sorted_check_chain:
  assumes "edits_at s edits cps" "t0 \<le> length s"
    and "edits \<noteq> [] \<Longrightarrow> str_len16 (take t0 s) \<le> ed_at (hd edits)"
  shows "successively (\<lambda>a b. \<not> conflicts a b APPLY_SORTED) (map (\<lambda>e. (ed_at e, ed_at e + ed_delete e)) edits) \<longleftrightarrow>
    edits_ok t0 (length s) cps"
  using assms
proof (induction cps arbitrary: edits t0)
  case Nil
  then show ?case by (simp add: edits_at_def)
next
  case (Cons c cps)
  obtain i j ins where c: "c = (i, j, ins)" by (metis prod_cases3)
  from Cons.prems(1) obtain e es where e: "edits = e # es" "edit_at s e c" "edits_at s es cps"
    by (auto simp: edits_at_def list_all2_Cons2)
  let ?r = "\<lambda>e. (ed_at e, ed_at e + ed_delete e)"
  have ij: "i \<le> j" "j \<le> length s" "ed_at e = str_len16 (take i s)" "ed_at e + ed_delete e = str_len16 (take j s)"
    using e(2) c by (simp_all add: edit_at_def)
  have t0: "t0 \<le> i" using Cons.prems(2,3) ij e(1) len16_take_le_iff[of t0 s i] by simp
  show ?case
  proof (cases es)
    case Nil
    then have "cps = []" using e(3) by (simp add: edits_at_def)
    with Nil e(1) c ij t0 show ?thesis by simp
  next
    case fs: (Cons f fs)
    then obtain k l ins' cs where f: "cps = (k, l, ins') # cs" "edit_at s f (k, l, ins')"
      using e(3) by (cases cps) (auto simp: edits_at_def)
    then have kl: "k \<le> l" "l \<le> length s" "ed_at f = str_len16 (take k s)" by (simp_all add: edit_at_def)
    have le: "\<not> conflicts (?r e) (?r f) APPLY_SORTED \<longleftrightarrow> j \<le> k"
      using ij kl len16_take_le_iff[of j s k] by (simp add: conflicts_sorted not_less)
    show ?thesis
    proof (cases "j \<le> k")
      case True
      have "successively (\<lambda>a b. \<not> conflicts a b APPLY_SORTED) (map ?r es) \<longleftrightarrow> edits_ok j (length s) cps"
        by (rule Cons.IH[OF e(3) ij(2)]) (use True kl fs in \<open>simp add: str_len16_take_mono\<close>)
      with le True fs e(1) c t0 ij show ?thesis by simp
    next
      case False
      with le fs e(1) c f show ?thesis by simp
    qed
  qed
qed

section \<open>The text as a plain string\<close>

definition plain_delete :: "ustr \<Rightarrow> nat \<Rightarrow> nat \<Rightarrow> ustr \<times> bool" where
  "plain_delete s u n =
    (case (code_point_of s (Utf16 u), code_point_of s (Utf16 (u + n))) of
       (Inr (CodePoint i), Inr (CodePoint j)) \<Rightarrow> (take i s @ drop j s, True)
     | _ \<Rightarrow> (s, False))"

definition plain_insert :: "ustr \<Rightarrow> nat \<Rightarrow> ustr \<Rightarrow> ustr \<times> bool" where
  "plain_insert s u ins =
    (case code_point_of s (Utf16 u) of Inr (CodePoint i) \<Rightarrow> (take i s @ ins @ drop i s, True) | Inl _ \<Rightarrow> (s, False))"

definition plain_text :: "ustr text_ops" where
  "plain_text = \<lparr>text_string = (\<lambda>s. s), text_len16 = str_len16, delete_utf16 = plain_delete, insert_utf16 = plain_insert,
    convert_pos = (\<lambda>s u. case code_point_of s (Utf16 u) of Inr (CodePoint i) \<Rightarrow> Some i | Inl _ \<Rightarrow> None)\<rparr>"

lemma code_point_at: "i \<le> length s \<Longrightarrow> code_point_of s (Utf16 (str_len16 (take i s))) = Inr (CodePoint i)"
  by (auto simp: code_point_of_from_iff)

interpretation plain: text_laws plain_text
proof
  fix x :: ustr and i j ins
  show "text_len16 plain_text x = str_len16 (text_string plain_text x)" by (simp add: plain_text_def)
  show "\<exists>x'. insert_utf16 plain_text x (str_len16 (take i (text_string plain_text x))) ins = (x', True) \<and>
      text_string plain_text x' = take i (text_string plain_text x) @ ins @ drop i (text_string plain_text x)"
    if "i \<le> length (text_string plain_text x)"
    using that by (simp add: plain_text_def plain_insert_def code_point_at del: code_point_of.simps)
  show "convert_pos plain_text x (str_len16 (take i (text_string plain_text x))) = Some i" if "i \<le> length (text_string plain_text x)"
    using that by (simp add: plain_text_def code_point_at del: code_point_of.simps)
  assume ij: "i \<le> j" "j \<le> length (text_string plain_text x)"
  then have "str_len16 (take i x) \<le> str_len16 (take j x)" by (simp add: str_len16_take_mono)
  with ij show "\<exists>x'. delete_utf16 plain_text x (str_len16 (take i (text_string plain_text x)))
        (str_len16 (take j (text_string plain_text x)) - str_len16 (take i (text_string plain_text x))) = (x', True) \<and>
      text_string plain_text x' = take i (text_string plain_text x) @ drop j (text_string plain_text x)"
    by (simp add: plain_text_def plain_delete_def code_point_at del: code_point_of.simps)
qed

section \<open>Edits land whole\<close>

lemma apply_edits_result:
  assumes "text_laws T" "text_string T x = s" "str_len16 s < usize_max" "edits_at s edits cps"
    and "apply_text_edits T edits x = (x', taken)"
  shows "(taken \<longleftrightarrow> edits_ok 0 (length s) cps) \<and> (taken \<longrightarrow> text_string T x' = edited s cps) \<and> (\<not> taken \<longrightarrow> x' = x)"
proof -
  have fits: "ed_at e + ed_delete e \<le> str_len16 s" if "e \<in> set edits" for e
    using assms(4) that str_len16_take_le by (fastforce simp: edits_at_def list_all2_conv_all_nth in_set_conv_nth edit_at_def)
  then have rs: "map (\<lambda>e. (ed_at e, usize_add (ed_at e) (ed_delete e))) edits = map (\<lambda>e. (ed_at e, ed_at e + ed_delete e)) edits"
    using assms(3) by (fastforce simp: usize_add_def)
  have len: "text_len16 T x = str_len16 s" using text_laws.len[OF assms(1), of x] assms(2) by simp
  have short: "\<not> list_ex (\<lambda>(_, fin). fin > text_len16 T x) (map (\<lambda>e. (ed_at e, ed_at e + ed_delete e)) edits)"
    unfolding len using fits by (force simp: list_ex_iff)
  have check: "is_ok (check_overlaps (map (\<lambda>e. (ed_at e, ed_at e + ed_delete e)) edits) APPLY_SORTED) \<longleftrightarrow> edits_ok 0 (length s) cps"
    unfolding check_overlaps_iff using sorted_check_chain[OF assms(4), of 0] by (simp add: APPLY_SORTED_def)
  show ?thesis
  proof (cases "edits_ok 0 (length s) cps")
    case True
    with text_laws.apply_back_edits[OF assms(1,4) True _ assms(2)] short check assms(5) show ?thesis
      unfolding apply_text_edits_def Let_def rs by (auto simp: edited_def)
  next
    case False
    with short check assms(5) show ?thesis unfolding apply_text_edits_def Let_def rs by auto
  qed
qed

section \<open>Line endings come back\<close>

lemma replace_crlf_id: "CR \<notin> set t \<Longrightarrow> replace_crlf t = t"
  by (induction t rule: replace_crlf.induct) auto

lemma replace_crlf_lfless: "LF \<notin> set t \<Longrightarrow> replace_crlf t = t"
  by (induction t rule: replace_crlf.induct) auto

lemma normalise_no_cr: "CR \<notin> set (normalise_lines t)"
  by (auto simp: normalise_lines_def CR_def LF_def)

lemma normalise_id: "CR \<notin> set t \<Longrightarrow> normalise_lines t = t"
  by (simp add: normalise_lines_def)

lemma replace_crlf_apply: "CR \<notin> set t \<Longrightarrow> replace_crlf (apply_ending CrLf t) = t"
proof (induction t)
  case (Cons c t)
  show ?case
  proof (cases "c = LF")
    case True
    with Cons show ?thesis by (simp add: apply_ending_def)
  next
    case False
    have "replace_crlf (c # u) = c # replace_crlf u" if "c \<noteq> CR" for u using that by (cases u) simp_all
    with False Cons show ?thesis by (simp add: apply_ending_def)
  qed
qed (simp add: apply_ending_def)

lemma cr_in_apply: "CR \<in> set (apply_ending CrLf t) \<longleftrightarrow> LF \<in> set t \<or> CR \<in> set t"
  "CR \<in> set (apply_ending Cr t) \<longleftrightarrow> LF \<in> set t \<or> CR \<in> set t"
  by (auto simp: apply_ending_def LF_def CR_def split: if_splits)

lemma apply_ending_lfless: "LF \<notin> set t \<Longrightarrow> apply_ending e t = t"
  by (induction t) (auto simp: apply_ending_def split: line_ending.splits)

lemma normalise_apply: "CR \<notin> set t \<Longrightarrow> normalise_lines (apply_ending e t) = t"
proof (cases "LF \<in> set t")
  case True
  assume cr: "CR \<notin> set t"
  have id: "map (\<lambda>c. if c = CR then LF else c) t = t" using cr by (auto intro!: map_idI)
  show ?thesis
  proof (cases e)
    case Lf
    with cr show ?thesis by (simp add: apply_ending_def normalise_id)
  next
    case CrLf
    with cr True id replace_crlf_apply[OF cr] show ?thesis by (simp add: normalise_lines_def cr_in_apply)
  next
    case Cr
    have "LF \<notin> set (apply_ending Cr t)" by (auto simp: apply_ending_def LF_def CR_def)
    then have "replace_crlf (apply_ending Cr t) = apply_ending Cr t" by (rule replace_crlf_lfless)
    moreover have "map (\<lambda>c. if c = CR then LF else c) (apply_ending Cr t) = t"
      using cr by (auto simp: apply_ending_def comp_def intro!: map_idI)
    ultimately show ?thesis using Cr True by (simp add: normalise_lines_def cr_in_apply)
  qed
qed (simp add: apply_ending_lfless normalise_id)

section \<open>Properties\<close>



text \<open>C34: an agent's patches are refused exactly when two of them get in each other's way: the
  check of each range against the one before it, in sorted order, answers the same as comparing
  every pair for an intersection or two insertions at one position, whatever order they came in.\<close>

theorem agent_overlaps_pairwise:
  assumes "list_all proper ranges"
  shows "is_ok (check_overlaps ranges AGENT_PATCH) \<longleftrightarrow>
    (\<forall>i j. i < j \<and> j < length ranges \<longrightarrow> ranges_apart (ranges ! i) (ranges ! j))"
  using check_agent_apart[of ranges] assms by (auto simp: list_all_iff sorted_wrt_iff_nth_less)

theorem agent_overlaps_pairwise_witness:
  "is_ok (check_overlaps [(2, 4), (2, 2), (0, 2)] AGENT_PATCH) \<and> \<not> is_ok (check_overlaps [(2, 2), (0, 4)] AGENT_PATCH)"
proof -
  have "ranges_apart ([(2, 4), (2, 2), (0, 2)] ! i) ([(2, 4), (2, 2), (0, 2)] ! j)" if "i < j \<and> j < length [(2::nat, 4::nat), (2, 2), (0, 2)]" for i j
    using that by (auto simp: less_Suc_eq ranges_apart_def numeral_eq_Suc)
  then have "is_ok (check_overlaps [(2, 4), (2, 2), (0, 2)] AGENT_PATCH)"
    using agent_overlaps_pairwise[of "[(2, 4), (2, 2), (0, 2)]"] by (simp add: proper_def)
  moreover have "\<not> ranges_apart ([(2, 2), (0, 4)] ! 0) ([(2, 2), (0, 4)] ! 1)" by (simp add: ranges_apart_def)
  then have "\<not> is_ok (check_overlaps [(2, 2), (0, 4)] AGENT_PATCH)"
    using agent_overlaps_pairwise[of "[(2, 2), (0, 4)]"] by (auto simp: proper_def)
  ultimately show ?thesis by blast
qed

end
