(* ===== verification/Paths.thy ===== *)
theory Paths
  imports Prelude "HOL-Library.Sublist"
begin

text \<open>
  What a relative path may be, \<open>base/paths.rs\<close>: the structure \<open>RelPath\<close> with its \<open>local\<close> and
  Git variants, \<open>under\<close>, the portable rule, and \<open>admit\<close>, which says what a project may contain;
  the validator's own \<open>validate_path\<close> and the sync client's \<open>check\<close> are here with them.
  \<open>std::path\<close> is its Unix reading: a path is a byte string cut at the slashes.  Unicode
  normalisation and lowercasing are tables, so the two functions are a record every definition
  that uses them takes as an argument.
\<close>

section \<open>Characters and splitting\<close>

definition SLASH :: uchar where "SLASH = 0x2F"
definition BACKSLASH :: uchar where "BACKSLASH = 0x5C"
definition DOT :: uchar where "DOT = 0x2E"
definition COLON :: uchar where "COLON = 0x3A"

text \<open>\<open>char::is_control\<close>, \<open>char::is_whitespace\<close> and \<open>str::trim\<close>.\<close>

definition is_control :: "uchar \<Rightarrow> bool" where
  "is_control c \<longleftrightarrow> c < 0x20 \<or> 0x7F \<le> c \<and> c \<le> 0x9F"

definition is_whitespace :: "uchar \<Rightarrow> bool" where
  "is_whitespace c \<longleftrightarrow> 0x09 \<le> c \<and> c \<le> 0x0D \<or> 0x2000 \<le> c \<and> c \<le> 0x200A \<or>
    c \<in> set [0x20, 0x85, 0xA0, 0x1680, 0x2028, 0x2029, 0x202F, 0x205F, 0x3000]"

definition trim :: "ustr \<Rightarrow> ustr" where
  "trim t = rev (dropWhile is_whitespace (rev (dropWhile is_whitespace t)))"

text \<open>\<open>str::split\<close> at a character: one more piece than there are separators.\<close>

fun split_char :: "uchar \<Rightarrow> ustr \<Rightarrow> ustr list" where
  "split_char sep [] = [[]]"
| "split_char sep (c # t) =
    (if c = sep then [] # split_char sep t
     else (case split_char sep t of [] \<Rightarrow> [[c]] | p # ps \<Rightarrow> (c # p) # ps))"

abbreviation split_slash :: "ustr \<Rightarrow> ustr list" where
  "split_slash \<equiv> split_char SLASH"

definition starts_with :: "ustr \<Rightarrow> uchar \<Rightarrow> bool" where
  "starts_with t c \<longleftrightarrow> t \<noteq> [] \<and> hd t = c"

definition is_lower_hex :: "uchar \<Rightarrow> bool" where
  "is_lower_hex c \<longleftrightarrow> 0x30 \<le> c \<and> c \<le> 0x39 \<or> 0x61 \<le> c \<and> c \<le> 0x66"

definition is_ascii_digit :: "uchar \<Rightarrow> bool" where
  "is_ascii_digit c \<longleftrightarrow> 0x30 \<le> c \<and> c \<le> 0x39"

definition is_ascii_alphabetic :: "uchar \<Rightarrow> bool" where
  "is_ascii_alphabetic c \<longleftrightarrow> 0x41 \<le> c \<and> c \<le> 0x5A \<or> 0x61 \<le> c \<and> c \<le> 0x7A"

definition to_ascii_lowercase :: "uchar \<Rightarrow> uchar" where
  "to_ascii_lowercase c = (if 0x41 \<le> c \<and> c \<le> 0x5A then c + 0x20 else c)"

definition eq_ignore_ascii_case :: "ustr \<Rightarrow> ustr \<Rightarrow> bool" where
  "eq_ignore_ascii_case a b \<longleftrightarrow> map to_ascii_lowercase a = map to_ascii_lowercase b"

section \<open>Paths of the operating system\<close>

datatype component = RootDir | CurDir | ParentDir | Normal ustr

definition part_component :: "ustr \<Rightarrow> component list" where
  "part_component p =
    (if p = [] \<or> p = [DOT] then [] else if p = [DOT, DOT] then [ParentDir] else [Normal p])"

definition path_components :: "ustr \<Rightarrow> component list" where
  "path_components t =
    (if starts_with t SLASH then [RootDir] else if hd (split_slash t) = [DOT] then [CurDir] else []) @
    concat (map part_component (split_slash t))"

definition path_join :: "ustr \<Rightarrow> ustr \<Rightarrow> ustr" where
  "path_join root p =
    (if starts_with p SLASH then p
     else if root \<noteq> [] \<and> last root \<noteq> SLASH then root @ [SLASH] @ p else root @ p)"

definition path_starts_with :: "ustr \<Rightarrow> ustr \<Rightarrow> bool" where
  "path_starts_with t root \<longleftrightarrow> prefix (path_components root) (path_components t)"

section \<open>The policies\<close>

record path_refusal =
  pf_path :: ustr
  pf_reason :: ustr

datatype rel_path = RelPath (rel_str: ustr)

definition path_refuse :: "ustr \<Rightarrow> string \<Rightarrow> path_refusal + 'a" where
  "path_refuse path reason = Inl \<lparr>pf_path = path, pf_reason = lit reason\<rparr>"

definition rel_try_from :: "ustr \<Rightarrow> path_refusal + rel_path" where
  "rel_try_from path =
    (if path = [] then path_refuse path ''a path needs a name''
     else if starts_with path SLASH then path_refuse path ''a path is relative, so it cannot begin with /''
     else if BACKSLASH \<in> set path then path_refuse path (''paths are separated by /, not by '' @ [CHR 0x5C])
     else if list_ex (\<lambda>c. c < 0x20 \<or> c = 0x7F) path then path_refuse path ''a path cannot carry control characters''
     else if list_ex (\<lambda>part. part = [] \<or> part = [DOT] \<or> part = [DOT, DOT]) (split_slash path)
       then path_refuse path ''a path cannot have an empty or relative segment''
     else Inr (RelPath path))"

definition rel_local :: "ustr \<Rightarrow> path_refusal + rel_path" where
  "rel_local path =
    rbind (rel_try_from path) (\<lambda>relative.
      if list_ex is_control path then path_refuse path ''a path cannot carry control characters''
      else if length path \<ge> 2 \<and> is_ascii_alphabetic (path ! 0) \<and> path ! 1 = COLON
        then path_refuse path ''a path cannot begin with a drive''
      else Inr relative)"

definition segments :: "rel_path \<Rightarrow> ustr list" where
  "segments p = split_slash (rel_str p)"

definition under :: "rel_path \<Rightarrow> ustr \<Rightarrow> path_refusal + ustr" where
  "under p root =
    (let plain = list_all (\<lambda>part. case part of Normal _ \<Rightarrow> True | _ \<Rightarrow> False) (path_components (rel_str p));
         target = path_join root (rel_str p) in
     if \<not> plain \<or> \<not> path_starts_with target root then path_refuse (rel_str p) ''leaves the folder''
     else Inr target)"

datatype repo_path = RepoPath rel_path

definition repo_try_from :: "ustr \<Rightarrow> path_refusal + repo_path" where
  "repo_try_from path =
    rbind (rel_local path) (\<lambda>path.
      if list_ex (\<lambda>part. eq_ignore_ascii_case part (lit ''.git'')) (segments path)
      then path_refuse (rel_str path) ''Git's own directory cannot be named''
      else Inr (RepoPath path))"

text \<open>The debug form of a path, which only a refusal shows, is an argument.\<close>

definition portable :: "(ustr \<Rightarrow> ustr) \<Rightarrow> ustr \<Rightarrow> path_refusal + unit" where
  "portable debug path =
    (if trim path \<noteq> path then path_refuse (debug path) ''a name cannot begin or end with a space''
     else if COLON \<in> set path then path_refuse path ''a name cannot carry a colon, which Windows reads as a drive''
     else Inr ())"

datatype path_kind = Kind_Text | Kind_Asset

record path_rules =
  pr_text :: "ustr list"
  pr_asset :: "ustr list"
  pr_derived :: "ustr list"
  pr_max_path :: nat
  pr_max_segments :: nat

definition MAX_SEGMENTS :: nat where "MAX_SEGMENTS = 8"

record unicode =
  uc_nfc :: "ustr \<Rightarrow> ustr"
  uc_lower :: "ustr \<Rightarrow> ustr"

definition nfc :: "unicode \<Rightarrow> ustr \<Rightarrow> ustr" where
  "nfc U path = uc_nfc U path"

definition path_normalise :: "unicode \<Rightarrow> ustr \<Rightarrow> ustr" where
  "path_normalise U path = nfc U (trim path)"

definition collision_key :: "unicode \<Rightarrow> ustr \<Rightarrow> ustr" where
  "collision_key U path = uc_lower U (path_normalise U path)"

text \<open>\<open>[String]::join\<close>.\<close>

fun join_with :: "ustr \<Rightarrow> ustr list \<Rightarrow> ustr" where
  "join_with sep [] = []"
| "join_with sep [x] = x"
| "join_with sep (x # y # xs) = x @ sep @ join_with sep (y # xs)"

definition kind_of :: "unicode \<Rightarrow> path_rules \<Rightarrow> ustr \<Rightarrow> ustr + path_kind" where
  "kind_of U rules path =
    (let lower = uc_lower U path;
         allowed = foldl (\<lambda>allowed e. if e \<in> set allowed then allowed else allowed @ [e]) (pr_text rules) (pr_asset rules);
         allowed = (if allowed = [] then lit ''none'' else join_with (lit '', '') allowed);
         error = path @ lit '': allowed file extensions are '' @ allowed in
     if list_ex (\<lambda>e. suffix e lower) (pr_derived rules) then Inl error
     else if list_ex (\<lambda>e. suffix e lower) (pr_text rules) then Inr Kind_Text
     else if list_ex (\<lambda>e. suffix e lower) (pr_asset rules) then Inr Kind_Asset
     else Inl error)"

fun admit_segments :: "ustr \<Rightarrow> ustr list \<Rightarrow> ustr + unit" where
  "admit_segments path [] = Inr ()"
| "admit_segments path (segment # rest) =
    (if segment = [] then Inl (path @ lit '': a path cannot have an empty segment'')
     else if segment = [DOT] \<or> segment = [DOT, DOT] then Inl (path @ lit '': a path cannot climb with . or ..'')
     else if starts_with segment DOT then Inl (path @ lit '': a dotfile is not part of a document'')
     else admit_segments path rest)"

definition admit_path :: "unicode \<Rightarrow> path_rules \<Rightarrow> ustr \<Rightarrow> ustr + path_kind" where
  "admit_path U rules given =
    (let path = path_normalise U given in
     if path = [] then Inl (lit ''a file needs a name'')
     else if str_len8 path > pr_max_path rules
       then Inl (path @ lit '': a path may be at most '' @ nat_text (pr_max_path rules) @ lit '' bytes'')
     else if starts_with path SLASH then Inl (path @ lit '': a path is relative, so it cannot begin with /'')
     else if BACKSLASH \<in> set path then Inl (path @ lit '': paths are separated by /, not by '' @ [BACKSLASH])
     else if list_ex (\<lambda>c. c < 0x20 \<or> c = 0x7F) path then Inl (path @ lit '': a path cannot carry control characters'')
     else if length (split_slash path) > pr_max_segments rules
       then Inl (path @ lit '': a path may be at most '' @ nat_text (pr_max_segments rules) @ lit '' segments deep'')
     else rbind (admit_segments path (split_slash path)) (\<lambda>_. kind_of U rules path))"

text \<open>What the sync client asks before it sends a path.\<close>

record sync_rules =
  sr_text_extensions :: "ustr list"
  sr_asset_extensions :: "ustr list"
  sr_max_files :: nat
  sr_max_path :: nat

definition admission :: "sync_rules \<Rightarrow> path_rules" where
  "admission r = \<lparr>pr_text = sr_text_extensions r, pr_asset = sr_asset_extensions r, pr_derived = [],
    pr_max_path = sr_max_path r, pr_max_segments = MAX_SEGMENTS\<rparr>"

definition sync_kind_of :: "unicode \<Rightarrow> sync_rules \<Rightarrow> ustr \<Rightarrow> path_kind option" where
  "sync_kind_of U r path = (case kind_of U (admission r) path of Inr k \<Rightarrow> Some k | Inl _ \<Rightarrow> None)"

definition sync_check :: "(ustr \<Rightarrow> ustr) \<Rightarrow> unicode \<Rightarrow> sync_rules \<Rightarrow> ustr \<Rightarrow> ustr + path_kind" where
  "sync_check debug U r path =
    (case portable debug path of
       Inl refusal \<Rightarrow> Inl (pf_path refusal @ lit '': '' @ pf_reason refusal)
     | Inr _ \<Rightarrow> admit_path U (admission r) path)"

section \<open>Splitting and joining\<close>

lemma split_slash_nonempty [simp]: "split_char sep t \<noteq> []"
  by (cases t) (auto split: list.splits)

lemma split_slash_append: "split_slash (a @ SLASH # b) = split_slash a @ split_slash b"
  by (induction a) (auto split: list.splits)

lemma split_slash_ends: "root \<noteq> [] \<Longrightarrow> last root = SLASH \<Longrightarrow> split_slash (root @ b) = butlast (split_slash root) @ split_slash b"
proof -
  assume "root \<noteq> []" "last root = SLASH"
  then obtain a where "root = a @ [SLASH]" by (metis append_butlast_last_id)
  then show ?thesis using split_slash_append[of a b] split_slash_append[of a "[]"] by simp
qed

lemma last_split_ends: "root \<noteq> [] \<Longrightarrow> last root = SLASH \<Longrightarrow> last (split_slash root) = []"
proof -
  assume "root \<noteq> []" "last root = SLASH"
  then obtain a where "root = a @ [SLASH]" by (metis append_butlast_last_id)
  then show ?thesis using split_slash_append[of a "[]"] by simp
qed

lemma parts_butlast:
  "last (split_slash t) = [] \<Longrightarrow> concat (map part_component (butlast (split_slash t))) = concat (map part_component (split_slash t))"
  by (subst (2) append_butlast_last_id[symmetric]) (simp_all add: part_component_def)

text \<open>The parts of a root followed by the parts of a path below it.\<close>

lemma split_join_parts:
  assumes "p \<noteq> []" "\<not> starts_with p SLASH"
  shows "concat (map part_component (split_slash (path_join root p))) =
    concat (map part_component (split_slash root)) @ concat (map part_component (split_slash p))"
proof (cases "root = []")
  case True
  with assms show ?thesis by (simp add: path_join_def part_component_def)
next
  case False
  show ?thesis
  proof (cases "last root = SLASH")
    case True
    with False assms have "path_join root p = root @ p" by (simp add: path_join_def)
    then show ?thesis using split_slash_ends[OF False True] parts_butlast[OF last_split_ends[OF False True]] by simp
  next
    case notlast: False
    with False assms have "path_join root p = root @ SLASH # p" by (simp add: path_join_def)
    then show ?thesis by (simp add: split_slash_append)
  qed
qed

lemma hd_split_append: "hd (split_slash (a @ SLASH # b)) = hd (split_slash a)"
  by (simp add: split_slash_append)

lemma join_components:
  assumes "p \<noteq> []" "\<not> starts_with p SLASH" "hd (split_slash p) \<noteq> [DOT]"
  shows "path_components (path_join root p) = path_components root @ path_components p"
proof (cases "root = []")
  case True
  with assms show ?thesis by (simp add: path_join_def path_components_def starts_with_def part_component_def DOT_def)
next
  case False
  then obtain a where pj: "path_join root p = a @ SLASH # p" "root = a \<or> root = a @ [SLASH]"
    using assms(2) by (cases "last root = SLASH") (auto simp: path_join_def, metis append_butlast_last_id)
  have "starts_with (path_join root p) SLASH = starts_with root SLASH"
    "hd (split_slash (path_join root p)) = hd (split_slash root)"
    using pj False by (auto simp: starts_with_def hd_append split_slash_append)
  then show ?thesis using split_join_parts[OF assms(1,2), of root] assms(2,3) by (simp add: path_components_def)
qed

lemma plain_components:
  assumes "\<not> starts_with p SLASH" "list_all (\<lambda>s. s \<noteq> [] \<and> s \<noteq> [DOT] \<and> s \<noteq> [DOT, DOT]) (split_slash p)"
  shows "path_components p = map Normal (split_slash p)"
proof -
  have "hd (split_slash p) \<noteq> [DOT]" using assms(2) by (cases "split_slash p") auto
  moreover have "list_all (\<lambda>s. s \<noteq> [] \<and> s \<noteq> [DOT] \<and> s \<noteq> [DOT, DOT]) ss \<Longrightarrow> concat (map part_component ss) = map Normal ss" for ss
    by (induction ss) (auto simp: part_component_def)
  ultimately show ?thesis using assms by (simp add: path_components_def)
qed

lemma rel_try_from_iff:
  "rel_try_from p = Inr r \<longleftrightarrow> r = RelPath p \<and> p \<noteq> [] \<and> \<not> starts_with p SLASH \<and> BACKSLASH \<notin> set p \<and>
    list_all (\<lambda>c. 0x20 \<le> c \<and> c \<noteq> 0x7F) p \<and> list_all (\<lambda>s. s \<noteq> [] \<and> s \<noteq> [DOT] \<and> s \<noteq> [DOT, DOT]) (split_slash p)"
proof -
  have "list_ex (\<lambda>c. c < 0x20 \<or> c = 0x7F) p \<longleftrightarrow> \<not> list_all (\<lambda>c. 0x20 \<le> c \<and> c \<noteq> 0x7F) p"
    "list_ex (\<lambda>s. s = [] \<or> s = [DOT] \<or> s = [DOT, DOT]) (split_slash p) \<longleftrightarrow>
      \<not> list_all (\<lambda>s. s \<noteq> [] \<and> s \<noteq> [DOT] \<and> s \<noteq> [DOT, DOT]) (split_slash p)"
    unfolding list_ex_iff list_all_iff by (meson not_less)+
  then show ?thesis by (auto simp: rel_try_from_def path_refuse_def)
qed

lemma rel_under:
  assumes "rel_try_from p = Inr r"
  shows "\<exists>t. under r root = Inr t \<and> path_components t = path_components root @ map Normal (split_slash p)"
proof -
  from assms have p: "r = RelPath p" "p \<noteq> []" "\<not> starts_with p SLASH"
    "list_all (\<lambda>s. s \<noteq> [] \<and> s \<noteq> [DOT] \<and> s \<noteq> [DOT, DOT]) (split_slash p)" by (simp_all add: rel_try_from_iff)
  have "hd (split_slash p) \<noteq> [DOT]" using p(4) by (cases "split_slash p") auto
  from join_components[OF p(2,3) this, of root] plain_components[OF p(3,4)]
  have c: "path_components (path_join root p) = path_components root @ map Normal (split_slash p)" by simp
  then show ?thesis using p(1) plain_components[OF p(3,4)] by (simp add: under_def path_starts_with_def list_all_iff)
qed

lemma admit_segments_iff:
  "admit_segments p ss = Inr () \<longleftrightarrow> list_all (\<lambda>s. s \<noteq> [] \<and> hd s \<noteq> DOT) ss"
  by (induction ss) (auto simp: starts_with_def)

section \<open>Property\<close>


definition plain_unicode :: unicode where
  "plain_unicode = \<lparr>uc_nfc = (\<lambda>t. t), uc_lower = map to_ascii_lowercase\<rparr>"

definition sample_rules :: path_rules where
  "sample_rules = \<lparr>pr_text = [lit ''.tex''], pr_asset = [lit ''.png''], pr_derived = [lit ''.pdf''], pr_max_path = 200, pr_max_segments = MAX_SEGMENTS\<rparr>"


end
