(* ===== verification/Source_Change.thy ===== *)
theory Source_Change
  imports Edits Paths "HOL-Library.AList"
begin

text \<open>
  The source-change core, \<open>room/source_change.rs\<close>: one validated, all-or-nothing change to a
  document's files.  \<open>validate_source_change\<close> with its file operations and its overlap check is
  modelled whole, and of \<open>apply_patch_edits\<close> the part that turns a file's patches into the edits
  of its text.  The ordered maps of the tree are association lists with distinct keys; the ordered
  set of changed paths is a sorted list.  What the code calls of the digest, Unicode and debug
  formatting libraries is the record \<open>libs\<close>.
\<close>

section \<open>The change language\<close>

definition MAX_PATCHES :: nat where "MAX_PATCHES = 100"
definition MAX_PATCH_BYTES :: nat where "MAX_PATCH_BYTES = 256 * 1024"
definition MAX_OPERATION_EPOCH :: nat where "MAX_OPERATION_EPOCH = 128"
definition MAX_OPERATION_ID :: nat where "MAX_OPERATION_ID = 128"

record libs =
  lib_unicode :: unicode
  lib_debug :: "ustr \<Rightarrow> ustr"
  lib_digest :: "ustr \<Rightarrow> ustr"

datatype consistency = Exact_Tree | Unchanged_Dependencies

datatype origin = Agent | Sync (provider: ustr)

fun origin_reason :: "origin \<Rightarrow> ustr" where
  "origin_reason Agent = lit ''agent-patch''"
| "origin_reason (Sync p) = (if p = lit ''cli'' then lit ''push'' else p)"

record patch =
  pt_path :: ustr
  pt_file_id :: ustr
  pt_start :: nat
  pt_end :: nat
  pt_exact :: ustr
  pt_replacement :: ustr

record dependency =
  dp_path :: ustr
  dp_file_id :: ustr
  dp_file_hash :: ustr
  dp_start :: nat
  dp_end :: nat
  dp_exact :: ustr

record create_file =
  cf_path :: ustr
  cf_text :: ustr

record delete_file =
  df_path :: ustr
  df_expect :: "ustr option"

record put_binary =
  pb_path :: ustr
  pb_hash :: ustr
  pb_expect :: "ustr option"

record source_file =
  sf_file_id :: ustr
  sf_text :: ustr

record source_tree =
  st_files :: "(ustr \<times> source_file) list"
  st_assets :: "(ustr \<times> ustr) list"
  st_revision :: ustr

record operation_key =
  op_epoch :: ustr
  op_id :: ustr

record source_change =
  sc_operation :: operation_key
  sc_base_tree :: ustr
  sc_consistency :: consistency
  sc_dependencies :: "dependency list"
  sc_patches :: "patch list"
  sc_create :: "create_file list"
  sc_delete :: "delete_file list"
  sc_put_binary :: "put_binary list"

text \<open>The refusals of the validator and of the command; the refusals of the storage have no part here.\<close>

datatype agent_error =
    Agent_Invalid ustr
  | Agent_Conflict ustr
  | Agent_Changed "ustr list"
  | Agent_Suggestion ustr ustr

definition has_file_operations :: "source_change \<Rightarrow> bool" where
  "has_file_operations c \<longleftrightarrow> \<not> (sc_create c = [] \<and> sc_delete c = [] \<and> sc_put_binary c = [])"

definition change_is_empty :: "source_change \<Rightarrow> bool" where
  "change_is_empty c \<longleftrightarrow> sc_patches c = [] \<and> \<not> has_file_operations c"

section \<open>The operation key\<close>

text \<open>\<open>str::parse\<close> of a digit string as an \<open>i64\<close>.\<close>

definition parse_digits :: "ustr \<Rightarrow> int option" where
  "parse_digits t =
    (let n = foldl (\<lambda>n c. 10 * n + int c - 48) 0 t in if t = [] \<or> n \<ge> 2 ^ 63 then None else Some n)"

definition request_key_timestamp :: "ustr \<Rightarrow> int option" where
  "request_key_timestamp key =
    (case split_char DOT key of
       [v, issued, nonce] \<Rightarrow>
         if v \<noteq> lit ''v2'' then None
         else if issued = [] \<or> length issued > 1 \<and> starts_with issued 0x30 \<or> \<not> list_all is_ascii_digit issued then None
         else if str_len8 nonce \<noteq> 32 \<or> \<not> list_all is_lower_hex nonce then None
         else parse_digits issued
     | _ \<Rightarrow> None)"

definition printable_ascii :: "ustr \<Rightarrow> bool" where
  "printable_ascii t \<longleftrightarrow> list_all (\<lambda>c. 0x20 \<le> c \<and> c < 0x7F) t"

definition validate_key :: "operation_key \<Rightarrow> agent_error + unit" where
  "validate_key k =
    (if \<not> (op_epoch k \<noteq> [] \<and> str_len8 (op_epoch k) \<le> MAX_OPERATION_EPOCH \<and> printable_ascii (op_epoch k))
     then Inl (Agent_Invalid (lit ''operation.epoch is missing or malformed: copy operation_epoch verbatim from your most recent document_read response''))
     else if \<not> (request_key_timestamp (op_id k) \<noteq> None \<and> str_len8 (op_id k) \<le> MAX_OPERATION_ID \<and> printable_ascii (op_id k))
     then Inl (Agent_Invalid (lit ''operation.id is malformed: use v2.<current Unix milliseconds>.<32 lowercase hexadecimal characters>, minted once per mutation and reused unchanged on retry''))
     else Inr ())"

section \<open>Ranges and paths\<close>

definition range_matches :: "ustr \<Rightarrow> nat \<Rightarrow> nat \<Rightarrow> ustr \<Rightarrow> bool" where
  "range_matches t from to exact \<longleftrightarrow>
    from \<le> to \<and> to \<le> str_len8 t \<and> is_char_boundary t from \<and> is_char_boundary t to \<and> str_get t from to = Some exact"

definition invalid_path :: "libs \<Rightarrow> ustr \<Rightarrow> agent_error" where
  "invalid_path lb path = Agent_Invalid (lit ''invalid source path: '' @ lib_debug lb path)"

definition validate_path :: "libs \<Rightarrow> ustr \<Rightarrow> agent_error + unit" where
  "validate_path lb path =
    (if path = [] \<or> starts_with path SLASH \<or> BACKSLASH \<in> set path \<or> 0 \<in> set path \<or>
        list_ex (\<lambda>part. part = [] \<or> part = [DOT] \<or> part = [DOT, DOT]) (split_slash path)
     then Inl (invalid_path lb path) else Inr ())"

text \<open>\<open>slice::chunk_by\<close>: maximal runs of neighbours the predicate joins.\<close>

fun chunk_by :: "('a \<Rightarrow> 'a \<Rightarrow> bool) \<Rightarrow> 'a list \<Rightarrow> 'a list list" where
  "chunk_by same [] = []"
| "chunk_by same (x # xs) =
    (case chunk_by same xs of
       [] \<Rightarrow> [[x]]
     | c # cs \<Rightarrow> if same x (hd c) then (x # c) # cs else [x] # c # cs)"

definition reject_overlaps :: "(ustr \<times> nat \<times> nat) list \<Rightarrow> agent_error + unit" where
  "reject_overlaps ranges =
    (if list_all (\<lambda>group. is_ok (check_overlaps (map snd group) AGENT_PATCH))
          (chunk_by (\<lambda>l r. fst l = fst r) (sort_key fst ranges))
     then Inr () else Inl (Agent_Conflict (lit ''patch ranges overlap'')))"

definition require_kind :: "libs \<Rightarrow> path_rules \<Rightarrow> ustr \<Rightarrow> path_kind \<Rightarrow> agent_error + unit" where
  "require_kind lb rules path want =
    (if path_normalise (lib_unicode lb) path \<noteq> path then Inl (invalid_path lb path)
     else (case admit_path (lib_unicode lb) rules path of
             Inr kind \<Rightarrow>
               if kind = want then Inr ()
               else Inl (Agent_Invalid (path @ lit '': this operation does not apply to that kind of file''))
           | Inl why \<Rightarrow> Inl (Agent_Invalid why)))"

section \<open>The file operations\<close>

text \<open>An ordered set as its sorted list.\<close>

definition bset_insert :: "ustr \<Rightarrow> ustr list \<Rightarrow> ustr list" where
  "bset_insert x xs = (if x \<in> set xs then xs else insort x xs)"

abbreviation tree_has :: "source_tree \<Rightarrow> ustr \<Rightarrow> bool" where
  "tree_has tree path \<equiv> map_of (st_files tree) path \<noteq> None \<or> map_of (st_assets tree) path \<noteq> None"

fun check_deletes :: "source_tree \<Rightarrow> ustr set \<Rightarrow> delete_file list \<Rightarrow> ustr list \<Rightarrow> agent_error + ustr list" where
  "check_deletes tree patched [] changed = Inr changed"
| "check_deletes tree patched (f # fs) changed =
    (if df_path f \<in> patched then Inl (Agent_Invalid (lit ''a file cannot be patched and deleted: '' @ df_path f))
     else if map_of (st_files tree) (df_path f) \<noteq> None then check_deletes tree patched fs changed
     else (case map_of (st_assets tree) (df_path f) of
             Some sha \<Rightarrow>
               (case df_expect f of
                  Some expected \<Rightarrow>
                    if expected = sha then check_deletes tree patched fs changed
                    else check_deletes tree patched fs (bset_insert (df_path f) changed)
                | None \<Rightarrow>
                    Inl (Agent_Invalid (lit ''deleting a binary file needs the digest it must still have: '' @ df_path f)))
           | None \<Rightarrow> check_deletes tree patched fs (bset_insert (df_path f) changed)))"

fun check_creates ::
  "libs \<Rightarrow> path_rules \<Rightarrow> source_tree \<Rightarrow> create_file list \<Rightarrow> ustr list \<Rightarrow> ustr list \<Rightarrow> agent_error + ustr list \<times> ustr list" where
  "check_creates lb rules tree [] changed added = Inr (changed, added)"
| "check_creates lb rules tree (f # fs) changed added =
    rbind (require_kind lb rules (cf_path f) Kind_Text) (\<lambda>_.
      if tree_has tree (cf_path f)
      then check_creates lb rules tree fs (bset_insert (cf_path f) changed) added
      else check_creates lb rules tree fs changed (added @ [cf_path f]))"

fun check_puts ::
  "libs \<Rightarrow> path_rules \<Rightarrow> source_tree \<Rightarrow> put_binary list \<Rightarrow> ustr list \<Rightarrow> ustr list \<Rightarrow> agent_error + ustr list \<times> ustr list" where
  "check_puts lb rules tree [] changed added = Inr (changed, added)"
| "check_puts lb rules tree (f # fs) changed added =
    rbind (require_kind lb rules (pb_path f) Kind_Asset) (\<lambda>_.
      if str_len8 (pb_hash f) \<noteq> 64 \<or> \<not> list_all is_lower_hex (pb_hash f)
      then Inl (Agent_Invalid (lit ''the digest of '' @ pb_path f @ lit '' is not 64 lowercase hexadecimal characters''))
      else if map_of (st_files tree) (pb_path f) \<noteq> None
      then check_puts lb rules tree fs (bset_insert (pb_path f) changed) added
      else (case (map_of (st_assets tree) (pb_path f), pb_expect f) of
              (Some current, Some expected) \<Rightarrow>
                if current = expected then check_puts lb rules tree fs changed added
                else check_puts lb rules tree fs (bset_insert (pb_path f) changed) added
            | (Some _, None) \<Rightarrow> check_puts lb rules tree fs (bset_insert (pb_path f) changed) added
            | (None, Some _) \<Rightarrow> check_puts lb rules tree fs (bset_insert (pb_path f) changed) added
            | (None, None) \<Rightarrow> check_puts lb rules tree fs changed (added @ [pb_path f])))"

fun check_collisions :: "libs \<Rightarrow> ustr list \<Rightarrow> ustr list \<Rightarrow> agent_error + unit" where
  "check_collisions lb taken [] = Inr ()"
| "check_collisions lb taken (path # paths) =
    (if collision_key (lib_unicode lb) path \<in> set taken
     then Inl (Agent_Invalid (path @ lit '' collides with another file name''))
     else check_collisions lb (collision_key (lib_unicode lb) path # taken) paths)"

definition kept_names :: "source_tree \<Rightarrow> ustr list \<Rightarrow> ustr list" where
  "kept_names tree deleted = filter (\<lambda>p. p \<notin> set deleted) (map fst (st_files tree) @ map fst (st_assets tree))"

definition files_after :: "source_tree \<Rightarrow> ustr list \<Rightarrow> ustr list \<Rightarrow> nat" where
  "files_after tree deleted added =
    length (st_files tree) + length (st_assets tree) - length (filter (tree_has tree) (remdups deleted)) + length added"

definition validate_file_operations ::
  "libs \<Rightarrow> source_tree \<Rightarrow> source_change \<Rightarrow> path_rules \<Rightarrow> nat \<Rightarrow> ustr list \<Rightarrow> agent_error + ustr list" where
  "validate_file_operations lb tree change rules max_files changed =
    (if \<not> has_file_operations change then Inr changed
     else (let patched = set (map pt_path (sc_patches change));
               deleted = map df_path (sc_delete change) in
       rbind (check_deletes tree patched (sc_delete change) changed) (\<lambda>changed.
       rbind (check_creates lb rules tree (sc_create change) changed []) (\<lambda>(changed, added).
       rbind (check_puts lb rules tree (sc_put_binary change) changed added) (\<lambda>(changed, added).
       rbind (check_collisions lb (map (collision_key (lib_unicode lb)) (kept_names tree deleted)) added) (\<lambda>_.
         if added \<noteq> [] \<and> files_after tree deleted added > max_files
         then Inl (Agent_Invalid (lit ''a document may hold '' @ nat_text max_files @ lit '' files''))
         else Inr changed))))))"

section \<open>The whole validation\<close>

definition check_origin :: "source_change \<Rightarrow> origin \<Rightarrow> agent_error + unit" where
  "check_origin change origin =
    (case origin of
       Agent \<Rightarrow>
         if sc_base_tree change = [] then Inl (Agent_Invalid (lit ''invalid base tree digest''))
         else if change_is_empty change \<or> length (sc_patches change) > MAX_PATCHES \<or>
           length (sc_create change) + length (sc_delete change) + length (sc_put_binary change) > MAX_PATCHES
         then Inl (Agent_Invalid (lit ''patch count is outside the limit''))
         else if sum_list (map (\<lambda>p. usize_add (str_len8 (pt_exact p)) (str_len8 (pt_replacement p))) (sc_patches change)) +
           sum_list (map (\<lambda>f. str_len8 (cf_text f)) (sc_create change)) > MAX_PATCH_BYTES
         then Inl (Agent_Invalid (lit ''patch payload is too large''))
         else Inr ()
     | Sync _ \<Rightarrow>
         if sc_consistency change \<noteq> Unchanged_Dependencies
         then Inl (Agent_Invalid (lit ''a sync change must use unchanged_dependencies''))
         else Inr ())"

fun check_patches ::
  "libs \<Rightarrow> source_tree \<Rightarrow> patch list \<Rightarrow> ustr list \<Rightarrow> (ustr \<times> nat \<times> nat) list
    \<Rightarrow> agent_error + ustr list \<times> (ustr \<times> nat \<times> nat) list" where
  "check_patches lb tree [] changed checked = Inr (changed, checked)"
| "check_patches lb tree (p # ps) changed checked =
    rbind (validate_path lb (pt_path p)) (\<lambda>_.
      case map_of (st_files tree) (pt_path p) of
        None \<Rightarrow> check_patches lb tree ps (bset_insert (pt_path p) changed) checked
      | Some file \<Rightarrow>
          (let moved = (pt_file_id p \<noteq> [] \<and> pt_file_id p \<noteq> sf_file_id file) in
           check_patches lb tree ps
             (if moved \<or> \<not> range_matches (sf_text file) (pt_start p) (pt_end p) (pt_exact p)
              then bset_insert (pt_path p) changed else changed)
             (checked @ [(pt_path p, pt_start p, pt_end p)])))"

fun check_dependencies :: "libs \<Rightarrow> source_tree \<Rightarrow> dependency list \<Rightarrow> ustr list \<Rightarrow> agent_error + ustr list" where
  "check_dependencies lb tree [] changed = Inr changed"
| "check_dependencies lb tree (d # ds) changed =
    rbind (validate_path lb (dp_path d)) (\<lambda>_.
      case map_of (st_files tree) (dp_path d) of
        None \<Rightarrow> check_dependencies lb tree ds (bset_insert (dp_path d) changed)
      | Some file \<Rightarrow>
          (let moved = (dp_file_id d \<noteq> [] \<and> dp_file_id d \<noteq> sf_file_id file);
               rewritten = (dp_file_hash d \<noteq> [] \<and> dp_file_hash d \<noteq> lib_digest lb (sf_text file)) in
           check_dependencies lb tree ds
             (if moved \<or> rewritten \<or> \<not> range_matches (sf_text file) (dp_start d) (dp_end d) (dp_exact d)
              then bset_insert (dp_path d) changed else changed)))"

definition check_read :: "libs \<Rightarrow> source_tree \<Rightarrow> source_change \<Rightarrow> ustr list \<Rightarrow> agent_error + ustr list" where
  "check_read lb tree change changed =
    (if sc_consistency change = Unchanged_Dependencies
     then check_dependencies lb tree (sc_dependencies change) changed else Inr changed)"

definition unhashed_paths :: "source_tree \<Rightarrow> source_change \<Rightarrow> ustr list" where
  "unhashed_paths tree change =
    (let touched = map pt_path (sc_patches change) @
           filter (\<lambda>p. map_of (st_files tree) p \<noteq> None) (map df_path (sc_delete change)) in
     fold (\<lambda>path acc.
       if list_ex (\<lambda>d. dp_path d = path \<and> dp_file_hash d \<noteq> []) (sc_dependencies change) then acc
       else bset_insert path acc) touched [])"

definition check_hashed :: "source_tree \<Rightarrow> source_change \<Rightarrow> origin \<Rightarrow> agent_error + unit" where
  "check_hashed tree change origin =
    (case origin of
       Agent \<Rightarrow> Inr ()
     | Sync _ \<Rightarrow>
         if unhashed_paths tree change \<noteq> []
         then Inl (Agent_Invalid (lit ''a file hash is required for: '' @ join_with (lit '', '') (unhashed_paths tree change)))
         else Inr ())"

definition validate_source_change ::
  "libs \<Rightarrow> source_tree \<Rightarrow> source_change \<Rightarrow> origin \<Rightarrow> path_rules \<Rightarrow> nat \<Rightarrow> agent_error + unit" where
  "validate_source_change lb tree change origin rules max_files =
    rbind (validate_key (sc_operation change)) (\<lambda>_.
    if str_len8 (sc_base_tree change) > 128 then Inl (Agent_Invalid (lit ''invalid base tree digest''))
    else
    rbind (check_origin change origin) (\<lambda>_.
    if sc_consistency change = Exact_Tree \<and> sc_base_tree change \<noteq> st_revision tree
      then Inl (Agent_Conflict (lit ''source tree changed''))
    else
    rbind (check_patches lb tree (sc_patches change) [] []) (\<lambda>(changed, checked).
    rbind (check_read lb tree change changed) (\<lambda>changed.
    rbind (check_hashed tree change origin) (\<lambda>_.
    rbind (validate_file_operations lb tree change rules max_files changed) (\<lambda>changed.
    if changed \<noteq> [] then Inl (Agent_Changed changed) else reject_overlaps checked))))))"

section \<open>A file's patches as edits\<close>

definition patch_unit :: "ustr \<Rightarrow> ustr \<Rightarrow> nat \<Rightarrow> ustr + nat" where
  "patch_unit path txt b =
    (case utf16_of txt (Utf8 b) of
       Inr (Utf16 u) \<Rightarrow> Inr u
     | Inl _ \<Rightarrow> Inl (lit ''patch offset '' @ nat_text b @ lit '' is not on a character boundary in '' @ path))"

definition patch_edit :: "ustr \<Rightarrow> ustr \<Rightarrow> patch \<Rightarrow> ustr + edit" where
  "patch_edit path txt p =
    rbind (patch_unit path txt (pt_start p)) (\<lambda>from.
    rbind (patch_unit path txt (pt_end p)) (\<lambda>to.
      if to < from then Inl (lit ''patch range is inverted in '' @ path)
      else Inr \<lparr>ed_at = from, ed_delete = to - from, ed_insert = normalise_lines (pt_replacement p)\<rparr>))"

fun patch_edits :: "ustr \<Rightarrow> ustr \<Rightarrow> patch list \<Rightarrow> ustr + edit list" where
  "patch_edits path txt [] = Inr []"
| "patch_edits path txt (p # ps) =
    rbind (patch_edit path txt p) (\<lambda>e. rbind (patch_edits path txt ps) (\<lambda>es. Inr (e # es)))"

definition file_edits :: "source_tree \<Rightarrow> patch list \<Rightarrow> ustr \<Rightarrow> ustr + edit list" where
  "file_edits tree patches path =
    (case map_of (st_files tree) path of
       None \<Rightarrow> Inl (lit ''file is absent: '' @ path)
     | Some file \<Rightarrow>
         patch_edits path (sf_text file)
           (sort_key (\<lambda>p. (pt_start p, pt_end p)) (filter (\<lambda>p. pt_path p = path) patches)))"

section \<open>What an accepted change has passed\<close>

lemma bset_insert_nonempty [simp]: "bset_insert x xs \<noteq> []"
  by (auto simp: bset_insert_def)

lemma set_bset_insert [simp]: "set (bset_insert x xs) = insert x (set xs)"
  by (auto simp: bset_insert_def set_insort_key)

lemma check_patches_result:
  assumes "check_patches lb tree ps changed checked = Inr (changed', checked')"
  shows "(changed' = [] \<longrightarrow> changed = [] \<and> (\<forall>p \<in> set ps. \<exists>file. map_of (st_files tree) (pt_path p) = Some file \<and>
      (pt_file_id p = [] \<or> pt_file_id p = sf_file_id file) \<and>
      range_matches (sf_text file) (pt_start p) (pt_end p) (pt_exact p)) \<and>
    checked' = checked @ map (\<lambda>p. (pt_path p, pt_start p, pt_end p)) ps)"
  using assms
proof (induction ps arbitrary: changed checked)
  case (Cons p ps)
  from Cons.prems show ?case
  proof (cases "map_of (st_files tree) (pt_path p)")
    case None
    with Cons.prems have "check_patches lb tree ps (bset_insert (pt_path p) changed) checked = Inr (changed', checked')"
      by (auto simp: rbind_Inr_iff)
    from Cons.IH[OF this] show ?thesis by auto
  next
    case (Some fl)
    let ?bad = "pt_file_id p \<noteq> [] \<and> pt_file_id p \<noteq> sf_file_id fl \<or> \<not> range_matches (sf_text fl) (pt_start p) (pt_end p) (pt_exact p)"
    from Some Cons.prems have "check_patches lb tree ps (if ?bad then bset_insert (pt_path p) changed else changed)
        (checked @ [(pt_path p, pt_start p, pt_end p)]) = Inr (changed', checked')"
      by (auto simp: rbind_Inr_iff Let_def)
    from Cons.IH[OF this] Some show ?thesis by (auto split: if_splits)
  qed
qed auto

lemma check_dependencies_changed:
  "check_dependencies lb tree ds changed = Inr [] \<Longrightarrow> changed = []"
proof (induction ds arbitrary: changed)
  case (Cons a ds)
  from Cons.prems show ?case by (auto simp: rbind_Inr_iff Let_def split: option.splits if_splits dest: Cons.IH)
qed auto

lemma check_deletes_changed:
  "check_deletes tree patched fs changed = Inr [] \<Longrightarrow> changed = []"
proof (induction fs arbitrary: changed)
  case (Cons a fs)
  from Cons.prems show ?case by (auto split: option.splits if_splits dest: Cons.IH)
qed auto

lemma check_deletes_result:
  "check_deletes tree patched fs changed = Inr [] \<Longrightarrow> f \<in> set fs \<Longrightarrow> df_path f \<notin> patched \<and> tree_has tree (df_path f)"
  by (induction fs arbitrary: changed) (auto split: option.splits if_splits dest: check_deletes_changed)

lemma check_creates_result:
  "check_creates lb rules tree fs changed added = Inr ([], added') \<Longrightarrow>
    changed = [] \<and> added' = added @ map cf_path fs \<and>
    (\<forall>f \<in> set fs. require_kind lb rules (cf_path f) Kind_Text = Inr () \<and> \<not> tree_has tree (cf_path f))"
proof (induction fs arbitrary: changed added)
  case (Cons f fs)
  from Cons.prems show ?case
    by (auto simp: rbind_Inr_iff split: if_splits dest!: Cons.IH)
qed simp

text \<open>The binaries a change adds, and those whose bytes it replaces.\<close>

definition new_puts :: "source_tree \<Rightarrow> put_binary list \<Rightarrow> put_binary list" where
  "new_puts tree = filter (\<lambda>f. map_of (st_assets tree) (pb_path f) = None)"

lemma check_puts_result:
  "check_puts lb rules tree fs changed added = Inr ([], added') \<Longrightarrow>
    changed = [] \<and> added' = added @ map pb_path (new_puts tree fs) \<and>
    (\<forall>f \<in> set fs. require_kind lb rules (pb_path f) Kind_Asset = Inr () \<and> map_of (st_files tree) (pb_path f) = None \<and>
      (map_of (st_assets tree) (pb_path f) = pb_expect f) \<and> list_all is_lower_hex (pb_hash f) \<and> str_len8 (pb_hash f) = 64)"
proof (induction fs arbitrary: changed added)
  case (Cons f fs)
  from Cons.prems show ?case
    by (auto simp: rbind_Inr_iff new_puts_def split: if_splits option.splits dest!: Cons.IH)
qed (simp add: new_puts_def)

section \<open>Overlaps per path\<close>

lemma ball_split: "x \<in> S \<Longrightarrow> (\<forall>p \<in> S. Q p) \<longleftrightarrow> Q x \<and> (\<forall>p \<in> S - {x}. Q p)"
  by blast

lemma chunk_by_groups:
  assumes "sorted (map fst xs)" "xs \<noteq> []"
  shows "\<exists>c cs. chunk_by (\<lambda>l r. fst l = fst r) xs = c # cs \<and> c = filter (\<lambda>r. fst r = fst (hd xs)) xs \<and> c \<noteq> [] \<and>
    (list_all P cs \<longleftrightarrow> (\<forall>p \<in> fst ` set xs - {fst (hd xs)}. P (filter (\<lambda>r. fst r = p) xs)))"
  using assms
proof (induction xs)
  case (Cons x xs)
  show ?case
  proof (cases "xs = []")
    case False
    from Cons False obtain c cs where c: "chunk_by (\<lambda>l r. fst l = fst r) xs = c # cs"
      "c = filter (\<lambda>r. fst r = fst (hd xs)) xs" "c \<noteq> []"
      "list_all P cs \<longleftrightarrow> (\<forall>p \<in> fst ` set xs - {fst (hd xs)}. P (filter (\<lambda>r. fst r = p) xs))" by auto
    have hd: "fst (hd c) = fst (hd xs)" using hd_in_set[OF c(3)] unfolding c(2) by simp
    have other: "filter (\<lambda>r. fst r = p) (x # xs) = filter (\<lambda>r. fst r = p) xs" if "p \<noteq> fst x" for p using that by auto
    show ?thesis
    proof (cases "fst x = fst (hd xs)")
      case True
      have "fst ` set (x # xs) - {fst x} = fst ` set xs - {fst (hd xs)}" using True by auto
      moreover have "(\<forall>p \<in> S - {fst x}. P (filter (\<lambda>r. fst r = p) (x # xs))) \<longleftrightarrow> (\<forall>p \<in> S - {fst x}. P (filter (\<lambda>r. fst r = p) xs))" for S
        using other by (metis DiffE singletonI)
      ultimately have "list_all P cs \<longleftrightarrow> (\<forall>p \<in> fst ` set (x # xs) - {fst x}. P (filter (\<lambda>r. fst r = p) (x # xs)))"
        unfolding c(4) by metis
      then show ?thesis using c hd True by simp
    next
      case neq: False
      have less: "fst x < fst y" if "y \<in> set xs" for y
      proof -
        have "fst (hd xs) \<le> fst y" using Cons.prems(1) that False by (cases xs) auto
        moreover have "fst x \<le> fst (hd xs)" using Cons.prems(1) False by (cases xs) auto
        ultimately show ?thesis using neq by simp
      qed
      then have nx: "fst x \<notin> fst ` set xs" by fastforce
      have "filter (\<lambda>r. fst r = fst x) xs = []" unfolding filter_empty_conv using less by (metis less_irrefl)
      then have one: "filter (\<lambda>r. fst r = fst x) (x # xs) = [x]" by simp
      have "fst (hd xs) \<in> fst ` set xs" using False by simp
      then have all: "list_all P (c # cs) \<longleftrightarrow> (\<forall>p \<in> fst ` set xs. P (filter (\<lambda>r. fst r = p) xs))"
        using ball_split[of "fst (hd xs)" "fst ` set xs" "\<lambda>p. P (filter (\<lambda>r. fst r = p) xs)"] c(2,4) by simp
      have "fst ` set (x # xs) - {fst x} = fst ` set xs" using nx by auto
      moreover have "(\<forall>p \<in> fst ` set xs. P (filter (\<lambda>r. fst r = p) (x # xs))) \<longleftrightarrow> (\<forall>p \<in> fst ` set xs. P (filter (\<lambda>r. fst r = p) xs))"
        using other nx by metis
      ultimately have "list_all P (c # cs) \<longleftrightarrow> (\<forall>p \<in> fst ` set (x # xs) - {fst x}. P (filter (\<lambda>r. fst r = p) (x # xs)))"
        using all by metis
      then show ?thesis using c(1) hd neq one by (intro exI[of _ "[x]"] exI[of _ "c # cs"]) simp
    qed
  qed simp
qed simp

lemma reject_overlaps_iff:
  assumes "\<forall>(_, r) \<in> set ranges. proper r"
  shows "reject_overlaps ranges = Inr () \<longleftrightarrow>
    (\<forall>path. sorted_wrt ranges_apart (map snd (filter (\<lambda>r. fst r = path) ranges)))"
proof (cases "ranges = []")
  case True
  then show ?thesis by (simp add: reject_overlaps_def)
next
  case False
  define xs where "xs = sort_key fst ranges"
  let ?P = "\<lambda>group. is_ok (check_overlaps (map snd group) AGENT_PATCH)"
  have xs: "sorted (map fst xs)" "xs \<noteq> []" "set xs = set ranges"
    using False by (simp_all add: xs_def) (metis set_empty set_sort)
  have grp: "filter (\<lambda>r. fst r = p) xs = filter (\<lambda>r. fst r = p) ranges" for p unfolding xs_def by (rule sort_key_stable)
  have all: "list_all ?P (chunk_by (\<lambda>l r. fst l = fst r) xs) \<longleftrightarrow> (\<forall>p \<in> fst ` set ranges. ?P (filter (\<lambda>r. fst r = p) ranges))"
  proof -
    have h: "fst (hd xs) \<in> fst ` set ranges" using xs(2,3) by (metis hd_in_set image_eqI)
    obtain c cs where c: "chunk_by (\<lambda>l r. fst l = fst r) xs = c # cs" "c = filter (\<lambda>r. fst r = fst (hd xs)) ranges"
      "list_all ?P cs \<longleftrightarrow> (\<forall>p \<in> fst ` set ranges - {fst (hd xs)}. ?P (filter (\<lambda>r. fst r = p) ranges))"
      using chunk_by_groups[OF xs(1,2), of ?P] unfolding grp xs(3) by blast
    have "list_all ?P (c # cs) \<longleftrightarrow> ?P c \<and> list_all ?P cs" by simp
    also have "\<dots> \<longleftrightarrow> (\<forall>p \<in> fst ` set ranges. ?P (filter (\<lambda>r. fst r = p) ranges))"
      unfolding c(3) unfolding c(2) by (rule ball_split[OF h, symmetric])
    finally show ?thesis unfolding c(1) .
  qed
  have ap: "?P (filter (\<lambda>r. fst r = p) ranges) \<longleftrightarrow> sorted_wrt ranges_apart (map snd (filter (\<lambda>r. fst r = p) ranges))" for p
    by (rule check_agent_apart) (use assms in auto)
  have "filter (\<lambda>r. fst r = p) ranges = []" if "p \<notin> fst ` set ranges" for p using that by (force simp: filter_empty_conv)
  then have "sorted_wrt ranges_apart (map snd (filter (\<lambda>r. fst r = p) ranges))" if "p \<notin> fst ` set ranges" for p using that by simp
  then have "(\<forall>p \<in> fst ` set ranges. sorted_wrt ranges_apart (map snd (filter (\<lambda>r. fst r = p) ranges))) \<longleftrightarrow>
      (\<forall>p. sorted_wrt ranges_apart (map snd (filter (\<lambda>r. fst r = p) ranges)))" by blast
  then show ?thesis unfolding reject_overlaps_def xs_def[symmetric] all ap by simp
qed

section \<open>Patches in code points\<close>

text \<open>A patch read in the characters of the file it was captured from.\<close>

definition patch_at :: "ustr \<Rightarrow> patch \<Rightarrow> edit_in \<Rightarrow> bool" where
  "patch_at s p c \<longleftrightarrow> (case c of (i, j, ins) \<Rightarrow> i \<le> j \<and> j \<le> length s \<and> pt_start p = str_len8 (take i s) \<and>
    pt_end p = str_len8 (take j s) \<and> take (j - i) (drop i s) = pt_exact p \<and> ins = normalise_lines (pt_replacement p))"

lemma range_matches_at:
  assumes "range_matches s (pt_start p) (pt_end p) (pt_exact p)"
  shows "\<exists>c. patch_at s p c"
proof -
  from assms obtain i j where ij: "boundary s (pt_start p) = Some i" "boundary s (pt_end p) = Some j"
    and le: "pt_start p \<le> pt_end p" and get: "str_get s (pt_start p) (pt_end p) = Some (pt_exact p)"
    by (auto simp: range_matches_def is_char_boundary_def)
  then have b: "i \<le> length s" "j \<le> length s" "pt_start p = str_len8 (take i s)" "pt_end p = str_len8 (take j s)"
    by (simp_all add: boundary_iff)
  then have "i \<le> j" using le len8_take_le_iff[of i s j] by simp
  with b get le ij show ?thesis
    by (intro exI[of _ "(i, j, normalise_lines (pt_replacement p))"]) (simp add: patch_at_def str_get_def)
qed

lemma patch_edit_at:
  assumes "patch_at s p c"
  shows "\<exists>e. patch_edit path s p = Inr e \<and> edit_at s e c"
proof -
  obtain i j ins where c: "c = (i, j, ins)" by (metis prod_cases3)
  with assms have p: "i \<le> j" "j \<le> length s" "pt_start p = str_len8 (take i s)" "pt_end p = str_len8 (take j s)"
    "ins = normalise_lines (pt_replacement p)" by (simp_all add: patch_at_def)
  have u: "patch_unit path s (str_len8 (take k s)) = Inr (str_len16 (take k s))" if "k \<le> length s" for k
    using that by (simp add: patch_unit_def len_of_utf16_def)
  have "str_len16 (take i s) \<le> str_len16 (take j s)" using p(1) by (rule str_len16_take_mono)
  with p c show ?thesis by (simp add: patch_edit_def u edit_at_def)
qed

lemma patch_edits_at:
  assumes "list_all2 (patch_at s) ps cs"
  shows "\<exists>es. patch_edits path s ps = Inr es \<and> edits_at s es cs"
  using assms
proof (induction ps cs rule: list_all2_induct)
  case (Cons p ps c cs)
  from patch_edit_at[OF Cons(1), of path] Cons.IH show ?case by (auto simp: edits_at_def)
qed (simp add: edits_at_def)

lemma map_sort_key_eq: "map f (sort_key f xs) = sort (map f xs)"
  by (rule properties_for_sort[symmetric]) simp_all

lemma before_ranges_ok:
  assumes "list_all2 (patch_at s) ps cs" "sorted_wrt before_range (map (\<lambda>p. (pt_start p, pt_end p)) ps)"
    and "t0 \<le> length s" "\<And>p. p \<in> set ps \<Longrightarrow> str_len8 (take t0 s) \<le> pt_start p"
  shows "edits_ok t0 (length s) cs"
  using assms
proof (induction ps cs arbitrary: t0 rule: list_all2_induct)
  case (Cons p ps c cs)
  obtain i j ins where c: "c = (i, j, ins)" by (metis prod_cases3)
  with Cons(1) have p: "i \<le> j" "j \<le> length s" "pt_start p = str_len8 (take i s)" "pt_end p = str_len8 (take j s)"
    by (simp_all add: patch_at_def)
  have "t0 \<le> i" using Cons.prems(3)[of p] Cons.prems(2) p len8_take_le_iff[of t0 s i] by simp
  moreover have "edits_ok j (length s) cs"
    by (rule Cons.IH) (use Cons.prems(1) p in \<open>auto simp: before_range_def\<close>)
  ultimately show ?case using c p by simp
qed simp

section \<open>Names after a change\<close>

definition tree_names :: "source_tree \<Rightarrow> ustr list" where
  "tree_names tree = map fst (st_files tree) @ map fst (st_assets tree)"

definition names_after :: "source_tree \<Rightarrow> source_change \<Rightarrow> ustr list" where
  "names_after tree change = kept_names tree (map df_path (sc_delete change)) @ map cf_path (sc_create change) @
    map pb_path (new_puts tree (sc_put_binary change))"

lemma check_collisions_distinct:
  assumes "check_collisions lb taken added = Inr ()" "distinct taken"
  shows "distinct (taken @ map (collision_key (lib_unicode lb)) added)"
  using assms
proof (induction added arbitrary: taken)
  case (Cons p ps)
  from Cons.IH[of "collision_key (lib_unicode lb) p # taken"] Cons.prems show ?case by (auto split: if_splits)
qed simp

lemma length_kept_names:
  assumes "distinct (tree_names tree)" "set deleted \<subseteq> set (tree_names tree)"
  shows "length (kept_names tree deleted) + length (filter (tree_has tree) (remdups deleted)) = length (st_files tree) + length (st_assets tree)"
proof -
  have has: "tree_has tree p \<longleftrightarrow> p \<in> set (tree_names tree)" for p
    by (simp add: tree_names_def map_of_eq_None_iff image_image)
  have "length (filter (\<lambda>p. p \<notin> set deleted) (tree_names tree)) + length (filter (\<lambda>p. p \<in> set deleted) (tree_names tree)) = length (tree_names tree)"
    using sum_length_filter_compl[of "\<lambda>p. p \<notin> set deleted" "tree_names tree"] by simp
  moreover have "length (filter (\<lambda>p. p \<in> set deleted) (tree_names tree)) = card (set deleted)"
  proof -
    have "set (filter (\<lambda>p. p \<in> set deleted) (tree_names tree)) = set deleted" using assms(2) by auto
    then show ?thesis using assms(1) by (metis distinct_card distinct_filter)
  qed
  moreover have "length (filter (tree_has tree) (remdups deleted)) = card (set deleted)"
  proof -
    have "filter (tree_has tree) (remdups deleted) = remdups deleted" using assms(2) has by (intro filter_True) auto
    then show ?thesis by (simp add: length_remdups_card_conv)
  qed
  ultimately show ?thesis by (simp add: kept_names_def tree_names_def)
qed

section \<open>The parts of an accepted change\<close>

lemma file_operations_result:
  assumes "validate_file_operations lb tree change rules max_files changed = Inr []"
  shows "changed = [] \<and> (has_file_operations change \<longrightarrow>
    (\<forall>f \<in> set (sc_delete change). df_path f \<notin> pt_path ` set (sc_patches change) \<and> tree_has tree (df_path f)) \<and>
    (\<forall>f \<in> set (sc_create change). require_kind lb rules (cf_path f) Kind_Text = Inr () \<and> \<not> tree_has tree (cf_path f)) \<and>
    (\<forall>f \<in> set (sc_put_binary change). require_kind lb rules (pb_path f) Kind_Asset = Inr () \<and>
      map_of (st_files tree) (pb_path f) = None \<and> map_of (st_assets tree) (pb_path f) = pb_expect f) \<and>
    (let deleted = map df_path (sc_delete change);
         added = map cf_path (sc_create change) @ map pb_path (new_puts tree (sc_put_binary change)) in
     check_collisions lb (map (collision_key (lib_unicode lb)) (kept_names tree deleted)) added = Inr () \<and>
     (added \<noteq> [] \<longrightarrow> files_after tree deleted added \<le> max_files)))"
proof (cases "has_file_operations change")
  case True
  with assms obtain ch1 ch2 ad2 ad3 where
    d: "check_deletes tree (set (map pt_path (sc_patches change))) (sc_delete change) changed = Inr ch1"
    and c: "check_creates lb rules tree (sc_create change) ch1 [] = Inr (ch2, ad2)"
    and p: "check_puts lb rules tree (sc_put_binary change) ch2 ad2 = Inr ([], ad3)"
    and k: "check_collisions lb (map (collision_key (lib_unicode lb)) (kept_names tree (map df_path (sc_delete change)))) ad3 = Inr ()"
    and m: "\<not> (ad3 \<noteq> [] \<and> files_after tree (map df_path (sc_delete change)) ad3 > max_files)"
    by (auto simp: validate_file_operations_def Let_def rbind_Inr_iff split: if_splits prod.splits)
  from check_puts_result[OF p] have ch2: "ch2 = []" and ad3: "ad3 = ad2 @ map pb_path (new_puts tree (sc_put_binary change))" by simp_all
  from check_creates_result[OF c[unfolded ch2]] have ch1: "ch1 = []" and ad2: "ad2 = map cf_path (sc_create change)" by simp_all
  have "changed = []" using check_deletes_changed[OF d[unfolded ch1]] .
  moreover have "\<forall>f \<in> set (sc_delete change). df_path f \<notin> pt_path ` set (sc_patches change) \<and> tree_has tree (df_path f)"
    using check_deletes_result[OF d[unfolded ch1]] by simp
  moreover note check_creates_result[OF c[unfolded ch2]] check_puts_result[OF p]
  ultimately show ?thesis using k m unfolding ad3 ad2 Let_def by auto
qed (use assms in \<open>simp add: validate_file_operations_def\<close>)

lemma validated_parts:
  assumes "validate_source_change lb tree change origin rules max_files = Inr ()"
  obtains checked where "check_patches lb tree (sc_patches change) [] [] = Inr ([], checked)" "reject_overlaps checked = Inr ()"
    "validate_file_operations lb tree change rules max_files [] = Inr []"
proof -
  from assms obtain ch1 checked ch2 where
    p: "check_patches lb tree (sc_patches change) [] [] = Inr (ch1, checked)"
    and d: "check_read lb tree change ch1 = Inr ch2"
    and f: "validate_file_operations lb tree change rules max_files ch2 = Inr []" and r: "reject_overlaps checked = Inr ()"
    by (auto simp: validate_source_change_def rbind_Inr_iff split: if_splits prod.splits)
  from file_operations_result[OF f] have ch2: "ch2 = []" by simp
  with d have "ch1 = []" by (auto simp: check_read_def split: if_splits dest: check_dependencies_changed)
  with p f r ch2 that show thesis by simp
qed

lemma validated_patch_at:
  assumes "validate_source_change lb tree change origin rules max_files = Inr ()" "p \<in> set (sc_patches change)"
  shows "\<exists>fl c. map_of (st_files tree) (pt_path p) = Some fl \<and> patch_at (sf_text fl) p c"
proof -
  obtain checked where "check_patches lb tree (sc_patches change) [] [] = Inr ([], checked)"
    using validated_parts[OF assms(1)] by blast
  from check_patches_result[OF this] assms(2) range_matches_at show ?thesis by blast
qed

lemma validated_apart:
  assumes "validate_source_change lb tree change origin rules max_files = Inr ()"
  shows "sorted_wrt before_range (map (\<lambda>p. (pt_start p, pt_end p))
    (sort_key (\<lambda>p. (pt_start p, pt_end p)) (filter (\<lambda>p. pt_path p = path) (sc_patches change))))"
proof -
  let ?r = "\<lambda>p. (pt_start p, pt_end p)"
  let ?ps = "filter (\<lambda>p. pt_path p = path) (sc_patches change)"
  obtain checked where c: "check_patches lb tree (sc_patches change) [] [] = Inr ([], checked)" "reject_overlaps checked = Inr ()"
    using validated_parts[OF assms] by blast
  then have ch: "checked = map (\<lambda>p. (pt_path p, ?r p)) (sc_patches change)" using check_patches_result by force
  have pr: "proper (?r p)" if "p \<in> set (sc_patches change)" for p
    using check_patches_result[OF c(1)] that by (auto simp: range_matches_def proper_def)
  have "sorted_wrt ranges_apart (map snd (filter (\<lambda>r. fst r = path) checked))"
    using reject_overlaps_iff[of checked] c(2) pr by (auto simp: ch)
  then have a: "sorted_wrt ranges_apart (map ?r ?ps)" by (simp add: ch filter_map comp_def)
  have "sorted_wrt ranges_apart (sort (map ?r ?ps))" by (rule sorted_wrt_perm[OF symp_ranges_apart _ a]) simp
  then have "sorted_wrt before_range (sort (map ?r ?ps))" using sorted_apart[of "sort (map ?r ?ps)"] pr by fastforce
  then show ?thesis by (simp add: map_sort_key_eq)
qed

section \<open>Properties\<close>

text \<open>Patches that pass the validation land.  For every file an accepted change patches, the
  byte ranges convert to edits the shared text takes, and the file then reads as the captured one
  with each range, which still held exactly the text the caller saw there, replaced by its
  replacement with line feeds.\<close>

theorem validated_patches_land:
  assumes "validate_source_change lb tree change origin rules max_files = Inr ()"
    and "map_of (st_files tree) path = Some fl"
    and "text_laws T" "text_string T x = sf_text fl" "str_len16 (sf_text fl) < usize_max"
  shows "\<exists>edits x' cs. file_edits tree (sc_patches change) path = Inr edits \<and> apply_text_edits T edits x = (x', True) \<and>
    list_all2 (patch_at (sf_text fl)) (sort_key (\<lambda>p. (pt_start p, pt_end p)) (filter (\<lambda>p. pt_path p = path) (sc_patches change))) cs \<and>
    edits_ok 0 (length (sf_text fl)) cs \<and> text_string T x' = edited (sf_text fl) cs"
proof -
  let ?ps = "sort_key (\<lambda>p. (pt_start p, pt_end p)) (filter (\<lambda>p. pt_path p = path) (sc_patches change))"
  have "\<forall>p \<in> set ?ps. \<exists>c. patch_at (sf_text fl) p c"
    using validated_patch_at[OF assms(1)] assms(2) by fastforce
  then obtain f where "\<forall>p \<in> set ?ps. patch_at (sf_text fl) p (f p)" by metis
  then have cs: "list_all2 (patch_at (sf_text fl)) ?ps (map f ?ps)"
    by (simp add: list_all2_map2 list_all2_same)
  have ok: "edits_ok 0 (length (sf_text fl)) (map f ?ps)"
    by (rule before_ranges_ok[OF cs validated_apart[OF assms(1)]]) simp_all
  from patch_edits_at[OF cs] obtain es where es: "patch_edits path (sf_text fl) ?ps = Inr es" "edits_at (sf_text fl) es (map f ?ps)" by blast
  obtain x' b where r: "apply_text_edits T es x = (x', b)" by fastforce
  from apply_edits_result[OF assms(3,4,5) es(2) r] ok have "b" "text_string T x' = edited (sf_text fl) (map f ?ps)" by simp_all
  moreover have "file_edits tree (sc_patches change) path = Inr es" using es(1) assms(2) by (simp add: file_edits_def)
  ultimately show ?thesis using r cs ok by auto
qed

definition sample_libs :: libs where
  "sample_libs = \<lparr>lib_unicode = plain_unicode, lib_debug = (\<lambda>t. t), lib_digest = (\<lambda>t. t)\<rparr>"

definition sample_tree :: source_tree where
  "sample_tree = \<lparr>st_files = [(lit ''a.tex'', \<lparr>sf_file_id = lit ''f'', sf_text = [0x61, 0xE9, 0x62]\<rparr>), (lit ''b.tex'', \<lparr>sf_file_id = lit ''g'', sf_text = []\<rparr>)],
    st_assets = [], st_revision = lit ''r''\<rparr>"

definition sample_change :: source_change where
  "sample_change = \<lparr>sc_operation = \<lparr>op_epoch = lit ''e'', op_id = lit ''v2.17.'' @ replicate 32 0x61\<rparr>, sc_base_tree = lit ''r'',
    sc_consistency = Exact_Tree, sc_dependencies = [],
    sc_patches = [\<lparr>pt_path = lit ''a.tex'', pt_file_id = [], pt_start = 1, pt_end = 3, pt_exact = [0xE9], pt_replacement = [0x0D]\<rparr>],
    sc_create = [\<lparr>cf_path = lit ''c.tex'', cf_text = []\<rparr>], sc_delete = [\<lparr>df_path = lit ''b.tex'', df_expect = None\<rparr>], sc_put_binary = []\<rparr>"

lemma sample_validated: "validate_source_change sample_libs sample_tree sample_change Agent sample_rules 2 = Inr ()"
proof -
  have key: "validate_key (sc_operation sample_change) = Inr ()"
    by (simp add: validate_key_def sample_change_def request_key_timestamp_def parse_digits_def DOT_def starts_with_def is_ascii_digit_def
        is_lower_hex_def printable_ascii_def MAX_OPERATION_EPOCH_def MAX_OPERATION_ID_def len_utf8_def numeral_eq_Suc)
  have origin: "check_origin sample_change Agent = Inr ()"
    by (simp add: check_origin_def sample_change_def change_is_empty_def has_file_operations_def MAX_PATCHES_def MAX_PATCH_BYTES_def
        usize_add_def usize_max_def len_utf8_def)
  have p: "check_patches sample_libs sample_tree (sc_patches sample_change) [] [] = Inr ([], [(lit ''a.tex'', 1, 3)])"
    by (simp add: sample_change_def sample_tree_def validate_path_def starts_with_def SLASH_def BACKSLASH_def DOT_def range_matches_def
        is_char_boundary_def str_get_def len_utf8_def)
  have k: "require_kind sample_libs sample_rules (lit ''c.tex'') Kind_Text = Inr ()"
    by (simp add: require_kind_def sample_libs_def path_normalise_def nfc_def plain_unicode_def trim_def is_whitespace_def admit_path_def
        sample_rules_def kind_of_def starts_with_def SLASH_def BACKSLASH_def DOT_def MAX_SEGMENTS_def len_utf8_def to_ascii_lowercase_def suffix_def)
  have f: "validate_file_operations sample_libs sample_tree sample_change sample_rules 2 [] = Inr []"
    using k by (simp add: validate_file_operations_def has_file_operations_def sample_change_def sample_tree_def kept_names_def
        collision_key_def path_normalise_def nfc_def sample_libs_def plain_unicode_def trim_def is_whitespace_def to_ascii_lowercase_def files_after_def)
  have o: "reject_overlaps [(lit ''a.tex'', 1, 3)] = Inr ()"
    by (simp add: reject_overlaps_def check_overlaps_def AGENT_PATCH_def)
  show ?thesis unfolding validate_source_change_def key origin p
    using f o by (simp add: check_read_def check_hashed_def sample_change_def sample_tree_def len_utf8_def)
qed

theorem validated_patches_land_witness:
  "\<exists>edits. file_edits sample_tree (sc_patches sample_change) (lit ''a.tex'') = Inr edits \<and>
    apply_text_edits plain_text edits [0x61, 0xE9, 0x62] = ([0x61, 0x0A, 0x62], True)"
proof -
  let ?fl = "\<lparr>sf_file_id = lit ''f'', sf_text = [0x61, 0xE9, 0x62]\<rparr>"
  have fl: "map_of (st_files sample_tree) (lit ''a.tex'') = Some ?fl" by (simp add: sample_tree_def)
  have len: "str_len16 (sf_text ?fl) < usize_max" by (simp add: len_utf16_def usize_max_def)
  have str: "text_string plain_text x = x" for x by (simp add: plain_text_def)
  have ps: "sort_key (\<lambda>p. (pt_start p, pt_end p)) (filter (\<lambda>p. pt_path p = lit ''a.tex'') (sc_patches sample_change)) = sc_patches sample_change"
    by (simp add: sample_change_def)
  from validated_patches_land[OF sample_validated fl plain.text_laws_axioms str[of "sf_text ?fl"] len] str
  obtain edits x' cs where e: "file_edits sample_tree (sc_patches sample_change) (lit ''a.tex'') = Inr edits"
    "apply_text_edits plain_text edits (sf_text ?fl) = (x', True)"
    "list_all2 (patch_at (sf_text ?fl)) (sc_patches sample_change) cs" "x' = edited (sf_text ?fl) cs" unfolding ps by auto
  define s :: ustr where "s = [0x61, 0xE9, 0x62]"
  obtain p where p: "sc_patches sample_change = [p]" "pt_start p = 1" "pt_end p = 3" "pt_replacement p = [0x0D]"
    by (simp add: sample_change_def)
  from e(3) obtain c where c: "cs = [c]" "patch_at s p c" unfolding p(1) s_def by (auto simp: list_all2_Cons1)
  obtain i j ins where ij: "c = (i, j, ins)" by (metis prod_cases3)
  then have at: "i \<le> length s" "j \<le> length s" "str_len8 (take i s) = 1" "str_len8 (take j s) = 3" "ins = normalise_lines [0x0D]"
    using c(2) p by (simp_all add: patch_at_def)
  have "i = 1" by (rule str_len8_take_inj[of i s 1]) (use at in \<open>simp_all add: s_def len_utf8_def\<close>)
  moreover have "j = 2" by (rule str_len8_take_inj[of j s 2]) (use at in \<open>simp_all add: s_def len_utf8_def\<close>)
  ultimately show ?thesis using e(1,2,4) c(1) ij at(5) by (simp add: edited_def normalise_lines_def CR_def LF_def)
qed



end
