(* ===== verification/Sync_Diff.thy ===== *)
theory Sync_Diff
  imports Source_Change
begin

text \<open>
  The sync client's patches, \<open>sync/diff.rs\<close>: one byte-range patch for each run of changed lines,
  cut down to the characters that differ.  The line diff itself is a library's, so it is an
  argument; what its documentation promises is \<open>diff_ok\<close>.  An indexed or sliced access that
  would panic is \<open>None\<close>.  The theorem sends the patches through the server's side of the change
  and gets the client's text.
\<close>

section \<open>Definitions\<close>

datatype diff_tag = Diff_Equal | Diff_Delete | Diff_Insert | Diff_Replace

type_synonym line_range = "nat \<times> nat"

record text_diff =
  td_old :: "ustr list"
  td_new :: "ustr list"
  td_ops :: "(diff_tag \<times> line_range \<times> line_range) list"

definition offsets :: "nat list \<Rightarrow> nat list" where
  "offsets lengths = foldl (\<lambda>pos len. pos @ [last pos + len]) [0] lengths"

text \<open>The runs of operations that are not equal, and whether the last one touches.\<close>

definition run_step ::
  "(line_range \<times> line_range) list \<times> bool \<Rightarrow> diff_tag \<times> line_range \<times> line_range \<Rightarrow> (line_range \<times> line_range) list \<times> bool" where
  "run_step st op =
    (case st of (runs, joins) \<Rightarrow>
     (case op of (tag, old, new) \<Rightarrow>
      if tag = Diff_Equal then (runs, False)
      else if runs \<noteq> [] \<and> joins
        then (butlast runs @ [((fst (fst (last runs)), snd old), (fst (snd (last runs)), snd new))], True)
      else (runs @ [(old, new)], True)))"

definition diff_runs :: "text_diff \<Rightarrow> (line_range \<times> line_range) list" where
  "diff_runs d = fst (foldl run_step ([], False) (td_ops d))"

definition common_chars :: "ustr \<Rightarrow> ustr \<Rightarrow> nat" where
  "common_chars a b = sum_list (map (\<lambda>(x, _). len_utf8 x) (takeWhile (\<lambda>(x, y). x = y) (zip a b)))"

definition common_edges :: "ustr \<Rightarrow> ustr \<Rightarrow> (nat \<times> nat) option" where
  "common_edges a b =
    (let head = common_chars a b in
     case (str_get a head (str_len8 a), str_get b head (str_len8 b)) of
       (Some a', Some b') \<Rightarrow> Some (head, common_chars (rev a') (rev b'))
     | _ \<Rightarrow> None)"

definition nth_opt :: "'a list \<Rightarrow> nat \<Rightarrow> 'a option" where
  "nth_opt xs i = (if i < length xs then Some (xs ! i) else None)"

definition run_patch ::
  "ustr \<Rightarrow> ustr \<Rightarrow> ustr \<Rightarrow> nat list \<Rightarrow> nat list \<Rightarrow> line_range \<times> line_range \<Rightarrow> patch option option" where
  "run_patch path before after old_at new_at r =
    (case r of (old, new) \<Rightarrow>
     (case (nth_opt old_at (fst old), nth_opt old_at (snd old), nth_opt new_at (fst new), nth_opt new_at (snd new)) of
        (Some from, Some to, Some nfrom, Some nto) \<Rightarrow>
          (case (str_get before from to, str_get after nfrom nto) of
             (Some was, Some now) \<Rightarrow>
               (case common_edges was now of
                  None \<Rightarrow> None
                | Some (head, tail) \<Rightarrow>
                    (case (str_get was head (str_len8 was - tail), str_get now head (str_len8 now - tail)) of
                       (Some exact, Some repl) \<Rightarrow>
                         Some (if exact \<noteq> repl
                           then Some \<lparr>pt_path = path, pt_file_id = [], pt_start = from + head, pt_end = to - tail,
                             pt_exact = exact, pt_replacement = repl\<rparr>
                           else None)
                     | _ \<Rightarrow> None))
           | _ \<Rightarrow> None)
      | _ \<Rightarrow> None))"

fun run_patches ::
  "ustr \<Rightarrow> ustr \<Rightarrow> ustr \<Rightarrow> nat list \<Rightarrow> nat list \<Rightarrow> (line_range \<times> line_range) list \<Rightarrow> patch list option" where
  "run_patches path before after old_at new_at [] = Some []"
| "run_patches path before after old_at new_at (r # rs) =
    (case (run_patch path before after old_at new_at r, run_patches path before after old_at new_at rs) of
       (Some None, Some ps) \<Rightarrow> Some ps
     | (Some (Some p), Some ps) \<Rightarrow> Some (p # ps)
     | _ \<Rightarrow> None)"

definition patches :: "(ustr \<Rightarrow> ustr \<Rightarrow> text_diff) \<Rightarrow> ustr \<Rightarrow> ustr \<Rightarrow> ustr \<Rightarrow> patch list option" where
  "patches from_lines path before after =
    (if before = after then Some []
     else (let diff = from_lines before after;
               old_at = offsets (map str_len8 (td_old diff));
               new_at = offsets (map str_len8 (td_new diff)) in
       run_patches path before after old_at new_at (diff_runs diff)))"

section \<open>What a line diff promises\<close>

definition lines_between :: "ustr list \<Rightarrow> nat \<Rightarrow> nat \<Rightarrow> ustr list" where
  "lines_between ls a b = take (b - a) (drop a ls)"

fun tiles :: "ustr list \<Rightarrow> ustr list \<Rightarrow> nat \<Rightarrow> nat \<Rightarrow> (diff_tag \<times> line_range \<times> line_range) list \<Rightarrow> bool" where
  "tiles old new k l [] \<longleftrightarrow> k = length old \<and> l = length new"
| "tiles old new k l ((tag, (a, b), (c, d)) # ops) \<longleftrightarrow>
    a = k \<and> c = l \<and> a \<le> b \<and> b \<le> length old \<and> c \<le> d \<and> d \<le> length new \<and>
    (tag = Diff_Equal \<longrightarrow> a < b \<and> lines_between old a b = lines_between new c d) \<and> tiles old new b d ops"

definition diff_ok :: "text_diff \<Rightarrow> ustr \<Rightarrow> ustr \<Rightarrow> bool" where
  "diff_ok d before after \<longleftrightarrow> concat (td_old d) = before \<and> concat (td_new d) = after \<and>
    [] \<notin> set (td_old d) \<and> tiles (td_old d) (td_new d) 0 0 (td_ops d)"

section \<open>The runs\<close>

text \<open>Runs in order, with equal lines between them.\<close>

fun chained :: "ustr list \<Rightarrow> ustr list \<Rightarrow> nat \<Rightarrow> nat \<Rightarrow> (line_range \<times> line_range) list \<Rightarrow> bool" where
  "chained old new k l [] \<longleftrightarrow> True"
| "chained old new k l (((a, b), (c, d)) # rs) \<longleftrightarrow>
    k \<le> a \<and> a \<le> b \<and> b \<le> length old \<and> l \<le> c \<and> c \<le> d \<and> d \<le> length new \<and>
    lines_between old k a = lines_between new l c \<and> chained old new b d rs"

fun run_end :: "nat \<times> nat \<Rightarrow> (line_range \<times> line_range) list \<Rightarrow> nat \<times> nat" where
  "run_end e [] = e"
| "run_end e (((a, b), (c, d)) # rs) = run_end (b, d) rs"

lemma run_end_snoc [simp]: "run_end e (rs @ [((a, b), (c, d))]) = (b, d)"
  by (induction e rs rule: run_end.induct) auto

lemma chained_snoc:
  "chained old new k l (rs @ [((a, b), (c, d))]) \<longleftrightarrow> chained old new k l rs \<and>
    (case run_end (k, l) rs of (k', l') \<Rightarrow> k' \<le> a \<and> a \<le> b \<and> b \<le> length old \<and> l' \<le> c \<and> c \<le> d \<and> d \<le> length new \<and>
      lines_between old k' a = lines_between new l' c)"
proof (induction rs arbitrary: k l)
  case (Cons r rs)
  then show ?case by (cases r; cases "fst r"; cases "snd r") auto
qed simp

lemma lines_between_self [simp]: "lines_between ls a a = []"
  by (simp add: lines_between_def)

lemma lines_between_append: "a \<le> b \<Longrightarrow> b \<le> c \<Longrightarrow> lines_between ls a c = lines_between ls a b @ lines_between ls b c"
proof -
  assume "a \<le> b" "b \<le> c"
  then obtain i j where "b = a + i" "c = a + i + j" by (metis le_Suc_ex)
  then show ?thesis by (simp add: lines_between_def take_add add.commute[of i a])
qed

definition apart_runs :: "(line_range \<times> line_range) list \<Rightarrow> bool" where
  "apart_runs rs \<longleftrightarrow> successively (\<lambda>r r'. snd (fst r) < fst (fst r')) rs"

definition run_inv :: "ustr list \<Rightarrow> ustr list \<Rightarrow> nat \<Rightarrow> nat \<Rightarrow> (line_range \<times> line_range) list \<times> bool \<Rightarrow> bool" where
  "run_inv old new k l st \<longleftrightarrow> (case st of (runs, joins) \<Rightarrow> chained old new 0 0 runs \<and> apart_runs runs \<and>
    (case run_end (0, 0) runs of (k', l') \<Rightarrow> k' \<le> k \<and> l' \<le> l \<and> lines_between old k' k = lines_between new l' l \<and>
      (joins \<longrightarrow> runs \<noteq> [] \<and> k' = k \<and> l' = l) \<and> (\<not> joins \<and> runs \<noteq> [] \<longrightarrow> k' < k)))"

lemma run_step_inv:
  assumes "run_inv old new k l st" "tiles old new k l ((tag, (a, b), (c, d)) # ops)"
  shows "run_inv old new b d (run_step st (tag, (a, b), (c, d)))"
proof -
  obtain runs joins where st: "st = (runs, joins)" by fastforce
  obtain k' l' where e: "run_end (0, 0) runs = (k', l')" by fastforce
  note i = assms(1)[unfolded run_inv_def st prod.case e]
  note t = assms(2)[unfolded tiles.simps]
  show ?thesis
  proof (cases "tag = Diff_Equal")
    case True
    have "lines_between old k' b = lines_between new l' d"
      using i t True lines_between_append[of k' k b old] lines_between_append[of l' l d new] by auto
    with True i t e st show ?thesis by (auto simp: run_inv_def run_step_def)
  next
    case neq: False
    show ?thesis
    proof (cases "runs \<noteq> [] \<and> joins")
      case True
      then obtain rs r where r: "runs = rs @ [r]" by (metis append_butlast_last_id)
      obtain a0 b0 c0 d0 where r': "r = ((a0, b0), (c0, d0))" by (metis surj_pair)
      have "b0 = k" "d0 = l" using i True e unfolding r r' by auto
      then have ch: "chained old new 0 0 (rs @ [((a0, b), (c0, d))])"
        using i t unfolding r r' chained_snoc by (auto split: prod.splits)
      have ap: "apart_runs (rs @ [((a0, b), (c0, d))])"
        using i unfolding r r' apart_runs_def by (auto simp: successively_append_iff)
      show ?thesis using ch ap neq True t unfolding st r r' by (simp add: run_inv_def run_step_def)
    next
      case False
      have ch: "chained old new 0 0 (runs @ [((a, b), (c, d))])" using i t e by (auto simp: chained_snoc)
      have "snd (fst (last runs)) = k'" if "runs \<noteq> []"
        using that e by (metis append_butlast_last_id prod.collapse run_end_snoc fst_conv)
      then have ap: "apart_runs (runs @ [((a, b), (c, d))])"
        using i t False unfolding apart_runs_def by (auto simp: successively_append_iff)
      have "run_step st (tag, (a, b), (c, d)) = (runs @ [((a, b), (c, d))], True)"
        using neq False unfolding st by (auto simp: run_step_def)
      with ch ap show ?thesis by (simp add: run_inv_def)
    qed
  qed
qed

lemma runs_inv:
  "run_inv old new k l st \<Longrightarrow> tiles old new k l ops \<Longrightarrow> run_inv old new (length old) (length new) (foldl run_step st ops)"
proof (induction ops arbitrary: k l st)
  case (Cons op ops)
  obtain tag a b c d where op: "op = (tag, (a, b), (c, d))" by (metis surj_pair)
  from run_step_inv[OF Cons.prems(1) Cons.prems(2)[unfolded op]] Cons.prems(2) show ?case
    unfolding op foldl.simps tiles.simps by (blast intro: Cons.IH)
qed simp

lemma diff_runs_inv:
  assumes "diff_ok d before after"
  shows "chained (td_old d) (td_new d) 0 0 (diff_runs d) \<and> apart_runs (diff_runs d) \<and>
    (case run_end (0, 0) (diff_runs d) of (k, l) \<Rightarrow> drop k (td_old d) = drop l (td_new d))"
proof -
  have "run_inv (td_old d) (td_new d) 0 0 ([], False)" by (simp add: run_inv_def apart_runs_def)
  from runs_inv[OF this] assms have "run_inv (td_old d) (td_new d) (length (td_old d)) (length (td_new d)) (foldl run_step ([], False) (td_ops d))"
    by (simp add: diff_ok_def)
  then show ?thesis by (auto simp: run_inv_def diff_runs_def lines_between_def split: prod.splits)
qed

section \<open>Offsets and common edges\<close>

lemma offsets_snoc: "offsets (ls @ [n]) = offsets ls @ [last (offsets ls) + n]"
  by (simp add: offsets_def)

lemma offsets_facts: "length (offsets ls) = Suc (length ls) \<and> last (offsets ls) = sum_list ls"
  by (induction ls rule: rev_induct) (auto simp: offsets_snoc offsets_def[of "[]"])

lemma offsets_nth: "k \<le> length ls \<Longrightarrow> offsets ls ! k = sum_list (take k ls)"
proof (induction ls rule: rev_induct)
  case Nil
  then show ?case by (simp add: offsets_def)
next
  case (snoc n ls)
  then show ?case using offsets_facts[of ls] by (cases "k = Suc (length ls)") (auto simp: offsets_snoc nth_append)
qed

lemma str_len8_concat: "str_len8 (concat ls) = sum_list (map str_len8 ls)"
  by (induction ls) simp_all

lemma str_len8_rev [simp]: "str_len8 (rev t) = str_len8 t"
  by (induction t) simp_all

lemma line_offset: "k \<le> length ls \<Longrightarrow> nth_opt (offsets (map str_len8 ls)) k = Some (str_len8 (concat (take k ls)))"
  by (simp add: nth_opt_def offsets_facts offsets_nth str_len8_concat take_map)

lemma str_get_part: "str_get (a @ b @ c) (str_len8 a) (str_len8 a + str_len8 b) = Some b"
  using str_get_cut[of "length a" "length a + length b" "a @ b @ c"] by simp

lemma common_chars_prefix: "\<exists>p a' b'. a = p @ a' \<and> b = p @ b' \<and> common_chars a b = str_len8 p"
proof (induction a arbitrary: b)
  case Nil
  then show ?case by (rule exI[of _ "[]"]) (simp add: common_chars_def)
next
  case (Cons x a)
  show ?case
  proof (cases "\<exists>b'. b = x # b'")
    case True
    then obtain b' where b: "b = x # b'" by blast
    from Cons.IH[of b'] obtain p a1 b1 where "a = p @ a1" "b' = p @ b1" "common_chars a b' = str_len8 p" by blast
    with b have "x # a = (x # p) @ a1 \<and> b = (x # p) @ b1 \<and> common_chars (x # a) b = str_len8 (x # p)"
      by (simp add: common_chars_def)
    then show ?thesis by blast
  next
    case False
    then have "common_chars (x # a) b = 0" by (cases b) (auto simp: common_chars_def)
    then have "x # a = [] @ x # a \<and> b = [] @ b \<and> common_chars (x # a) b = str_len8 []" by simp
    then show ?thesis by blast
  qed
qed

lemma common_edges_parts:
  "\<exists>p s x y. a = p @ x @ s \<and> b = p @ y @ s \<and> common_edges a b = Some (str_len8 p, str_len8 s)"
proof -
  obtain p a' b' where p: "a = p @ a'" "b = p @ b'" "common_chars a b = str_len8 p" using common_chars_prefix by blast
  obtain q x y where q: "rev a' = q @ x" "rev b' = q @ y" "common_chars (rev a') (rev b') = str_len8 q"
    using common_chars_prefix by blast
  have "a' = rev x @ rev q" "b' = rev y @ rev q" using q(1,2) by (metis rev_append rev_rev_ident)+
  moreover have "common_edges a b = Some (str_len8 p, str_len8 (rev q))"
    using p q(3) str_get_part[of p a' "[]"] str_get_part[of p b' "[]"] by (simp add: common_edges_def)
  ultimately show ?thesis using p by (metis append.assoc)
qed

section \<open>One run, one patch\<close>

lemma run_patch_parts:
  assumes "nth_opt oa (fst old) = Some (str_len8 u)" "nth_opt oa (snd old) = Some (str_len8 u + str_len8 was)"
    and "nth_opt na (fst new) = Some (str_len8 v)" "nth_opt na (snd new) = Some (str_len8 v + str_len8 now)"
    and "before = u @ was @ u'" "after = v @ now @ v'"
  shows "\<exists>p s x y. was = p @ x @ s \<and> now = p @ y @ s \<and>
    run_patch path before after oa na (old, new) = Some (if x \<noteq> y then Some \<lparr>pt_path = path, pt_file_id = [],
      pt_start = str_len8 (u @ p), pt_end = str_len8 (u @ p @ x), pt_exact = x, pt_replacement = y\<rparr> else None)"
proof -
  obtain p s x y where e: "was = p @ x @ s" "now = p @ y @ s" "common_edges was now = Some (str_len8 p, str_len8 s)"
    using common_edges_parts by blast
  have "str_get was (str_len8 p) (str_len8 was - str_len8 s) = Some x" "str_get now (str_len8 p) (str_len8 now - str_len8 s) = Some y"
    using str_get_part[of p x s] str_get_part[of p y s] by (simp_all add: e(1,2))
  moreover have "str_get before (str_len8 u) (str_len8 u + str_len8 was) = Some was"
    "str_get after (str_len8 v) (str_len8 v + str_len8 now) = Some now" using assms(5,6) by (simp_all add: str_get_part)
  ultimately have "run_patch path before after oa na (old, new) = Some (if x \<noteq> y then Some \<lparr>pt_path = path, pt_file_id = [],
      pt_start = str_len8 (u @ p), pt_end = str_len8 (u @ p @ x), pt_exact = x, pt_replacement = y\<rparr> else None)"
    unfolding run_patch_def using assms(1-4) e(3) by (simp add: e(1))
  with e show ?thesis by blast
qed

lemma edited_from_skip:
  assumes "edits_ok t' (length s) cs" "t \<le> t'" "t' \<le> length s"
  shows "edits_ok t (length s) cs" "edited_from t s cs = take (t' - t) (drop t s) @ edited_from t' s cs"
proof -
  have cut: "take (i - t) (drop t s) = take (t' - t) (drop t s) @ take (i - t') (drop t' s)" if "t' \<le> i" for i
  proof -
    from that assms(2) obtain m n where "t' = t + m" "i = t + m + n" by (metis le_Suc_ex)
    then show ?thesis by (simp add: take_add add.commute[of m t])
  qed
  show "edits_ok t (length s) cs" using assms by (cases cs) auto
  show "edited_from t s cs = take (t' - t) (drop t s) @ edited_from t' s cs"
  proof (cases cs)
    case Nil
    then show ?thesis using cut[of "length s"] assms by simp
  next
    case (Cons c cs')
    then show ?thesis using assms(1) cut[of "fst c"] by (cases c) simp
  qed
qed

lemma edited_from_run:
  assumes "before = u @ g @ p @ x @ s @ z" "t = length (u @ g @ p @ x @ s)" "edits_ok t (length before) cs"
  shows "edits_ok (length u) (length before) cs" "edited_from (length u) before cs = g @ p @ x @ s @ edited_from t before cs"
    and "edits_ok (length u) (length before) ((length (u @ g @ p), length (u @ g @ p @ x), y) # cs)"
    and "edited_from (length u) before ((length (u @ g @ p), length (u @ g @ p @ x), y) # cs) = g @ p @ y @ s @ edited_from t before cs"
proof -
  have le: "length u \<le> t" "t \<le> length before" "length (u @ g @ p @ x) \<le> t" using assms(1,2) by simp_all
  note skip = edited_from_skip[OF assms(3) _ le(2)]
  show "edits_ok (length u) (length before) cs" "edited_from (length u) before cs = g @ p @ x @ s @ edited_from t before cs"
    using skip[OF le(1)] assms(1,2) by simp_all
  show "edits_ok (length u) (length before) ((length (u @ g @ p), length (u @ g @ p @ x), y) # cs)"
    "edited_from (length u) before ((length (u @ g @ p), length (u @ g @ p @ x), y) # cs) = g @ p @ y @ s @ edited_from t before cs"
    using skip[OF le(3)] assms(1,2) by simp_all
qed

section \<open>All the runs\<close>

lemma concat_lines: "k \<le> a \<Longrightarrow> concat (take a ls) = concat (take k ls) @ concat (lines_between ls k a)"
  by (simp add: lines_between_def take_slice[of k a ls])

lemma concat_rest: "k \<le> a \<Longrightarrow> concat (drop k ls) = concat (lines_between ls k a) @ concat (drop a ls)"
proof -
  assume "k \<le> a"
  then obtain m where "a = k + m" by (metis le_Suc_ex)
  then show ?thesis by (simp add: lines_between_def flip: concat_append) (metis add.commute append_take_drop_id drop_drop)
qed

lemma lines_longer:
  assumes "[] \<notin> set ls" "b < a" "a \<le> length ls"
  shows "str_len8 (concat (take b ls)) < str_len8 (concat (take a ls))"
proof -
  have "lines_between ls b a \<noteq> []" "set (lines_between ls b a) \<subseteq> set ls" using assms
    by (auto simp: lines_between_def dest: in_set_takeD in_set_dropD)
  then have "concat (lines_between ls b a) \<noteq> []" using assms(1) by (cases "lines_between ls b a") auto
  then show ?thesis using assms(2) by (simp add: concat_lines[of b a] flip: str_len8_0_iff)
qed

text \<open>What the patches of the runs from line \<open>k\<close> of the old text and \<open>l\<close> of the new one are.\<close>

definition patched_from ::
  "ustr \<Rightarrow> ustr \<Rightarrow> ustr list \<Rightarrow> nat \<Rightarrow> (line_range \<times> line_range) list \<Rightarrow> ustr \<Rightarrow> patch list \<Rightarrow> edit_in list \<Rightarrow> bool" where
  "patched_from path before old k rs rest ps cs \<longleftrightarrow>
    list_all2 (patch_at before) ps cs \<and> edits_ok (length (concat (take k old))) (length before) cs \<and>
    edited_from (length (concat (take k old))) before cs = rest \<and>
    (\<forall>p \<in> set ps. pt_path p = path \<and> str_len8 (concat (take (fst (fst (hd rs))) old)) \<le> pt_start p \<and> rs \<noteq> []) \<and>
    sorted_wrt (\<lambda>p q. pt_end p < pt_start q) ps"

lemma runs_patched:
  assumes "chained old new k l rs" "apart_runs rs" "case run_end (k, l) rs of (k', l') \<Rightarrow> drop k' old = drop l' new"
    and "k \<le> length old" "l \<le> length new" "[] \<notin> set old" "CR \<notin> set after" "concat old = before" "concat new = after"
  shows "\<exists>ps cs. run_patches path before after (offsets (map str_len8 old)) (offsets (map str_len8 new)) rs = Some ps \<and>
    patched_from path before old k rs (concat (drop l new)) ps cs"
  using assms(1-5)
proof (induction rs arbitrary: k l)
  case Nil
  have "edited_from (length (concat (take k old))) before [] = concat (drop k old)"
    using assms(8) by (metis append_eq_conv_conj append_take_drop_id concat_append edited_from.simps(1))
  with Nil show ?case by (simp add: patched_from_def)
next
  case (Cons r rs)
  obtain a b c d where r: "r = ((a, b), (c, d))" by (metis surj_pair)
  from Cons.prems(1) r have ch: "k \<le> a" "a \<le> b" "b \<le> length old" "l \<le> c" "c \<le> d" "d \<le> length new"
    "lines_between old k a = lines_between new l c" "chained old new b d rs" by auto
  have ap: "apart_runs rs" "rs \<noteq> [] \<Longrightarrow> b < fst (fst (hd rs))"
    using Cons.prems(2) r by (auto simp: apart_runs_def successively_Cons)
  have re: "case run_end (b, d) rs of (k', l') \<Rightarrow> drop k' old = drop l' new" using Cons.prems(3) r by simp
  obtain ps cs where ps: "run_patches path before after (offsets (map str_len8 old)) (offsets (map str_len8 new)) rs = Some ps"
    and pf: "patched_from path before old b rs (concat (drop d new)) ps cs"
    using Cons.IH[OF ch(8) ap(1) re ch(3,6)] by blast
  let ?u = "concat (take k old)" and ?g = "concat (lines_between old k a)" and ?z = "concat (drop b old)"
  let ?was = "concat (lines_between old a b)" and ?now = "concat (lines_between new c d)"
  have u: "concat (take a old) = ?u @ ?g" using ch(1) by (rule concat_lines)
  have ub: "concat (take b old) = ?u @ ?g @ ?was" using concat_lines[OF ch(2), of old] u by simp
  have before: "before = (?u @ ?g) @ ?was @ ?z"
    using assms(8) ub by (metis append.assoc append_take_drop_id concat_append)
  have after: "after = concat (take c new) @ ?now @ concat (drop d new)"
    using assms(9) concat_rest[OF ch(5), of new] by (metis append_take_drop_id concat_append)
  have at: "nth_opt (offsets (map str_len8 old)) (fst (a, b)) = Some (str_len8 (?u @ ?g))"
    "nth_opt (offsets (map str_len8 old)) (snd (a, b)) = Some (str_len8 (?u @ ?g) + str_len8 ?was)"
    "nth_opt (offsets (map str_len8 new)) (fst (c, d)) = Some (str_len8 (concat (take c new)))"
    "nth_opt (offsets (map str_len8 new)) (snd (c, d)) = Some (str_len8 (concat (take c new)) + str_len8 ?now)"
    using ch u ub concat_lines[OF ch(5), of new] by (simp_all add: line_offset)
  obtain p s x y where e: "?was = p @ x @ s" "?now = p @ y @ s"
    and rp: "run_patch path before after (offsets (map str_len8 old)) (offsets (map str_len8 new)) ((a, b), (c, d)) =
      Some (if x \<noteq> y then Some \<lparr>pt_path = path, pt_file_id = [], pt_start = str_len8 ((?u @ ?g) @ p),
        pt_end = str_len8 ((?u @ ?g) @ p @ x), pt_exact = x, pt_replacement = y\<rparr> else None)"
    using run_patch_parts[OF at before after, of path] by blast
  have bf: "before = ?u @ ?g @ p @ x @ s @ ?z" using before e(1) by simp
  have t: "length (concat (take b old)) = length (?u @ ?g @ p @ x @ s)" using ub e(1) by simp
  note pf' = pf[unfolded patched_from_def]
  note run = edited_from_run[OF bf t conjunct1[OF conjunct2[OF pf']]]
  have rest: "concat (drop l new) = ?g @ p @ y @ s @ concat (drop d new)"
    using concat_rest[OF ch(4), of new] concat_rest[OF ch(5), of new] ch(7) e(2) by simp
  have late: "str_len8 (concat (take b old)) < pt_start q" "str_len8 (concat (take a old)) \<le> pt_start q" "pt_path q = path" if "q \<in> set ps" for q
  proof -
    from pf' that have q: "rs \<noteq> []" "str_len8 (concat (take (fst (fst (hd rs))) old)) \<le> pt_start q" "pt_path q = path" by auto
    then obtain a' b' c' d' rs' where "rs = ((a', b'), (c', d')) # rs'" by (metis surj_pair list.exhaust)
    with ch(8) have "fst (fst (hd rs)) \<le> length old" by simp
    with lines_longer[OF assms(6) ap(2)[OF q(1)]] q ub u show "str_len8 (concat (take b old)) < pt_start q"
      "str_len8 (concat (take a old)) \<le> pt_start q" "pt_path q = path" by simp_all
  qed
  show ?case
  proof (cases "x = y")
    case True
    have "patched_from path before old k (r # rs) (concat (drop l new)) ps cs"
      using run(1,2) pf' late rest True unfolding patched_from_def r by auto
    with ps rp True r show ?thesis by auto
  next
    case False
    let ?p = "\<lparr>pt_path = path, pt_file_id = [], pt_start = str_len8 ((?u @ ?g) @ p),
        pt_end = str_len8 ((?u @ ?g) @ p @ x), pt_exact = x, pt_replacement = y\<rparr>"
    let ?c = "(length (?u @ ?g @ p), length (?u @ ?g @ p @ x), y)"
    have "CR \<notin> set y" using assms(7) after e(2) by auto
    then have "patch_at before ?p ?c" unfolding patch_at_def bf by (simp add: normalise_id)
    moreover have "pt_end ?p < pt_start q" if "q \<in> set ps" for q using late(1)[OF that] ub e(1) by simp
    ultimately have "patched_from path before old k (r # rs) (concat (drop l new)) (?p # ps) (?c # cs)"
      using run(3,4)[of y] pf' late rest u unfolding patched_from_def r by auto
    with ps rp False r show ?thesis by auto
  qed
qed

lemma patches_patched:
  assumes "before \<noteq> after \<Longrightarrow> diff_ok (from_lines before after) before after" "CR \<notin> set after"
  shows "\<exists>ps cs. patches from_lines path before after = Some ps \<and> list_all2 (patch_at before) ps cs \<and>
    edits_ok 0 (length before) cs \<and> edited before cs = after \<and> (\<forall>p \<in> set ps. pt_path p = path) \<and>
    sorted_wrt (\<lambda>p q. pt_end p < pt_start q) ps"
proof (cases "before = after")
  case True
  then show ?thesis by (simp add: patches_def edited_def)
next
  case False
  let ?d = "from_lines before after"
  from assms(1)[OF False] have ok: "[] \<notin> set (td_old ?d)" "concat (td_old ?d) = before" "concat (td_new ?d) = after"
    by (simp_all add: diff_ok_def)
  from diff_runs_inv[OF assms(1)[OF False]]
  have r: "chained (td_old ?d) (td_new ?d) 0 0 (diff_runs ?d)" "apart_runs (diff_runs ?d)"
    "case run_end (0, 0) (diff_runs ?d) of (k, l) \<Rightarrow> drop k (td_old ?d) = drop l (td_new ?d)" by simp_all
  from runs_patched[OF r le0 le0 ok(1) assms(2) ok(2,3), of path] ok(3) False show ?thesis
    by (auto simp: patches_def patched_from_def edited_def Let_def)
qed

lemma patch_at_matches: "patch_at s p c \<Longrightarrow> range_matches s (pt_start p) (pt_end p) (pt_exact p)"
proof -
  assume a: "patch_at s p c"
  obtain i j ins where c: "c = (i, j, ins)" by (metis prod_cases3)
  from a c have "i \<le> j" "j \<le> length s" "pt_start p = str_len8 (take i s)" "pt_end p = str_len8 (take j s)"
    "take (j - i) (drop i s) = pt_exact p" by (simp_all add: patch_at_def)
  then show ?thesis
    by (simp add: range_matches_def str_get_cut is_char_boundary_def str_len8_take_mono str_len8_take_le)
qed

lemma patches_match:
  "list_all2 (patch_at s) ps cs \<Longrightarrow> p \<in> set ps \<Longrightarrow> range_matches s (pt_start p) (pt_end p) (pt_exact p)"
  by (auto simp: list_all2_conv_all_nth in_set_conv_nth intro: patch_at_matches)

lemma ascending_sorted:
  assumes "sorted_wrt (\<lambda>p q. pt_end p < pt_start q) ps" "\<forall>p \<in> set ps. pt_start p \<le> pt_end p"
  shows "sort_key (\<lambda>p. (pt_start p, pt_end p)) ps = ps"
proof (rule sort_key_id_if_sorted)
  have "sorted_wrt (\<lambda>p q. (pt_start p, pt_end p) \<le> (pt_start q, pt_end q)) ps"
    by (rule sorted_wrt_mono_rel[OF _ assms(1)]) (use assms(2) in fastforce)
  then show "sorted (map (\<lambda>p. (pt_start p, pt_end p)) ps)" by (simp add: sorted_wrt_map)
qed

text \<open>The patches of a changed file reach the server whole and rebuild the file. The client's code
  never indexes out of range; each patch's captured text is what the base holds in its range, the
  patches are in order and neither touch nor overlap, and the edits the server makes of them turn
  the base text into the client's text, whatever line diff was used.\<close>

theorem pushed_patches_round_trip:
  assumes "before \<noteq> after \<Longrightarrow> diff_ok (from_lines before after) before after" "CR \<notin> set after"
    and "map_of (st_files tree) path = Some fl" "sf_text fl = before"
    and "text_laws T" "text_string T x = before" "str_len16 before < usize_max"
  shows "\<exists>ps edits x'. patches from_lines path before after = Some ps \<and>
    (\<forall>p \<in> set ps. range_matches before (pt_start p) (pt_end p) (pt_exact p)) \<and> sorted_wrt (\<lambda>p q. pt_end p < pt_start q) ps \<and>
    file_edits tree ps path = Inr edits \<and> apply_text_edits T edits x = (x', True) \<and> text_string T x' = after"
proof -
  obtain ps cs where ps: "patches from_lines path before after = Some ps" "list_all2 (patch_at before) ps cs"
    "edits_ok 0 (length before) cs" "edited before cs = after" "\<forall>p \<in> set ps. pt_path p = path"
    "sorted_wrt (\<lambda>p q. pt_end p < pt_start q) ps" using patches_patched[of before after from_lines path, OF assms(1,2)] by blast
  have m: "range_matches before (pt_start p) (pt_end p) (pt_exact p)" if "p \<in> set ps" for p
    using patches_match[OF ps(2) that] .
  then have "sort_key (\<lambda>p. (pt_start p, pt_end p)) (filter (\<lambda>p. pt_path p = path) ps) = ps"
    using ps(5) ascending_sorted[OF ps(6)] by (simp add: range_matches_def)
  moreover obtain es where es: "patch_edits path before ps = Inr es" "edits_at before es cs"
    using patch_edits_at[OF ps(2)] by blast
  ultimately have fe: "file_edits tree ps path = Inr es" using assms(3,4) by (simp add: file_edits_def)
  obtain x' b where r: "apply_text_edits T es x = (x', b)" by fastforce
  from apply_edits_result[OF assms(5-7) es(2) r] ps(3,4) have "b" "text_string T x' = after" by simp_all
  with ps m fe r show ?thesis by auto
qed

text \<open>The coarsest line diff: every line is replaced.\<close>

fun split_lines :: "ustr \<Rightarrow> ustr list" where
  "split_lines [] = []"
| "split_lines (c # t) =
    (if c = LF then [c] # split_lines t
     else (case split_lines t of [] \<Rightarrow> [[c]] | l # ls \<Rightarrow> (c # l) # ls))"

definition replace_all :: "ustr \<Rightarrow> ustr \<Rightarrow> text_diff" where
  "replace_all before after = \<lparr>td_old = split_lines before, td_new = split_lines after,
    td_ops = [(Diff_Replace, (0, length (split_lines before)), (0, length (split_lines after)))]\<rparr>"

lemma split_lines_facts: "concat (split_lines t) = t \<and> [] \<notin> set (split_lines t)"
  by (induction t rule: split_lines.induct) (auto split: list.splits)

lemma replace_all_ok: "diff_ok (replace_all before after) before after"
  by (simp add: diff_ok_def replace_all_def split_lines_facts)

theorem pushed_patches_round_trip_witness:
  "\<exists>ps edits x'. patches replace_all (lit ''a.tex'') [0x61, 0xE9, 0x62] [0x61, 0xE8, 0x0A, 0x62] = Some ps \<and>
    (\<forall>p \<in> set ps. range_matches [0x61, 0xE9, 0x62] (pt_start p) (pt_end p) (pt_exact p)) \<and> sorted_wrt (\<lambda>p q. pt_end p < pt_start q) ps \<and>
    file_edits sample_tree ps (lit ''a.tex'') = Inr edits \<and> apply_text_edits plain_text edits [0x61, 0xE9, 0x62] = (x', True) \<and>
    text_string plain_text x' = [0x61, 0xE8, 0x0A, 0x62]"
  by (rule pushed_patches_round_trip[where fl = "\<lparr>sf_file_id = lit ''f'', sf_text = [0x61, 0xE9, 0x62]\<rparr>",
        OF replace_all_ok _ _ _ plain.text_laws_axioms])
    (simp_all add: CR_def sample_tree_def plain_text_def usize_max_def len_utf16_def)

end
