(* ===== verification/Track_Text.thy ===== *)
theory Track_Text
  imports Track_Batch Text_Index
begin

text \<open>
  The reading side of \<open>document/track.rs\<close>: \<open>unsuggested\<close>, which renders a file's text with
  every pending suggestion undone, together with the runs of stored text it kept and the marks
  of the suggestions it undid, and \<open>to_stored\<close>, which maps a byte range of that text back onto
  the stored one.  The resolved state of the file, which the source reads from the shared
  document, is an argument.
\<close>

section \<open>Definitions\<close>

record run =
  r_proj :: nat
  r_stored :: nat
  r_len :: nat

record mark =
  m_start :: nat
  m_end :: nat
  m_change :: ustr

record unsug =
  u_text :: ustr
  u_runs :: "run list"
  u_marks :: "mark list"

text \<open>The change owning a character of a pending insertion: the first in the order of the list
  whose span holds it.\<close>

definition owner_at :: "change_record list \<Rightarrow> nat \<Rightarrow> ustr option" where
  "owner_at changes i =
    map_option c_id (find (\<lambda>c. \<not> (orphan c \<or> c_to c \<le> c_from c) \<and> c_from c \<le> i \<and> i < c_to c) changes)"

record render =
  rn_text :: ustr
  rn_runs :: "run list"
  rn_marks :: "mark list"
  rn_open :: "(nat \<times> nat) option"

definition close_run :: "render \<Rightarrow> render" where
  "close_run r =
    (case rn_open r of
       None \<Rightarrow> r
     | Some (proj, st) \<Rightarrow>
         (let r' = r\<lparr>rn_open := None\<rparr> in
          if str_len8 (rn_text r) > proj
          then r'\<lparr>rn_runs := rn_runs r @ [\<lparr>r_proj = proj, r_stored = st, r_len = str_len8 (rn_text r) - proj\<rparr>]\<rparr>
          else r'))"

definition render_fragment :: "fragment \<Rightarrow> render \<Rightarrow> render" where
  "render_fragment f r =
    r\<lparr>rn_text := rn_text r @ f_text f,
      rn_marks := rn_marks r @ [\<lparr>m_start = str_len8 (rn_text r),
        m_end = str_len8 (rn_text r @ f_text f), m_change = f_change f\<rparr>]\<rparr>"

definition render_gap :: "gap \<Rightarrow> render \<Rightarrow> render" where
  "render_gap g r = fold render_fragment (fragments g) (close_run r)"

definition render_char :: "ustr \<Rightarrow> change_record list \<Rightarrow> nat \<Rightarrow> render \<Rightarrow> render" where
  "render_char chars changes i r =
    (case owner_at changes i of
       Some nm \<Rightarrow>
         (let r = close_run r;
              p = str_len8 (rn_text r);
              same = (rn_marks r \<noteq> [] \<and> m_start (last (rn_marks r)) = p \<and>
                m_end (last (rn_marks r)) = p \<and> m_change (last (rn_marks r)) = nm)
          in if same then r
             else r\<lparr>rn_marks := rn_marks r @ [\<lparr>m_start = p, m_end = p, m_change = nm\<rparr>]\<rparr>)
     | None \<Rightarrow>
         r\<lparr>rn_open := (case rn_open r of
             None \<Rightarrow> Some (str_len8 (rn_text r), str_len8 (take i chars)) | Some b \<Rightarrow> Some b),
           rn_text := rn_text r @ [chars ! i]\<rparr>)"

definition render_at :: "ustr \<Rightarrow> file_state \<Rightarrow> nat \<Rightarrow> render \<Rightarrow> render" where
  "render_at chars st i r =
    (let r = fold render_gap (filter (\<lambda>g. min (g_at g) (length chars) = i) (fs_gaps st)) r
     in if i = length chars then r else render_char chars (fs_changes st) i r)"

definition unsuggested :: "ustr \<Rightarrow> file_state \<Rightarrow> unsug" where
  "unsuggested chars st =
    (let r = close_run (fold (render_at chars st) [0..<Suc (length chars)]
          \<lparr>rn_text = [], rn_runs = [], rn_marks = [], rn_open = None\<rparr>)
     in \<lparr>u_text = rn_text r, u_runs = rn_runs r, u_marks = rn_marks r\<rparr>)"

datatype to_stored_error = Outside_File | Off_Boundary | Meets_Change ustr

definition to_stored :: "unsug \<Rightarrow> nat \<Rightarrow> nat \<Rightarrow> to_stored_error + nat \<times> nat" where
  "to_stored u a b =
    (if a > b \<or> b > str_len8 (u_text u) then Inl Outside_File
     else if \<not> is_char_boundary (u_text u) a \<or> \<not> is_char_boundary (u_text u) b then Inl Off_Boundary
     else (case find (\<lambda>m. a \<le> m_end m \<and> m_start m \<le> b) (u_marks u) of
       Some m \<Rightarrow> Inl (Meets_Change (m_change m))
     | None \<Rightarrow>
         if u_marks u = [] then Inr (a, b)
         else (case find (\<lambda>r. r_proj r \<le> a \<and> b \<le> r_proj r + r_len r) (u_runs u) of
                 None \<Rightarrow> Inl Outside_File
               | Some r \<Rightarrow> Inr (r_stored r + a - r_proj r, r_stored r + b - r_proj r))))"

definition has_suggestions :: "unsug \<Rightarrow> bool" where
  "has_suggestions u \<longleftrightarrow> u_marks u \<noteq> []"

section \<open>The rendered text is the original text\<close>

lemma close_run_text [simp]: "rn_text (close_run r) = rn_text r" "rn_marks (close_run r) = rn_marks r"
  "rn_open (close_run r) = None"
  by (auto simp: close_run_def Let_def split: option.splits)

lemma render_fragments_text: "rn_text (fold render_fragment fs r) = rn_text r @ texts fs"
  by (induction fs arbitrary: r) (simp_all add: render_fragment_def)

lemma render_gap_text [simp]: "rn_text (render_gap g r) = rn_text r @ texts (fragments g)"
  by (simp add: render_gap_def render_fragments_text)

lemma render_gaps_text: "rn_text (fold render_gap gs r) = rn_text r @ concat (map (\<lambda>g. texts (fragments g)) gs)"
  by (induction gs arbitrary: r) simp_all

lemma owner_at_None:
  assumes "\<forall>c \<in> set changes. has_span c \<longrightarrow> \<not> orphan c"
  shows "owner_at changes i = None \<longleftrightarrow> \<not> covered (state_rows changes) i"
  using assms by (auto simp: owner_at_def find_None_iff covered_def spans_pos_def state_rows_def has_span_def)

lemma render_char_text:
  assumes "\<forall>c \<in> set changes. has_span c \<longrightarrow> \<not> orphan c" "i < length chars"
  shows "rn_text (render_char chars changes i r) = rn_text r @ kept_char chars (state_rows changes) i"
  using owner_at_None[OF assms(1), of i] assms(2)
  by (auto simp: render_char_def kept_char_def Let_def split: option.splits)

lemma state_gap_text: "gap_text (state_rows gs) i = concat (map (\<lambda>g. texts (fragments g)) (filter (\<lambda>g. g_at g = i) gs))"
  by (induction gs) (simp_all add: gap_text_Cons state_rows_def)

lemma render_text:
  assumes wf: "wf_rows (length chars) (state_rows (fs_changes st)) (state_rows (fs_gaps st))" and "j \<le> Suc (length chars)"
  shows "rn_text (fold (render_at chars st) [0..<j] r) = rn_text r @ pieces chars (state_rows (fs_changes st)) (state_rows (fs_gaps st)) 0 j"
  using assms(2)
proof (induction j)
  case (Suc j)
  have sp: "\<forall>c \<in> set (fs_changes st). has_span c \<longrightarrow> \<not> orphan c"
    and at: "\<forall>g \<in> set (fs_gaps st). g_at g \<le> length chars"
    using wf by (auto simp: wf_rows_def state_rows_def)
  have "filter (\<lambda>g. min (g_at g) (length chars) = j) (fs_gaps st) = filter (\<lambda>g. g_at g = j) (fs_gaps st)"
    using at by (intro filter_cong) auto
  then have "rn_text (render_at chars st j r) =
      rn_text r @ gap_text (state_rows (fs_gaps st)) j @ kept_char chars (state_rows (fs_changes st)) j" for r
    using Suc.prems
    by (cases "j = length chars")
       (simp_all add: render_at_def Let_def render_gaps_text render_char_text[OF sp] state_gap_text kept_char_def[of _ _ "length chars"])
  with Suc show ?case
    using pieces_split[of 0 j "Suc j" chars "state_rows (fs_changes st)" "state_rows (fs_gaps st)"]
    by (simp add: pieces_single)
qed simp

section \<open>Runs are stretches of the stored text\<close>

definition good_run :: "ustr \<Rightarrow> ustr \<Rightarrow> run \<Rightarrow> bool" where
  "good_run txt chars r \<longleftrightarrow> (\<exists>a b c a' c'. txt = a @ b @ c \<and> chars = a' @ b @ c' \<and>
    r_proj r = str_len8 a \<and> r_stored r = str_len8 a' \<and> r_len r = str_len8 b)"

lemma good_run_append: "good_run txt chars r \<Longrightarrow> good_run (txt @ rest) chars r"
  by (force simp: good_run_def)

text \<open>The state of the rendering before position \<open>i\<close>.\<close>

definition render_inv :: "ustr \<Rightarrow> nat \<Rightarrow> render \<Rightarrow> bool" where
  "render_inv chars i r \<longleftrightarrow>
    (\<forall>q \<in> set (rn_runs r). good_run (rn_text r) chars q) \<and>
    (\<forall>p q. rn_open r = Some (p, q) \<longrightarrow> (\<exists>a b a'. rn_text r = a @ b \<and> p = str_len8 a \<and>
       take i chars = a' @ b \<and> q = str_len8 a')) \<and>
    (rn_marks r = [] \<longrightarrow> rn_text r = take i chars)"

lemma close_run_inv: "render_inv chars i r \<Longrightarrow> render_inv chars i (close_run r)"
proof (cases "rn_open r")
  case (Some o')
  assume inv: "render_inv chars i r"
  obtain p q where o: "rn_open r = Some (p, q)" using Some by (cases o') auto
  with inv obtain a b a' where ab: "rn_text r = a @ b" "p = str_len8 a" "take i chars = a' @ b" "q = str_len8 a'"
    unfolding render_inv_def by blast
  have "chars = a' @ b @ drop i chars" using ab(3) by (metis append.assoc append_take_drop_id)
  with ab have "good_run (rn_text r) chars \<lparr>r_proj = p, r_stored = q, r_len = str_len8 (rn_text r) - p\<rparr>"
    unfolding good_run_def by (intro exI[of _ a] exI[of _ b] exI[of _ "[]"] exI[of _ a'] exI[of _ "drop i chars"]) simp
  with inv o show ?thesis by (auto simp: render_inv_def close_run_def Let_def)
qed (simp add: close_run_def)

lemma fragments_inv:
  "render_inv chars i r \<Longrightarrow> rn_open r = None \<Longrightarrow> render_inv chars i (fold render_fragment fs r) \<and> rn_open (fold render_fragment fs r) = None"
proof (induction fs arbitrary: r)
  case (Cons f fs)
  have "render_inv chars i (render_fragment f r)" "rn_open (render_fragment f r) = None"
    using Cons.prems by (auto simp: render_inv_def render_fragment_def good_run_append)
  with Cons.IH show ?case by simp
qed simp

lemma render_gap_inv: "render_inv chars i r \<Longrightarrow> render_inv chars i (render_gap g r)"
  unfolding render_gap_def by (rule conjunct1[OF fragments_inv]) (simp_all add: close_run_inv)

lemma render_char_inv:
  assumes "render_inv chars i r" "i < length chars"
  shows "render_inv chars (Suc i) (render_char chars changes i r)"
proof (cases "owner_at changes i")
  case (Some nm)
  let ?r = "close_run r"
  have "render_inv chars i ?r" "rn_open ?r = None" using close_run_inv[OF assms(1)] by simp_all
  with Some show ?thesis by (auto simp: render_char_def Let_def render_inv_def)
next
  case None
  have tk: "take (Suc i) chars = take i chars @ [chars ! i]" using assms(2) by (simp add: take_Suc_conv_app_nth)
  show ?thesis
  proof (cases "rn_open r")
    case no: None
    with None assms(1) tk show ?thesis
      by (auto simp: render_char_def render_inv_def good_run_append)
  next
    case (Some o')
    obtain p q where o: "rn_open r = Some (p, q)" using Some by (cases o') auto
    with assms(1) obtain a b a' where ab: "rn_text r = a @ b" "p = str_len8 a" "take i chars = a' @ b" "q = str_len8 a'"
      unfolding render_inv_def by blast
    have "\<exists>x y x'. rn_text r @ [chars ! i] = x @ y \<and> p = str_len8 x \<and> take (Suc i) chars = x' @ y \<and> q = str_len8 x'"
      using ab tk by (intro exI[of _ a] exI[of _ "b @ [chars ! i]"] exI[of _ a']) simp
    with None o assms(1) tk show ?thesis
      by (auto simp: render_char_def render_inv_def good_run_append)
  qed
qed

lemma render_gaps_inv: "render_inv chars i r \<Longrightarrow> render_inv chars i (fold render_gap gs r)"
  by (erule fold_keeps) (rule render_gap_inv)

lemma render_at_inv:
  assumes "render_inv chars j r"
  shows "j < length chars \<Longrightarrow> render_inv chars (Suc j) (render_at chars st j r)"
    and "j = length chars \<Longrightarrow> render_inv chars j (render_at chars st j r)"
  using render_gaps_inv[OF assms] by (simp_all add: render_at_def Let_def render_char_inv)

definition render_start :: render where
  "render_start = \<lparr>rn_text = [], rn_runs = [], rn_marks = [], rn_open = None\<rparr>"

lemma render_inv_all: "j \<le> length chars \<Longrightarrow> render_inv chars j (fold (render_at chars st) [0..<j] render_start)"
proof (induction j)
  case 0
  show ?case by (simp add: render_inv_def render_start_def)
next
  case (Suc j)
  then show ?case by (simp add: render_at_inv(1))
qed

lemma unsuggested_inv:
  "(\<forall>q \<in> set (u_runs (unsuggested chars st)). good_run (u_text (unsuggested chars st)) chars q) \<and>
   (u_marks (unsuggested chars st) = [] \<longrightarrow> u_text (unsuggested chars st) = chars)"
proof -
  have "render_inv chars (length chars)
      (close_run (render_at chars st (length chars) (fold (render_at chars st) [0..<length chars] render_start)))"
    by (intro close_run_inv render_at_inv(2) render_inv_all) simp_all
  then show ?thesis by (auto simp: unsuggested_def Let_def render_inv_def render_start_def)
qed

section \<open>Ranges back onto the stored text\<close>

lemma boundary_mid:
  assumes "boundary (a @ b @ c) n = Some i" "str_len8 a \<le> n" "n \<le> str_len8 a + str_len8 b"
  shows "\<exists>j \<le> length b. i = length a + j \<and> n = str_len8 a + str_len8 (take j b)"
proof -
  from assms(1) have n: "i \<le> length (a @ b @ c)" "n = str_len8 (take i (a @ b @ c))" by (simp_all only: boundary_iff)
  have eqa: "str_len8 (take (length a) (a @ b @ c)) = str_len8 a"
    and eqb: "str_len8 (take (length a + length b) (a @ b @ c)) = str_len8 a + str_len8 b" by simp_all
  have "length a \<le> i"
  proof (rule ccontr)
    assume "\<not> length a \<le> i"
    with n(2) assms(2) eqa str_len8_take_mono[of i "length a" "a @ b @ c"]
    have "str_len8 (take i (a @ b @ c)) = str_len8 (take (length a) (a @ b @ c))" by linarith
    from str_len8_take_inj[OF this n(1)] \<open>\<not> length a \<le> i\<close> show False by simp
  qed
  moreover have "i \<le> length a + length b"
  proof (rule ccontr)
    assume "\<not> i \<le> length a + length b"
    with n(2) assms(3) eqb str_len8_take_mono[of "length a + length b" i "a @ b @ c"]
    have "str_len8 (take i (a @ b @ c)) = str_len8 (take (length a + length b) (a @ b @ c))" by linarith
    from str_len8_take_inj[OF this n(1)] \<open>\<not> i \<le> length a + length b\<close> show False by simp
  qed
  ultimately show ?thesis using n(2) by (intro exI[of _ "i - length a"]) auto
qed

lemma str_get_mid:
  assumes "i \<le> j" "j \<le> length b"
  shows "str_get (a @ b @ c) (str_len8 a + str_len8 (take i b)) (str_len8 a + str_len8 (take j b)) = Some (take (j - i) (drop i b))"
  using str_get_cut[of "length a + i" "length a + j" "a @ b @ c"] assms by simp

lemma to_stored_run:
  assumes "to_stored u a b = Inr (x, y)" "u_marks u \<noteq> []"
  shows "\<exists>r \<in> set (u_runs u). r_proj r \<le> a \<and> b \<le> r_proj r + r_len r \<and>
    x = r_stored r + a - r_proj r \<and> y = r_stored r + b - r_proj r"
proof -
  let ?in = "\<lambda>r. r_proj r \<le> a \<and> b \<le> r_proj r + r_len r"
  from assms(1) have "find (\<lambda>m. a \<le> m_end m \<and> m_start m \<le> b) (u_marks u) = None"
    unfolding to_stored_def by (cases "find (\<lambda>m. a \<le> m_end m \<and> m_start m \<le> b) (u_marks u)") (auto split: if_splits)
  with assms have runs: "(case find ?in (u_runs u) of
      None \<Rightarrow> Inl Outside_File | Some r \<Rightarrow> Inr (r_stored r + a - r_proj r, r_stored r + b - r_proj r)) = Inr (x, y)"
    unfolding to_stored_def by (simp split: if_splits)
  show ?thesis
  proof (cases "find ?in (u_runs u)")
    case None
    with runs show ?thesis by simp
  next
    case (Some r)
    with runs find_SomeD[OF Some] show ?thesis by auto
  qed
qed

section \<open>Properties\<close>

lemma seen_is_original:
  assumes "wf_rows (length chars) (state_rows (fs_changes st)) (state_rows (fs_gaps st))"
  shows "u_text (unsuggested chars st) = original chars (state_rows (fs_changes st)) (state_rows (fs_gaps st))"
  using render_text[OF assms order_refl, of "\<lparr>rn_text = [], rn_runs = [], rn_marks = [], rn_open = None\<rparr>"]
  by (simp add: unsuggested_def Let_def original_def del: upt_Suc)

text \<open>C9: the rendered text of a file with well-formed records is its original text, the one
  tracked edits keep: each stored character outside every suggested insertion, and each
  deleted fragment at its gap, in document order.\<close>

theorem unsuggested_is_original:
  assumes "wf_rows (length chars) (state_rows (fs_changes st)) (state_rows (fs_gaps st))"
  shows "u_text (unsuggested chars st) = original chars (state_rows (fs_changes st)) (state_rows (fs_gaps st))"
  using assms by (rule seen_is_original)

theorem unsuggested_is_original_witness:
  "u_text (unsuggested sample_text sample_state) =
    original sample_text (state_rows (fs_changes sample_state)) (state_rows (fs_gaps sample_state))"
  by (rule unsuggested_is_original[OF sample_wf])

text \<open>A range that maps back names the same text: when \<open>to_stored\<close> answers with offsets, the
  stored text between them is a range of whole characters and is exactly the text of the
  range that was asked about.\<close>

theorem to_stored_same_text:
  assumes "to_stored (unsuggested chars st) a b = Inr (x, y)"
  shows "\<exists>s. str_get (u_text (unsuggested chars st)) a b = Some s \<and> str_get chars x y = Some s"
proof -
  let ?u = "unsuggested chars st"
  from assms have ab: "a \<le> b" "is_char_boundary (u_text ?u) a" "is_char_boundary (u_text ?u) b"
    by (auto simp: to_stored_def split: if_splits)
  then obtain i j where ij: "boundary (u_text ?u) a = Some i" "boundary (u_text ?u) b = Some j"
    by (auto simp: is_char_boundary_def)
  show ?thesis
  proof (cases "u_marks ?u = []")
    case True
    with assms have "x = a" "y = b" by (auto simp: to_stored_def split: if_splits)
    moreover from True unsuggested_inv[of chars st] have "u_text ?u = chars" by simp
    ultimately show ?thesis using ab(1) ij by (simp add: str_get_def)
  next
    case False
    from to_stored_run[OF assms this] obtain r where r: "r \<in> set (u_runs ?u)" "r_proj r \<le> a" "b \<le> r_proj r + r_len r"
      and xy: "x = r_stored r + a - r_proj r" "y = r_stored r + b - r_proj r" by blast
    from unsuggested_inv[of chars st] r(1) obtain p q c p' c' where g: "u_text ?u = p @ q @ c" "chars = p' @ q @ c'"
      "r_proj r = str_len8 p" "r_stored r = str_len8 p'" "r_len r = str_len8 q" unfolding good_run_def by blast
    from boundary_mid[of p q c a i] boundary_mid[of p q c b j] ij r(2,3) ab(1) g
    obtain i' j' where m: "i' \<le> length q" "a = str_len8 p + str_len8 (take i' q)"
      "j' \<le> length q" "b = str_len8 p + str_len8 (take j' q)" by auto
    have "i' \<le> j'"
    proof (rule ccontr)
      assume "\<not> i' \<le> j'"
      with m ab(1) str_len8_take_mono[of j' i' q] have "str_len8 (take i' q) = str_len8 (take j' q)" by linarith
      from str_len8_take_inj[OF this m(1,3)] \<open>\<not> i' \<le> j'\<close> show False by simp
    qed
    from str_get_mid[OF this m(3), of p c] str_get_mid[OF this m(3), of p' c'] g m xy
    show ?thesis by auto
  qed
qed

lemma sample_to_stored: "to_stored (unsuggested sample_text sample_state) 6 7 = Inr (5, 6)"
  by code_simp

theorem to_stored_same_text_witness:
  "to_stored (unsuggested sample_text sample_state) 6 7 = Inr (5, 6) \<and>
   (\<exists>s. str_get (u_text (unsuggested sample_text sample_state)) 6 7 = Some s \<and> str_get sample_text 5 6 = Some s)"
  using to_stored_same_text[OF sample_to_stored] sample_to_stored by simp

end
