(* ===== verification/Track_Untracked.thy ===== *)
theory Track_Untracked
  imports Track_Text Edits
begin

text \<open>
  An untracked batch that keeps clear of every suggestion.  The first part follows such a batch
  through the planner: what people see afterwards is what they saw, with the edits made in it.
  The second part ties a position of the text people see to the position of the stored text that
  \<open>to_stored\<close> maps it to, and shows that a range \<open>to_stored\<close> answers for is clear.
\<close>

section \<open>A clear edit in the planner\<close>

definition clear_at :: "gap_row list \<Rightarrow> nat \<Rightarrow> nat \<Rightarrow> bool" where
  "clear_at gaps i j \<longleftrightarrow> (\<forall>p. i \<le> p \<and> p \<le> j \<longrightarrow> gap_text gaps p = [])"

lemma clear_step:
  assumes "plan_one cur rows gaps ef et ins me run now True mint k = (nc, ng, k')"
    and "wf_rows (length cur) rows gaps" "ef \<le> et" "clear_at gaps ef et"
  shows "covered nc q \<longleftrightarrow> (if q < ef then covered rows q
      else if q < ef + length ins then False else covered rows (pre_pos ef et (length ins) q))"
    and "gap_text ng q = (if q < ef then gap_text gaps q
      else if q \<le> ef + length ins then [] else gap_text gaps (pre_pos ef et (length ins) q))"
proof -
  have d: "distinct (map (c_id \<circ> fst) rows)" using assms(2) by (simp add: wf_rows_def)
  have rec: "recorded rows ef et ins True = False" by (simp add: recorded_def)
  have blank: "concat (map (gap_text gaps) [ef..<et]) = []" "gap_text gaps et = []"
    using assms(3,4) by (auto simp: clear_at_def)
  show "covered nc q \<longleftrightarrow> (if q < ef then covered rows q
      else if q < ef + length ins then False else covered rows (pre_pos ef et (length ins) q))"
    using plan_one_effect[OF assms(1) d assms(3)] unfolding rec by blast
  show "gap_text ng q = (if q < ef then gap_text gaps q
      else if q \<le> ef + length ins then [] else gap_text gaps (pre_pos ef et (length ins) q))"
    using plan_one_effect[OF assms(1) d assms(3)] blank unfolding rec by (auto simp: gaps_after_def pre_pos_def)
qed

text \<open>The text people see after the batch, cut from the stored text as it was.\<close>

fun pieces_edited :: "ustr \<Rightarrow> row list \<Rightarrow> gap_row list \<Rightarrow> nat \<Rightarrow> edit_in list \<Rightarrow> ustr" where
  "pieces_edited before rows gaps t0 [] = pieces before rows gaps t0 (Suc (length before))"
| "pieces_edited before rows gaps t0 ((i, j, ins) # es) =
    pieces before rows gaps t0 i @ ins @ pieces_edited before rows gaps j es"

definition clear_edits :: "gap_row list \<Rightarrow> edit_in list \<Rightarrow> bool" where
  "clear_edits gaps es \<longleftrightarrow> list_all (\<lambda>(i, j, ins). clear_at gaps i j) es"

text \<open>The loop before the edits from \<open>t0\<close> on: what follows is as it was, and the text before it
  reads \<open>acc\<close>.\<close>

definition clear_inv :: "ustr \<Rightarrow> row list \<Rightarrow> gap_row list \<Rightarrow> nat \<Rightarrow> ustr \<Rightarrow> ustr \<Rightarrow> loop_state \<Rightarrow> bool" where
  "clear_inv before rows gaps t0 pre acc s \<longleftrightarrow>
    ls_cur s = pre @ drop t0 before \<and> int (length pre) = int t0 + adj s \<and>
    (\<forall>d. covered (ls_changes s) (length pre + d) = covered rows (t0 + d) \<and>
      gap_text (ls_gaps s) (length pre + d) = gap_text gaps (t0 + d)) \<and>
    pieces (ls_cur s) (ls_changes s) (ls_gaps s) 0 (length pre) = acc"

lemma clear_inv_pieces:
  assumes "clear_inv before rows gaps t0 pre acc s" "t0 \<le> i" "i \<le> Suc (length before)" "t0 \<le> length before"
  shows "pieces (ls_cur s) (ls_changes s) (ls_gaps s) 0 (length pre + (i - t0)) = acc @ pieces before rows gaps t0 i"
proof -
  have "pieces (ls_cur s) (ls_changes s) (ls_gaps s) (length pre) (length pre + (i - t0)) = pieces before rows gaps t0 i"
  proof (rule pieces_shift)
    fix t
    have cur: "ls_cur s = pre @ drop t0 before" and al: "covered (ls_changes s) (length pre + t) = covered rows (t0 + t)"
      "gap_text (ls_gaps s) (length pre + t) = gap_text gaps (t0 + t)" using assms(1) by (simp_all add: clear_inv_def)
    have "length pre + t < length (ls_cur s) \<longleftrightarrow> t0 + t < length before" using cur assms(4) by auto
    moreover have "t0 + t < length before \<Longrightarrow> ls_cur s ! (length pre + t) = before ! (t0 + t)" unfolding cur by simp
    ultimately show "gap_text (ls_gaps s) (length pre + t) @ kept_char (ls_cur s) (ls_changes s) (length pre + t) =
        gap_text gaps (t0 + t) @ kept_char before rows (t0 + t)" unfolding kept_char_def al by simp
  qed (use assms(2) in simp)
  moreover have "pieces (ls_cur s) (ls_changes s) (ls_gaps s) 0 (length pre) = acc"
    using assms(1) unfolding clear_inv_def by blast
  ultimately show ?thesis
    using pieces_split[of 0 "length pre" "length pre + (i - t0)" "ls_cur s" "ls_changes s" "ls_gaps s"] by simp
qed

lemma clear_inv_step:
  assumes ci: "clear_inv before rows gaps t0 pre acc s" and li: "loop_inv before t0 s mint"
    and e: "t0 \<le> i" "i \<le> j" "j \<le> length before" "clear_at gaps i j"
    and s': "s' = plan_step oc og me run now True mint (i, j, ins) s"
  shows "clear_inv before rows gaps j (pre @ take (i - t0) (drop t0 before) @ ins)
    (acc @ pieces before rows gaps t0 i @ ins) s'"
  using li e(1-3) s'
proof (rule plan_step_cases, goal_cases)
  case (1 ef et)
  let ?pre = "pre @ take (i - t0) (drop t0 before) @ ins"
  have pre: "ls_cur s = pre @ drop t0 before" "int (length pre) = int t0 + adj s"
    and al: "\<And>d. covered (ls_changes s) (length pre + d) = covered rows (t0 + d)"
      "\<And>d. gap_text (ls_gaps s) (length pre + d) = gap_text gaps (t0 + d)"
    using ci by (auto simp: clear_inv_def)
  note cur = plan_step_inv(3)[OF li e(1-3) s' pre]
  have ef: "ef = length pre + (i - t0)" "et = length pre + (j - t0)" using pre(2) e 1(1,2) by auto
  have len: "length ?pre = ef + length ins" using ef e by simp
  note head = clear_inv_pieces[OF ci e(1), folded ef(1)]
  from 1(8) show ?case
  proof (elim disjE conjE)
    assume n: "ef = et" "ins = []" "s' = s"
    then have ij: "i = j" using ef e by simp
    have "pieces (ls_cur s) (ls_changes s) (ls_gaps s) 0 (length ?pre) = acc @ pieces before rows gaps t0 i @ ins"
      using head e n len by simp
    moreover have "covered (ls_changes s) (length ?pre + d) = covered rows (j + d) \<and>
        gap_text (ls_gaps s) (length ?pre + d) = gap_text gaps (j + d)" for d
      using al[of "i - t0 + d"] len n(2) ef(1) ij e(1) by (simp add: add.assoc)
    ultimately show ?thesis using cur n(3) unfolding clear_inv_def by simp
  next
    assume p: "plan_one (ls_cur s) (ls_changes s) (ls_gaps s) ef et ins me run now True mint (next_id s)
      = (ls_changes s', ls_gaps s', next_id s')"
    have wf: "wf_rows (length (ls_cur s)) (ls_changes s) (ls_gaps s)" using li by (simp add: loop_inv_def)
    have cl: "clear_at (ls_gaps s) ef et"
      unfolding clear_at_def
    proof (intro allI impI)
      fix p assume p: "ef \<le> p \<and> p \<le> et"
      then obtain d where d: "p = length pre + d" using ef(1) by (metis add_leE le_Suc_ex)
      have "i \<le> t0 + d" "t0 + d \<le> j" using p d ef e by auto
      with e(4) show "gap_text (ls_gaps s) p = []" unfolding d al(2) clear_at_def by blast
    qed
    note st = clear_step[OF p wf 1(3) cl]
    note kc = kept_char_splice[OF 1(3,4) st(1), folded 1(5)]
    have "pieces (ls_cur s') (ls_changes s') (ls_gaps s') 0 ef = pieces (ls_cur s) (ls_changes s) (ls_gaps s) 0 ef"
      by (rule pieces_shift) (auto simp: st(2) kc)
    moreover have "pieces (ls_cur s') (ls_changes s') (ls_gaps s') ef (ef + length ins) = [] @ ins"
      by (rule pieces_chars) (auto simp: st(2) kc)
    ultimately have "pieces (ls_cur s') (ls_changes s') (ls_gaps s') 0 (length ?pre) = acc @ pieces before rows gaps t0 i @ ins"
      unfolding len using pieces_split[of 0 ef "ef + length ins" "ls_cur s'" "ls_changes s'" "ls_gaps s'"] head e by simp
    moreover have "covered (ls_changes s') (length ?pre + d) = covered rows (j + d) \<and>
        gap_text (ls_gaps s') (length ?pre + d) = gap_text gaps (j + d)" for d
    proof -
      have "pre_pos ef et (length ins) (ef + length ins + d) = length pre + (j - t0 + d)"
        using ef e by (simp add: pre_pos_def)
      with al[of "j - t0 + d"] e have "covered (ls_changes s) (pre_pos ef et (length ins) (ef + length ins + d)) = covered rows (j + d)"
        "gap_text (ls_gaps s) (pre_pos ef et (length ins) (ef + length ins + d)) = gap_text gaps (j + d)" by simp_all
      then show ?thesis unfolding len using st[of "ef + length ins + d"] e(2,4) by (auto simp: clear_at_def)
    qed
    ultimately show ?thesis using cur unfolding clear_inv_def by blast
  qed
qed

lemma clear_fold:
  assumes "clear_inv before rows gaps t0 pre acc s" "loop_inv before t0 s mint" "t0 \<le> length before"
    and "edits_ok t0 (length before) es" "clear_edits gaps es"
  shows "let s' = fold (plan_step oc og me run now True mint) es s in
    original (ls_cur s') (ls_changes s') (ls_gaps s') = acc @ pieces_edited before rows gaps t0 es"
  using assms
proof (induction es arbitrary: t0 pre acc s)
  case Nil
  then show ?case using clear_inv_pieces[OF Nil.prems(1), of "Suc (length before)"]
    by (auto simp: original_def clear_inv_def Suc_diff_le)
next
  case (Cons e es)
  obtain i j ins where e: "e = (i, j, ins)" by (cases e)
  from Cons.prems(4,5) have ok: "t0 \<le> i" "i \<le> j" "j \<le> length before" "clear_at gaps i j" "edits_ok j (length before) es" "clear_edits gaps es"
    by (auto simp: e clear_edits_def)
  let ?s = "plan_step oc og me run now True mint (i, j, ins) s"
  have "loop_inv before j ?s mint" by (rule plan_step_inv(1)[OF Cons.prems(2) ok(1-3) refl])
  from Cons.IH[OF clear_inv_step[OF Cons.prems(1,2) ok(1-4) refl] this ok(3,5,6)] show ?case by (simp add: e)
qed

text \<open>The records a plan leaves, as a file state.\<close>

definition planned_state :: "plan \<Rightarrow> file_state" where
  "planned_state pl = \<lparr>fs_changes = map fst (live (plan_changes pl)), fs_gaps = map fst (live (plan_gaps pl))\<rparr>"

lemma state_rows_same: "fst ` set (state_rows (map fst rs)) = fst ` set rs" "map (f \<circ> fst) (state_rows (map fst rs)) = map (f \<circ> fst) rs"
  by (force simp: state_rows_def)+

lemma original_state: "original cur (state_rows (map fst rows)) (state_rows (map fst gaps)) = original cur rows gaps"
proof -
  have "covered (state_rows (map fst rows)) = covered rows" unfolding covered_def state_rows_same by simp
  moreover have "gap_text (state_rows (map fst gaps)) = gap_text gaps"
    by (intro ext, induction gaps) (auto simp: gap_text_Cons state_rows_def)
  ultimately show ?thesis by (simp add: original_def pieces_def kept_char_def)
qed

lemma wf_state: "wf_rows n (state_rows (map fst rows)) (state_rows (map fst gaps)) = wf_rows n rows gaps"
  unfolding wf_rows_def by (simp only: state_rows_same)

lemma untracked_batch_seen:
  assumes wf: "wf_rows (length before) (state_rows (fs_changes st)) (state_rows (fs_gaps st))"
    and fresh: "fresh_ids mint k (state_rows (fs_changes st))" and ok: "edits_ok 0 (length before) es"
    and cl: "clear_edits (state_rows (fs_gaps st)) es"
  shows "u_text (unsuggested (edited before es) (planned_state (plan_edits before st es me run now True mint k))) =
    pieces_edited before (state_rows (fs_changes st)) (state_rows (fs_gaps st)) 0 es"
proof -
  let ?s = "plan_loop before st es me run now True mint k"
  let ?pl = "plan_edits before st es me run now True mint k"
  have "clear_inv before (state_rows (fs_changes st)) (state_rows (fs_gaps st)) 0 [] [] (plan_start before st k)"
    by (simp add: clear_inv_def plan_start_def state_rows_def)
  moreover have "loop_inv before 0 (plan_start before st k) mint"
    using wf fresh by (auto simp: loop_inv_def plan_start_def state_rows_def)
  ultimately have "original (ls_cur ?s) (ls_changes ?s) (ls_gaps ?s) =
      pieces_edited before (state_rows (fs_changes st)) (state_rows (fs_gaps st)) 0 es"
    using clear_fold[OF _ _ _ ok cl] unfolding plan_loop_def Let_def by fastforce
  then have "original (edited before es) (live (plan_changes ?pl)) (live (plan_gaps ?pl)) =
      pieces_edited before (state_rows (fs_changes st)) (state_rows (fs_gaps st)) 0 es"
    unfolding live_plan original_mark plan_loop_result(1)[OF wf fresh ok] .
  moreover have "wf_rows (length (edited before es)) (live (plan_changes ?pl)) (live (plan_gaps ?pl))"
    unfolding live_plan wf_mark by (rule plan_loop_result(2)[OF wf fresh ok])
  ultimately show ?thesis
    using seen_is_original[of "edited before es" "planned_state ?pl"] by (simp add: planned_state_def wf_state original_state)
qed

section \<open>Where a position of the stored text is seen\<close>

text \<open>What is seen before the character at a position.\<close>

definition seen_at :: "ustr \<Rightarrow> row list \<Rightarrow> gap_row list \<Rightarrow> nat \<Rightarrow> ustr" where
  "seen_at chars rows gaps p = pieces chars rows gaps 0 p @ gap_text gaps p"

definition stretch :: "row list \<Rightarrow> gap_row list \<Rightarrow> nat \<Rightarrow> nat \<Rightarrow> bool" where
  "stretch rows gaps i j \<longleftrightarrow> (\<forall>p. i \<le> p \<and> p < j \<longrightarrow> \<not> covered rows p) \<and> (\<forall>p. i < p \<and> p < j \<longrightarrow> gap_text gaps p = [])"

definition run_at :: "ustr \<Rightarrow> row list \<Rightarrow> gap_row list \<Rightarrow> run \<Rightarrow> bool" where
  "run_at chars rows gaps q \<longleftrightarrow> (\<exists>i j. i \<le> j \<and> j \<le> length chars \<and> stretch rows gaps i j \<and>
    r_proj q = str_len8 (seen_at chars rows gaps i) \<and> r_stored q = str_len8 (take i chars) \<and>
    r_len q = str_len8 (take (j - i) (drop i chars)))"

definition gap_marked :: "ustr \<Rightarrow> row list \<Rightarrow> gap_row list \<Rightarrow> mark list \<Rightarrow> nat \<Rightarrow> bool" where
  "gap_marked chars rows gaps marks p \<longleftrightarrow> (gap_text gaps p \<noteq> [] \<longrightarrow>
    (\<exists>m \<in> set marks. m_start m = str_len8 (pieces chars rows gaps 0 p) \<and> m_start m \<le> m_end m) \<and>
    (\<exists>m \<in> set marks. m_end m = str_len8 (seen_at chars rows gaps p) \<and> m_start m \<le> m_end m))"

definition span_marked :: "ustr \<Rightarrow> row list \<Rightarrow> gap_row list \<Rightarrow> mark list \<Rightarrow> nat \<Rightarrow> bool" where
  "span_marked chars rows gaps marks p \<longleftrightarrow> (covered rows p \<longrightarrow>
    (\<exists>m \<in> set marks. m_start m = str_len8 (seen_at chars rows gaps p) \<and> m_end m = str_len8 (seen_at chars rows gaps p)))"

lemma marked_mono:
  "set ms \<subseteq> set ms' \<Longrightarrow> gap_marked chars rows gaps ms p \<Longrightarrow> gap_marked chars rows gaps ms' p"
  "set ms \<subseteq> set ms' \<Longrightarrow> span_marked chars rows gaps ms p \<Longrightarrow> span_marked chars rows gaps ms' p"
  unfolding gap_marked_def span_marked_def by blast+

lemma stretch_pieces:
  assumes "stretch rows gaps i j" "i < j" "j \<le> length chars"
  shows "pieces chars rows gaps 0 j = seen_at chars rows gaps i @ take (j - i) (drop i chars)"
proof -
  have "pieces chars rows gaps i j = gap_text gaps i @ take (j - i) (drop i chars)"
    by (rule pieces_chars) (use assms in \<open>auto simp: stretch_def kept_char_def\<close>)
  then show ?thesis using pieces_split[of 0 i j chars rows gaps] assms(2) by (simp add: seen_at_def)
qed

text \<open>The rendering with the first \<open>j\<close> characters behind it; \<open>k\<close> says up to where gaps are rendered.\<close>

definition seen_inv :: "ustr \<Rightarrow> row list \<Rightarrow> gap_row list \<Rightarrow> nat \<Rightarrow> nat \<Rightarrow> render \<Rightarrow> bool" where
  "seen_inv chars rows gaps j k r \<longleftrightarrow> list_all (run_at chars rows gaps) (rn_runs r) \<and>
    (\<forall>p<k. gap_marked chars rows gaps (rn_marks r) p) \<and> (\<forall>p<j. span_marked chars rows gaps (rn_marks r) p) \<and>
    rn_text r = (if k = j then pieces chars rows gaps 0 j else seen_at chars rows gaps j) \<and>
    (\<forall>a b. rn_open r = Some (a, b) \<longrightarrow> (\<exists>i<j. a = str_len8 (seen_at chars rows gaps i) \<and> b = str_len8 (take i chars) \<and>
      stretch rows gaps i j \<and> (k \<noteq> j \<longrightarrow> gap_text gaps j = [])))"

lemma seen_close:
  assumes "seen_inv chars rows gaps j k r" "j \<le> length chars"
  shows "seen_inv chars rows gaps j k (close_run r)"
proof (cases "rn_open r")
  case None
  then show ?thesis using assms by (simp add: close_run_def)
next
  case (Some o')
  obtain a b where o: "rn_open r = Some (a, b)" using Some by (cases o') auto
  with assms(1) obtain i where i: "i < j" "a = str_len8 (seen_at chars rows gaps i)" "b = str_len8 (take i chars)"
    "stretch rows gaps i j" "k \<noteq> j \<longrightarrow> gap_text gaps j = []" unfolding seen_inv_def by blast
  have "rn_text r = seen_at chars rows gaps i @ take (j - i) (drop i chars)"
    using assms(1) i(5) stretch_pieces[OF i(4,1) assms(2)] by (auto simp: seen_inv_def seen_at_def[of _ _ _ j])
  then have "run_at chars rows gaps \<lparr>r_proj = a, r_stored = b, r_len = str_len8 (rn_text r) - a\<rparr>"
    unfolding run_at_def using i assms(2) by (intro exI[of _ i] exI[of _ j]) simp
  then show ?thesis using assms(1) o by (auto simp: seen_inv_def close_run_def Let_def)
qed

definition ends_marked :: "render \<Rightarrow> bool" where
  "ends_marked r \<longleftrightarrow> (\<exists>m \<in> set (rn_marks r). m_end m = str_len8 (rn_text r) \<and> m_start m \<le> m_end m)"

definition only_marks :: "render \<Rightarrow> render \<Rightarrow> bool" where
  "only_marks r r' \<longleftrightarrow> rn_open r' = None \<and> rn_runs r' = rn_runs r \<and> set (rn_marks r) \<subseteq> set (rn_marks r') \<and>
    (rn_text r' = rn_text r \<or>
     ends_marked r' \<and> (\<exists>m \<in> set (rn_marks r'). m_start m = str_len8 (rn_text r) \<and> m_start m \<le> m_end m))"

lemma only_marks_trans: "only_marks r r1 \<Longrightarrow> only_marks r1 r2 \<Longrightarrow> only_marks r r2"
  unfolding only_marks_def ends_marked_def by auto

lemma fragments_marks: "rn_open r = None \<Longrightarrow> only_marks r (fold render_fragment fs r)"
proof (induction fs arbitrary: r)
  case (Cons f fs)
  have "only_marks r (render_fragment f r)" "rn_open (render_fragment f r) = None"
    using Cons.prems by (auto simp: only_marks_def ends_marked_def render_fragment_def)
  with Cons.IH show ?case by (auto intro: only_marks_trans)
qed (simp add: only_marks_def)

lemma gaps_marks: "rn_open r = None \<Longrightarrow> only_marks r (fold render_gap gs r)"
proof (induction gs arbitrary: r)
  case (Cons g gs)
  have c: "close_run r = r" using Cons.prems by (simp add: close_run_def)
  have "only_marks r (render_gap g r)" using fragments_marks[OF Cons.prems] by (simp add: render_gap_def c)
  moreover have "rn_open (render_gap g r) = None" using calculation by (simp add: only_marks_def)
  ultimately show ?case using Cons.IH only_marks_trans by simp
qed (simp add: only_marks_def)

lemma fold_gaps_close: "gs \<noteq> [] \<Longrightarrow> fold render_gap gs r = fold render_gap gs (close_run r)"
proof -
  have "close_run (close_run r) = close_run r" by (simp add: close_run_def[of "close_run r"])
  then show "gs \<noteq> [] \<Longrightarrow> fold render_gap gs r = fold render_gap gs (close_run r)"
    by (cases gs) (simp_all add: render_gap_def)
qed

lemma seen_gaps:
  assumes inv: "seen_inv chars (state_rows cs) (state_rows gs) j j r" and "j \<le> length chars"
  shows "seen_inv chars (state_rows cs) (state_rows gs) j (Suc j) (fold render_gap (filter (\<lambda>g. g_at g = j) gs) r)"
proof (cases "filter (\<lambda>g. g_at g = j) gs = []")
  case True
  then have "gap_text (state_rows gs) j = []" by (simp add: state_gap_text)
  with inv show ?thesis unfolding True by (auto simp: seen_inv_def seen_at_def gap_marked_def less_Suc_eq)
next
  case False
  let ?gs = "filter (\<lambda>g. g_at g = j) gs" let ?r = "close_run r" let ?r' = "fold render_gap ?gs ?r"
  have i: "seen_inv chars (state_rows cs) (state_rows gs) j j ?r" by (rule seen_close[OF inv assms(2)])
  have m: "only_marks ?r ?r'" by (rule gaps_marks) simp
  have t: "rn_text ?r' = seen_at chars (state_rows cs) (state_rows gs) j"
    using i by (simp add: render_gaps_text seen_inv_def seen_at_def state_gap_text)
  have "gap_marked chars (state_rows cs) (state_rows gs) (rn_marks ?r') j"
    using m t i by (auto simp: gap_marked_def only_marks_def ends_marked_def seen_inv_def seen_at_def)
  with m t i have "seen_inv chars (state_rows cs) (state_rows gs) j (Suc j) ?r'"
    unfolding seen_inv_def only_marks_def by (auto simp: less_Suc_eq intro: marked_mono)
  then show ?thesis using fold_gaps_close[OF False] by simp
qed

lemma seen_char:
  assumes inv: "seen_inv chars (state_rows cs) gaps j (Suc j) r" and j: "j < length chars"
    and sp: "\<forall>c \<in> set cs. has_span c \<longrightarrow> \<not> orphan c"
  shows "seen_inv chars (state_rows cs) gaps (Suc j) (Suc j) (render_char chars cs j r)"
proof -
  let ?R = "state_rows cs"
  have nxt: "pieces chars ?R gaps 0 (Suc j) = seen_at chars ?R gaps j @ kept_char chars ?R j"
    using pieces_split[of 0 j "Suc j" chars ?R gaps] by (simp add: pieces_single seen_at_def)
  show ?thesis
  proof (cases "owner_at cs j")
    case (Some nm)
    then have cov: "covered ?R j" using owner_at_None[OF sp, of j] by simp
    have i: "seen_inv chars ?R gaps j (Suc j) (close_run r)" by (rule seen_close[OF inv]) (use j in simp)
    then have t: "rn_text r = pieces chars ?R gaps 0 (Suc j)" using nxt cov by (simp add: seen_inv_def kept_char_def)
    have ext: "set (rn_marks r) \<subseteq> set (rn_marks (render_char chars cs j r))"
      and rest: "rn_runs (render_char chars cs j r) = rn_runs (close_run r)" "rn_open (render_char chars cs j r) = None"
        "rn_text (render_char chars cs j r) = rn_text r"
      and m: "\<exists>m \<in> set (rn_marks (render_char chars cs j r)). m_start m = str_len8 (rn_text r) \<and> m_end m = str_len8 (rn_text r)"
      using Some by (auto simp: render_char_def Let_def dest: last_in_set)
    have "seen_at chars ?R gaps j = rn_text r" using nxt t cov by (simp add: kept_char_def)
    with m have sm: "span_marked chars ?R gaps (rn_marks (render_char chars cs j r)) j" by (simp add: span_marked_def)
    with i ext rest t show ?thesis unfolding seen_inv_def by (auto simp: less_Suc_eq intro: marked_mono)
  next
    case None
    then have cov: "\<not> covered ?R j" using owner_at_None[OF sp, of j] by simp
    then have "pieces chars ?R gaps 0 (Suc j) = rn_text r @ [chars ! j]" using nxt inv j by (simp add: kept_char_def seen_inv_def)
    moreover have "\<exists>i<Suc j. a = str_len8 (seen_at chars ?R gaps i) \<and> b = str_len8 (take i chars) \<and> stretch ?R gaps i (Suc j)"
      if o: "rn_open (render_char chars cs j r) = Some (a, b)" for a b
    proof (cases "rn_open r")
      case no: None
      then have "a = str_len8 (rn_text r)" "b = str_len8 (take j chars)" using o None by (simp_all add: render_char_def)
      with inv cov show ?thesis by (intro exI[of _ j]) (auto simp: seen_inv_def stretch_def less_Suc_eq)
    next
      case (Some o')
      then have "rn_open r = Some (a, b)" using o None by (simp add: render_char_def)
      with inv obtain i where "i < j" "a = str_len8 (seen_at chars ?R gaps i)" "b = str_len8 (take i chars)" "stretch ?R gaps i j"
        "gap_text gaps j = []" unfolding seen_inv_def by auto
      with cov show ?thesis by (intro exI[of _ i]) (auto simp: stretch_def less_Suc_eq)
    qed
    moreover have "span_marked chars ?R gaps (rn_marks r) j" using cov by (simp add: span_marked_def)
    ultimately show ?thesis using inv None unfolding seen_inv_def by (auto simp: render_char_def less_Suc_eq)
  qed
qed

lemma seen_marks_all:
  assumes wf: "wf_rows (length chars) (state_rows (fs_changes st)) (state_rows (fs_gaps st))"
  shows "list_all (run_at chars (state_rows (fs_changes st)) (state_rows (fs_gaps st))) (u_runs (unsuggested chars st))"
    and "p \<le> length chars \<Longrightarrow> gap_marked chars (state_rows (fs_changes st)) (state_rows (fs_gaps st)) (u_marks (unsuggested chars st)) p"
    and "p < length chars \<Longrightarrow> span_marked chars (state_rows (fs_changes st)) (state_rows (fs_gaps st)) (u_marks (unsuggested chars st)) p"
proof -
  let ?R = "state_rows (fs_changes st)" let ?G = "state_rows (fs_gaps st)"
  have sp: "\<forall>c \<in> set (fs_changes st). has_span c \<longrightarrow> \<not> orphan c" and at: "\<forall>g \<in> set (fs_gaps st). g_at g \<le> length chars"
    using wf by (auto simp: wf_rows_def state_rows_def)
  have flt: "filter (\<lambda>g. min (g_at g) (length chars) = j) (fs_gaps st) = filter (\<lambda>g. g_at g = j) (fs_gaps st)" if "j \<le> length chars" for j
    using at that by (intro filter_cong) auto
  have steps: "seen_inv chars ?R ?G j j (fold (render_at chars st) [0..<j] render_start)" if "j \<le> length chars" for j
    using that
  proof (induction j)
    case 0
    show ?case by (simp add: seen_inv_def render_start_def)
  next
    case (Suc j)
    then have "seen_inv chars ?R ?G j (Suc j) (fold render_gap (filter (\<lambda>g. g_at g = j) (fs_gaps st)) (fold (render_at chars st) [0..<j] render_start))"
      by (intro seen_gaps) simp_all
    from seen_char[OF this _ sp] Suc.prems flt[of j] show ?case by (simp add: render_at_def[of chars st j] Let_def)
  qed
  have "seen_inv chars ?R ?G (length chars) (Suc (length chars))
      (close_run (render_at chars st (length chars) (fold (render_at chars st) [0..<length chars] render_start)))"
    using seen_close[OF seen_gaps[OF steps[OF order_refl] order_refl] order_refl] flt[OF order_refl]
    by (simp add: render_at_def[of chars st "length chars"] Let_def)
  then have i: "list_all (run_at chars ?R ?G) (u_runs (unsuggested chars st))"
      "\<forall>p<Suc (length chars). gap_marked chars ?R ?G (u_marks (unsuggested chars st)) p"
      "\<forall>p<length chars. span_marked chars ?R ?G (u_marks (unsuggested chars st)) p"
    unfolding seen_inv_def unsuggested_def Let_def render_start_def by simp_all
  show "list_all (run_at chars ?R ?G) (u_runs (unsuggested chars st))"
    "p \<le> length chars \<Longrightarrow> gap_marked chars ?R ?G (u_marks (unsuggested chars st)) p"
    "p < length chars \<Longrightarrow> span_marked chars ?R ?G (u_marks (unsuggested chars st)) p" using i by simp_all
qed

section \<open>A range that maps back is clear\<close>

lemma pieces_mono: "i \<le> j \<Longrightarrow> length (pieces chars rows gaps 0 i) \<le> length (pieces chars rows gaps 0 j)"
  using pieces_split[of 0 i j chars rows gaps] by simp

lemma seen_prefix:
  assumes "i < j"
  shows "\<exists>t. pieces chars rows gaps 0 j = seen_at chars rows gaps i @ t"
  using pieces_split[of 0 "Suc i" j chars rows gaps] pieces_split[of 0 i "Suc i" chars rows gaps] assms
  by (simp add: pieces_single seen_at_def)

lemma seen8_mono:
  "i < j \<Longrightarrow> str_len8 (seen_at chars rows gaps i) \<le> str_len8 (pieces chars rows gaps 0 j)"
  "i \<le> j \<Longrightarrow> str_len8 (pieces chars rows gaps 0 i) \<le> str_len8 (pieces chars rows gaps 0 j)"
proof -
  show "i < j \<Longrightarrow> str_len8 (seen_at chars rows gaps i) \<le> str_len8 (pieces chars rows gaps 0 j)"
    using seen_prefix[of i j chars rows gaps] by auto
  show "i \<le> j \<Longrightarrow> str_len8 (pieces chars rows gaps 0 i) \<le> str_len8 (pieces chars rows gaps 0 j)"
    using pieces_split[of 0 i j chars rows gaps] by simp
qed

text \<open>A stored position within a run: the seen offset lies between what is seen before its gap and
  before its character.\<close>

lemma run_position:
  assumes r: "i0 \<le> j0" "j0 \<le> length chars" "stretch rows gaps i0 j0" and i: "i \<le> j0 - i0"
  shows "i = 0 \<and> seen_at chars rows gaps i0 @ take i (drop i0 chars) = seen_at chars rows gaps i0 \<or>
      i > 0 \<and> seen_at chars rows gaps i0 @ take i (drop i0 chars) = pieces chars rows gaps 0 (i0 + i)"
proof -
  have "pieces chars rows gaps 0 (i0 + i) = seen_at chars rows gaps i0 @ take i (drop i0 chars)" if "i > 0"
  proof -
    have "stretch rows gaps i0 (i0 + i)" "i0 + i \<le> length chars" using r i by (auto simp: stretch_def)
    with stretch_pieces[of rows gaps i0 "i0 + i" chars] that show ?thesis by simp
  qed
  then show "i = 0 \<and> seen_at chars rows gaps i0 @ take i (drop i0 chars) = seen_at chars rows gaps i0 \<or>
      i > 0 \<and> seen_at chars rows gaps i0 @ take i (drop i0 chars) = pieces chars rows gaps 0 (i0 + i)"
    by (cases "i = 0") simp_all
qed

text \<open>Stored positions whose range meets no mark.\<close>

definition maps_back :: "ustr \<Rightarrow> row list \<Rightarrow> gap_row list \<Rightarrow> nat \<Rightarrow> nat \<Rightarrow> nat \<Rightarrow> nat \<Rightarrow> bool" where
  "maps_back chars rows gaps a b i j \<longleftrightarrow> i \<le> j \<and> j \<le> length chars \<and> clear_at gaps i j \<and> stretch rows gaps i j \<and>
    a = str_len8 (pieces chars rows gaps 0 i) \<and> b = str_len8 (pieces chars rows gaps 0 j) \<and>
    (0 < j \<longrightarrow> \<not> covered rows (j - 1))"

lemma unmarked_clear:
  assumes gm: "\<And>p. p \<le> length chars \<Longrightarrow> gap_marked chars rows gaps ms p"
    and sm: "\<And>p. p < length chars \<Longrightarrow> span_marked chars rows gaps ms p"
    and none: "\<forall>m \<in> set ms. \<not> (a \<le> m_end m \<and> m_start m \<le> b)"
    and ij: "i \<le> j" "j \<le> length chars" "stretch rows gaps i j"
    and a: "a = str_len8 (pieces chars rows gaps 0 i) \<or> a = str_len8 (seen_at chars rows gaps i)"
    and b: "b = str_len8 (pieces chars rows gaps 0 j) \<or> b = str_len8 (seen_at chars rows gaps j)" and ab: "a \<le> b"
  shows "maps_back chars rows gaps a b i j"
proof -
  have le: "a \<le> str_len8 (seen_at chars rows gaps i)" "str_len8 (pieces chars rows gaps 0 j) \<le> b"
    using a b by (auto simp: seen_at_def)
  have cl: "clear_at gaps i j"
    unfolding clear_at_def
  proof (intro allI impI, rule ccontr)
    fix p assume p: "i \<le> p \<and> p \<le> j" and ne: "gap_text gaps p \<noteq> []"
    then obtain m m' where m: "m \<in> set ms" "m_start m = str_len8 (pieces chars rows gaps 0 p)" "m_start m \<le> m_end m"
      and m': "m' \<in> set ms" "m_end m' = str_len8 (seen_at chars rows gaps p)" "m_start m' \<le> m_end m'"
      using gm[of p] ij unfolding gap_marked_def by fastforce
    have "m_start m \<le> b" using m(2) seen8_mono(2)[of p j chars rows gaps] p le(2) by simp
    then have na: "m_end m < a" using none m(1) by (meson not_le)
    have "p = i"
    proof (rule ccontr)
      assume "p \<noteq> i"
      then have "a \<le> m_start m" using le(1) seen8_mono(1)[of i p chars rows gaps] p m(2) by simp
      with m(3) na show False by simp
    qed
    then have "a = str_len8 (seen_at chars rows gaps i)" using a na m(2,3) by auto
    with m' none ab \<open>p = i\<close> show False by (metis le_trans order_refl)
  qed
  then have ab': "a = str_len8 (pieces chars rows gaps 0 i)" "b = str_len8 (pieces chars rows gaps 0 j)"
    using a b ij by (auto simp: clear_at_def seen_at_def)
  have "\<not> covered rows (j - 1)" if "0 < j"
  proof
    assume c: "covered rows (j - 1)"
    then have "i = j" using ij(1,3) that by (auto simp: stretch_def intro: ccontr)
    have "kept_char chars rows (j - 1) = []" using c by (simp add: kept_char_def)
    then have "seen_at chars rows gaps (j - 1) = pieces chars rows gaps 0 j"
      using pieces_split[of 0 "j - 1" j chars rows gaps] pieces_single[of chars rows gaps "j - 1"] that by (simp add: seen_at_def)
    with sm[of "j - 1"] c ij(2) that obtain m where "m \<in> set ms" "m_start m = b" "m_end m = b"
      unfolding span_marked_def ab'(2) by fastforce
    with none ab show False by auto
  qed
  with ij cl ab' show ?thesis by (simp add: maps_back_def)
qed

lemma to_stored_clear:
  assumes wf: "wf_rows (length chars) (state_rows (fs_changes st)) (state_rows (fs_gaps st))"
    and t: "to_stored (unsuggested chars st) a b = Inr (x, y)"
  shows "\<exists>i j. maps_back chars (state_rows (fs_changes st)) (state_rows (fs_gaps st)) a b i j \<and>
    x = str_len8 (take i chars) \<and> y = str_len8 (take j chars)"
proof -
  let ?R = "state_rows (fs_changes st)" let ?G = "state_rows (fs_gaps st)" let ?u = "unsuggested chars st"
  note all = seen_marks_all[OF wf]
  have tx: "u_text ?u = pieces chars ?R ?G 0 (Suc (length chars))" using seen_is_original[OF wf] by (simp add: original_def)
  from t have ab: "a \<le> b" "is_char_boundary (u_text ?u) a" "is_char_boundary (u_text ?u) b"
    and none: "\<forall>m \<in> set (u_marks ?u). \<not> (a \<le> m_end m \<and> m_start m \<le> b)"
    by (auto simp: to_stored_def find_None_iff split: if_splits option.splits)
  then obtain i' j' where bd: "boundary (u_text ?u) a = Some i'" "boundary (u_text ?u) b = Some j'"
    by (auto simp: is_char_boundary_def)
  show ?thesis
  proof (cases "u_marks ?u = []")
    case True
    with t have xy: "x = a" "y = b" by (auto simp: to_stored_def split: if_splits)
    have st: "stretch ?R ?G i j" if "j \<le> length chars" for i j
      using all(2,3) that True by (auto simp: stretch_def gap_marked_def span_marked_def)
    have pc: "pieces chars ?R ?G 0 i = take i chars" if "i \<le> length chars" for i
      using stretch_pieces[OF st[OF that], of 0] all(2)[of 0] that True
      by (cases "i = 0") (simp_all add: seen_at_def gap_marked_def)
    have u: "u_text ?u = chars" using unsuggested_inv[of chars st] True by simp
    then have ij: "i' \<le> length chars" "a = str_len8 (take i' chars)" "j' \<le> length chars" "b = str_len8 (take j' chars)"
      using bd by (simp_all add: boundary_iff)
    then have "i' \<le> j'" using ab(1) len8_take_le_iff[of i' chars j'] by simp
    with ij xy unmarked_clear[OF all(2,3) none, of i' j'] st[OF ij(3)] pc ab(1) show ?thesis by auto
  next
    case False
    from to_stored_run[OF t False] obtain r where r: "r \<in> set (u_runs ?u)" "r_proj r \<le> a" "b \<le> r_proj r + r_len r"
      "x = r_stored r + a - r_proj r" "y = r_stored r + b - r_proj r" by blast
    with all(1) obtain i0 j0 where q: "i0 \<le> j0" "j0 \<le> length chars" "stretch ?R ?G i0 j0"
      "r_proj r = str_len8 (seen_at chars ?R ?G i0)" "r_stored r = str_len8 (take i0 chars)"
      "r_len r = str_len8 (take (j0 - i0) (drop i0 chars))" by (auto simp: list_all_iff run_at_def)
    let ?b = "take (j0 - i0) (drop i0 chars)"
    have "\<exists>c. u_text ?u = seen_at chars ?R ?G i0 @ ?b @ c"
    proof (cases "i0 < j0")
      case True
      then show ?thesis using stretch_pieces[OF q(3) True q(2)] pieces_split[of 0 j0 "Suc (length chars)" chars ?R ?G] q(2) tx by simp
    next
      case False
      then show ?thesis using seen_prefix[of i0 "Suc (length chars)" chars ?R ?G] q(1,2) tx by simp
    qed
    then obtain c where c: "u_text ?u = seen_at chars ?R ?G i0 @ ?b @ c" by blast
    obtain i where i: "i \<le> length ?b" "a = str_len8 (seen_at chars ?R ?G i0) + str_len8 (take i ?b)"
      using boundary_mid[OF bd(1)[unfolded c]] r(2,3) ab(1) q(4,6) by auto
    obtain j where j: "j \<le> length ?b" "b = str_len8 (seen_at chars ?R ?G i0) + str_len8 (take j ?b)"
      using boundary_mid[OF bd(2)[unfolded c]] r(2,3) ab(1) q(4,6) by auto
    have ij: "i \<le> j" "j \<le> j0 - i0" using i j ab(1) len8_take_le_iff[of i ?b j] q(1,2) by simp_all
    have tk: "take i ?b = take i (drop i0 chars)" "take j ?b = take j (drop i0 chars)" using ij by (simp_all add: min_absorb1)
    have st: "stretch ?R ?G (i0 + i) (i0 + j)" using q(3) ij q(1) by (auto simp: stretch_def)
    have a': "a = str_len8 (pieces chars ?R ?G 0 (i0 + i)) \<or> a = str_len8 (seen_at chars ?R ?G (i0 + i))"
      using run_position[OF q(1-3), of i] ij i(2)[unfolded tk, folded str_len8_simps(3)] by (auto simp del: str_len8_simps(3))
    have b': "b = str_len8 (pieces chars ?R ?G 0 (i0 + j)) \<or> b = str_len8 (seen_at chars ?R ?G (i0 + j))"
      using run_position[OF q(1-3), of j] ij j(2)[unfolded tk, folded str_len8_simps(3)] by (auto simp del: str_len8_simps(3))
    have "maps_back chars ?R ?G a b (i0 + i) (i0 + j)"
      by (rule unmarked_clear[OF all(2,3) none _ _ st a' b' ab(1)]) (use ij q(1,2) in auto)
    moreover have "x = str_len8 (take (i0 + i) chars)" "y = str_len8 (take (i0 + j) chars)"
      using r(4,5) q(4,5) i(2) j(2) tk by (simp_all add: take_add)
    ultimately show ?thesis by blast
  qed
qed

section \<open>Edits seen and edits stored\<close>

text \<open>The same edit in the text people see and in the stored text.\<close>

definition same_edit :: "ustr \<Rightarrow> row list \<Rightarrow> gap_row list \<Rightarrow> edit_in \<Rightarrow> edit_in \<Rightarrow> bool" where
  "same_edit chars rows gaps c s \<longleftrightarrow> (case (c, s) of ((a, b, ins), (i, j, ins')) \<Rightarrow> ins' = ins \<and> i \<le> j \<and> j \<le> length chars \<and>
    clear_at gaps i j \<and> a = length (pieces chars rows gaps 0 i) \<and> b = length (pieces chars rows gaps 0 j) \<and>
    (\<forall>p. i \<le> p \<and> p < j \<longrightarrow> \<not> covered rows p) \<and> (0 < j \<longrightarrow> \<not> covered rows (j - 1)))"

lemma pieces_strict:
  assumes "p < j" "j \<le> length chars" "\<not> covered rows (j - 1)"
  shows "length (pieces chars rows gaps 0 p) < length (pieces chars rows gaps 0 j)"
proof -
  have "length (pieces chars rows gaps 0 (j - 1)) < length (pieces chars rows gaps 0 j)"
    using pieces_split[of 0 "j - 1" j chars rows gaps] pieces_single[of chars rows gaps "j - 1"] assms
    by (cases j) (simp_all add: kept_char_def)
  moreover have "length (pieces chars rows gaps 0 p) \<le> length (pieces chars rows gaps 0 (j - 1))"
    using assms(1) by (intro pieces_mono) simp
  ultimately show ?thesis by simp
qed

lemma same_edits:
  assumes "list_all2 (same_edit chars rows gaps) cs es"
    and "edits_ok (length (pieces chars rows gaps 0 t0)) (length (original chars rows gaps)) cs"
    and "t0 \<le> length chars" "0 < t0 \<longrightarrow> \<not> covered rows (t0 - 1)"
  shows "edits_ok t0 (length chars) es \<and> clear_edits gaps es \<and>
    edited_from (length (pieces chars rows gaps 0 t0)) (original chars rows gaps) cs = pieces_edited chars rows gaps t0 es"
  using assms
proof (induction cs es arbitrary: t0 rule: list_all2_induct)
  case Nil
  then show ?case using pieces_split[of 0 t0 "Suc (length chars)" chars rows gaps] by (simp add: original_def clear_edits_def)
next
  case (Cons c cs e es)
  obtain a b ins i j where c: "c = (a, b, ins)" "e = (i, j, ins)" using Cons(1) by (cases c; cases e) (auto simp: same_edit_def)
  have s: "i \<le> j" "j \<le> length chars" "clear_at gaps i j" "a = length (pieces chars rows gaps 0 i)"
    "b = length (pieces chars rows gaps 0 j)" "0 < j \<longrightarrow> \<not> covered rows (j - 1)"
    using Cons(1) c by (simp_all add: same_edit_def)
  have ok: "length (pieces chars rows gaps 0 t0) \<le> a" "edits_ok b (length (original chars rows gaps)) cs" using Cons.prems(1) c by auto
  have "t0 \<le> i"
  proof (rule ccontr)
    assume "\<not> t0 \<le> i"
    then have "length (pieces chars rows gaps 0 i) < length (pieces chars rows gaps 0 t0)"
      using Cons.prems(2,3) by (intro pieces_strict) auto
    with ok(1) s(4) show False by simp
  qed
  note IH = Cons.IH[OF ok(2)[unfolded s(5)] s(2,6)]
  have "take (a - length (pieces chars rows gaps 0 t0)) (drop (length (pieces chars rows gaps 0 t0)) (original chars rows gaps)) =
      pieces chars rows gaps t0 i"
    using pieces_split[of 0 t0 "Suc (length chars)" chars rows gaps] pieces_split[of t0 i "Suc (length chars)" chars rows gaps]
      pieces_split[of 0 t0 i chars rows gaps] \<open>t0 \<le> i\<close> s by (simp add: original_def)
  with IH c s \<open>t0 \<le> i\<close> show ?case by (simp add: clear_edits_def)
qed

end
