(* ===== verification/Source_Command.thy ===== *)
theory Source_Command
  imports Sync_Diff Track_Untracked
begin

text \<open>
  The command that runs a source change, \<open>SourceChangeCommand::prepare\<close> of
  \<open>room/source_change.rs\<close>, and the edits it makes of a file, \<open>apply_planned\<close> and
  \<open>untracked_edits\<close> of \<open>document/track.rs\<close>.  A sync change is checked against the text people see,
  with pending suggestions left out, and its offsets are mapped onto the stored text.  The shared
  document is an argument that gives a file's stored text and its resolved records.  The theorems
  follow a change from the client's text to the text people see afterwards.
\<close>

section \<open>Edits through the planner\<close>

fun to_code_points :: "'t text_ops \<Rightarrow> 't \<Rightarrow> edit list \<Rightarrow> ustr + edit_in list" where
  "to_code_points T x [] = Inr []"
| "to_code_points T x (e # es) =
    (case (convert_pos T x (ed_at e), convert_pos T x (usize_add (ed_at e) (ed_delete e))) of
       (Some from, Some to) \<Rightarrow> rbind (to_code_points T x es) (\<lambda>ps. Inr ((from, to, ed_insert e) # ps))
     | _ \<Rightarrow> Inl (lit ''an edit does not fit the file''))"

definition apply_planned ::
  "'t text_ops \<Rightarrow> 't \<Rightarrow> file_state \<Rightarrow> edit list \<Rightarrow> author \<Rightarrow> ustr option \<Rightarrow> int \<Rightarrow> bool \<Rightarrow> (nat \<Rightarrow> ustr) \<Rightarrow> nat
    \<Rightarrow> 't \<times> (ustr + plan option)" where
  "apply_planned T x st edits me run now untracked mint k =
    (case to_code_points T x edits of
       Inl why \<Rightarrow> (x, Inl why)
     | Inr cps \<Rightarrow>
         (let (x', fits) = apply_text_edits T edits x in
          if \<not> fits then (x', Inl (lit ''an edit does not fit the file''))
          else if untracked \<and> fs_changes st = [] \<and> fs_gaps st = [] then (x', Inr None)
          else (x', Inr (Some (plan_edits (text_string T x) st cps me run now untracked mint k)))))"

definition nobody :: author where
  "nobody = \<lparr>who = [], author_name = []\<rparr>"

definition untracked_edits :: "'t text_ops \<Rightarrow> 't \<Rightarrow> file_state \<Rightarrow> edit list \<Rightarrow> (nat \<Rightarrow> ustr) \<Rightarrow> nat \<Rightarrow> 't \<times> (ustr + plan option)" where
  "untracked_edits T x st edits mint k = apply_planned T x st edits nobody None 0 True mint k"

section \<open>Preparing a change\<close>

type_synonym doc_files = "ustr \<Rightarrow> (ustr \<times> file_state) option"

definition doc_unsuggested :: "doc_files \<Rightarrow> ustr \<Rightarrow> unsug option" where
  "doc_unsuggested doc file_id = map_option (\<lambda>(chars, st). unsuggested chars st) (doc file_id)"

definition touched_paths :: "source_change \<Rightarrow> ustr list" where
  "touched_paths change =
    fold bset_insert (map pt_path (sc_patches change) @ map dp_path (sc_dependencies change) @ map df_path (sc_delete change)) []"

fun project_files :: "doc_files \<Rightarrow> source_tree \<Rightarrow> ustr list \<Rightarrow> (ustr \<times> unsug) list \<times> ustr list" where
  "project_files doc tree [] = ([], [])"
| "project_files doc tree (path # paths) =
    (let (projected, missing) = project_files doc tree paths in
     case map_of (st_files tree) path of
       None \<Rightarrow> (projected, missing)
     | Some fl \<Rightarrow>
         (case doc_unsuggested doc (sf_file_id fl) of
            Some u \<Rightarrow> ((path, u) # projected, missing)
          | None \<Rightarrow> (projected, path # missing)))"

definition seen_tree :: "source_tree \<Rightarrow> (ustr \<times> unsug) list \<Rightarrow> source_tree" where
  "seen_tree tree projected = tree\<lparr>st_files :=
    map (\<lambda>(path, fl). (path, case map_of projected path of Some u \<Rightarrow> fl\<lparr>sf_text := u_text u\<rparr> | None \<Rightarrow> fl)) (st_files tree)\<rparr>"

text \<open>An index into a map with no such key panics: \<open>None\<close>.\<close>

fun check_suggested :: "doc_files \<Rightarrow> source_tree \<Rightarrow> (ustr \<times> unsug) list \<Rightarrow> delete_file list \<Rightarrow> (agent_error + unit) option" where
  "check_suggested doc tree projected [] = Some (Inr ())"
| "check_suggested doc tree projected (f # fs) =
    (case map_of projected (df_path f) of
       None \<Rightarrow> check_suggested doc tree projected fs
     | Some u \<Rightarrow>
         if has_suggestions u
         then (case map_of (st_files tree) (df_path f) of
                 None \<Rightarrow> None
               | Some fl \<Rightarrow>
                   Some (Inl (Agent_Suggestion (df_path f)
                     (case doc (sf_file_id fl) of
                        None \<Rightarrow> []
                      | Some (_, st) \<Rightarrow> (case fs_changes st of [] \<Rightarrow> [] | c # _ \<Rightarrow> c_id c)))))
         else check_suggested doc tree projected fs)"

fun stored_reason :: "to_stored_error \<Rightarrow> ustr" where
  "stored_reason Outside_File = lit ''range is outside the file''"
| "stored_reason Off_Boundary = lit ''range is not on character boundaries''"
| "stored_reason (Meets_Change c) = c"

fun store_patches :: "(ustr \<times> unsug) list \<Rightarrow> patch list \<Rightarrow> (agent_error + patch list) option" where
  "store_patches projected [] = Some (Inr [])"
| "store_patches projected (p # ps) =
    (case map_of projected (pt_path p) of
       None \<Rightarrow> None
     | Some u \<Rightarrow>
         (case to_stored u (pt_start p) (pt_end p) of
            Inl pending \<Rightarrow> Some (Inl (Agent_Suggestion (pt_path p) (stored_reason pending)))
          | Inr (from, to) \<Rightarrow>
              (case store_patches projected ps of
                 Some (Inr qs) \<Rightarrow> Some (Inr (p\<lparr>pt_start := from, pt_end := to\<rparr> # qs))
               | r \<Rightarrow> r)))"

definition prepare_sync ::
  "libs \<Rightarrow> source_tree \<Rightarrow> doc_files \<Rightarrow> source_change \<Rightarrow> origin \<Rightarrow> path_rules \<Rightarrow> nat \<Rightarrow> (agent_error + source_change option) option" where
  "prepare_sync lb tree doc change origin rules max_files =
    (case project_files doc tree (touched_paths change) of (projected, missing) \<Rightarrow>
     if missing \<noteq> [] then Some (Inl (Agent_Changed missing))
     else (case validate_source_change lb (seen_tree tree projected) change origin rules max_files of
       Inl e \<Rightarrow> Some (Inl e)
     | Inr _ \<Rightarrow>
         (case check_suggested doc tree projected (sc_delete change) of
            None \<Rightarrow> None
          | Some (Inl e) \<Rightarrow> Some (Inl e)
          | Some (Inr _) \<Rightarrow>
              (case store_patches projected (sc_patches change) of
                 None \<Rightarrow> None
               | Some (Inl e) \<Rightarrow> Some (Inl e)
               | Some (Inr ps) \<Rightarrow>
                   (let stored = change\<lparr>sc_patches := ps\<rparr> in
                    Some (Inr (if change_is_empty stored then None else Some stored)))))))"

definition prepare_change ::
  "libs \<Rightarrow> source_tree \<Rightarrow> doc_files \<Rightarrow> source_change \<Rightarrow> origin \<Rightarrow> path_rules \<Rightarrow> nat \<Rightarrow> (agent_error + source_change option) option" where
  "prepare_change lb tree doc change origin rules max_files =
    (case origin of
       Agent \<Rightarrow>
         Some (rbind (validate_source_change lb tree change origin rules max_files) (\<lambda>_. Inr (Some change)))
     | Sync _ \<Rightarrow> prepare_sync lb tree doc change origin rules max_files)"

section \<open>What is projected and stored\<close>

lemma project_files_result:
  "project_files doc tree paths = (pr, []) \<Longrightarrow> path \<in> set paths \<Longrightarrow> map_of (st_files tree) path = Some fl \<Longrightarrow>
    map_of pr path = doc_unsuggested doc (sf_file_id fl) \<and> map_of pr path \<noteq> None"
proof (induction paths arbitrary: pr)
  case (Cons q paths)
  obtain pr' miss where r: "project_files doc tree paths = (pr', miss)" by fastforce
  from Cons.prems(1) r have miss: "miss = []" and pr: "pr = pr' \<or> (\<exists>u. pr = (q, u) # pr')"
    by (auto split: option.splits)
  show ?case
  proof (cases "path = q")
    case True
    with Cons.prems r miss show ?thesis by (auto split: option.splits)
  next
    case False
    then have "map_of pr path = map_of pr' path" using pr by auto
    moreover have "map_of pr' path = doc_unsuggested doc (sf_file_id fl) \<and> map_of pr' path \<noteq> None"
      using Cons.IH[OF r[unfolded miss] _ Cons.prems(3)] Cons.prems(2) False by (metis set_ConsD)
    ultimately show ?thesis by metis
  qed
qed simp

lemma project_files_sound:
  "project_files doc tree paths = (pr, miss) \<Longrightarrow> map_of pr path = Some u \<Longrightarrow>
    \<exists>fl. map_of (st_files tree) path = Some fl \<and> doc_unsuggested doc (sf_file_id fl) = Some u"
proof (induction paths arbitrary: pr miss)
  case (Cons q paths)
  obtain pr' miss' where r: "project_files doc tree paths = (pr', miss')" by fastforce
  from Cons.prems(1) r have "pr = pr' \<or> (\<exists>u fl. pr = (q, u) # pr' \<and> map_of (st_files tree) q = Some fl \<and>
      doc_unsuggested doc (sf_file_id fl) = Some u)"
    by (auto split: option.splits)
  with Cons.IH[OF r] Cons.prems(2) show ?case by (auto split: if_splits)
qed simp

lemma seen_tree_lookup: "map_of (st_files (seen_tree tree pr)) path =
    map_option (\<lambda>fl. case map_of pr path of Some u \<Rightarrow> fl\<lparr>sf_text := u_text u\<rparr> | None \<Rightarrow> fl) (map_of (st_files tree) path)"
proof -
  have "map_of (map (\<lambda>(k, v). (k, f k v)) xs) path = map_option (f path) (map_of xs path)" for f :: "ustr \<Rightarrow> source_file \<Rightarrow> source_file" and xs
    by (induction xs) auto
  then show ?thesis by (simp add: seen_tree_def)
qed

lemma set_touched: "set (touched_paths change) =
    set (map pt_path (sc_patches change)) \<union> set (map dp_path (sc_dependencies change)) \<union> set (map df_path (sc_delete change))"
proof -
  have "set (fold bset_insert xs ys) = set xs \<union> set ys" for xs ys by (induction xs arbitrary: ys) auto
  then show ?thesis by (auto simp: touched_paths_def)
qed

definition stored_patch :: "unsug \<Rightarrow> patch \<Rightarrow> patch" where
  "stored_patch u p =
    (case to_stored u (pt_start p) (pt_end p) of Inr (a, b) \<Rightarrow> p\<lparr>pt_start := a, pt_end := b\<rparr> | Inl _ \<Rightarrow> p)"

lemma stored_patch_path [simp]: "pt_path (stored_patch u p) = pt_path p"
  by (auto simp: stored_patch_def split: sum.splits)

lemma store_patches_result:
  assumes "store_patches pr ps = Some (Inr qs)" "\<And>p. p \<in> set ps \<Longrightarrow> pt_path p = path \<Longrightarrow> map_of pr path = Some u"
  shows "filter (\<lambda>q. pt_path q = path) qs = map (stored_patch u) (filter (\<lambda>p. pt_path p = path) ps) \<and>
    (\<forall>p \<in> set ps. pt_path p = path \<longrightarrow> (\<exists>a b. to_stored u (pt_start p) (pt_end p) = Inr (a, b)))"
  using assms
proof (induction ps arbitrary: qs)
  case (Cons p ps)
  from Cons.prems(1) obtain v a b qs' where v: "map_of pr (pt_path p) = Some v" "to_stored v (pt_start p) (pt_end p) = Inr (a, b)"
    "store_patches pr ps = Some (Inr qs')" "qs = p\<lparr>pt_start := a, pt_end := b\<rparr> # qs'"
    by (auto split: option.splits sum.splits)
  note IH = Cons.IH[OF v(3) Cons.prems(2)[OF list.set_intros(2)]]
  show ?case
  proof (cases "pt_path p = path")
    case True
    then have "v = u" using Cons.prems(2)[of p] v(1) by simp
    then have "stored_patch u p = p\<lparr>pt_start := a, pt_end := b\<rparr>" using v(2) by (simp add: stored_patch_def)
    with IH v(2,4) True \<open>v = u\<close> show ?thesis by simp
  next
    case False
    with IH v(4) show ?thesis by simp
  qed
qed simp

section \<open>One patch, seen and stored\<close>

lemma stored_patch_edit:
  assumes wf: "wf_rows (length chars) (state_rows (fs_changes st)) (state_rows (fs_gaps st))"
    and p: "patch_at (u_text (unsuggested chars st)) p c"
    and t: "to_stored (unsuggested chars st) (pt_start p) (pt_end p) = Inr (x, y)"
  shows "\<exists>s. same_edit chars (state_rows (fs_changes st)) (state_rows (fs_gaps st)) c s \<and>
    patch_at chars (stored_patch (unsuggested chars st) p) s"
proof -
  let ?R = "state_rows (fs_changes st)" let ?G = "state_rows (fs_gaps st)" let ?u = "u_text (unsuggested chars st)"
  obtain i j where ij: "maps_back chars ?R ?G (pt_start p) (pt_end p) i j" "x = str_len8 (take i chars)" "y = str_len8 (take j chars)"
    using to_stored_clear[OF wf t] by blast
  then have le: "i \<le> j" "j \<le> length chars" "clear_at ?G i j" "stretch ?R ?G i j" "0 < j \<longrightarrow> \<not> covered ?R (j - 1)"
    by (simp_all add: maps_back_def)
  obtain a b ins where c: "c = (a, b, ins)" by (metis prod_cases3)
  with p have pa: "a \<le> b" "b \<le> length ?u" "pt_start p = str_len8 (take a ?u)" "pt_end p = str_len8 (take b ?u)"
    "take (b - a) (drop a ?u) = pt_exact p" "ins = normalise_lines (pt_replacement p)" by (simp_all add: patch_at_def)
  have tx: "?u = pieces chars ?R ?G 0 (Suc (length chars))" using seen_is_original[OF wf] by (simp add: original_def)
  have tk: "take (length (pieces chars ?R ?G 0 k)) ?u = pieces chars ?R ?G 0 k" "length (pieces chars ?R ?G 0 k) \<le> length ?u"
    if "k \<le> length chars" for k using pieces_split[of 0 k "Suc (length chars)" chars ?R ?G] that tx by simp_all
  have "a = length (pieces chars ?R ?G 0 i)" "b = length (pieces chars ?R ?G 0 j)"
    using str_len8_take_inj[of a ?u "length (pieces chars ?R ?G 0 i)"] str_len8_take_inj[of b ?u "length (pieces chars ?R ?G 0 j)"]
      ij(1) pa tk[of i] tk[of j] le by (simp_all add: maps_back_def)
  moreover have "pieces chars ?R ?G i j = take (j - i) (drop i chars)"
    using pieces_chars[of i j ?G "[]" chars ?R "take (j - i) (drop i chars)"] le
    by (auto simp: clear_at_def stretch_def kept_char_def)
  moreover have "take (b - a) (drop a ?u) = pieces chars ?R ?G i j"
    using calculation(1,2) pieces_split[of 0 i "Suc (length chars)" chars ?R ?G] pieces_split[of i j "Suc (length chars)" chars ?R ?G]
      pieces_split[of 0 i j chars ?R ?G] le tx by simp
  ultimately have "same_edit chars ?R ?G c (i, j, ins)" "patch_at chars (stored_patch (unsuggested chars st) p) (i, j, ins)"
    using le c pa ij(2,3) t by (auto simp: same_edit_def patch_at_def stored_patch_def stretch_def)
  then show ?thesis by blast
qed

lemma patches_ascend:
  assumes "list_all2 (patch_at s) ps cs" "edits_ok t0 (length s) cs"
  shows "sorted (map (\<lambda>p. (pt_start p, pt_end p)) ps) \<and> (\<forall>p \<in> set ps. str_len8 (take t0 s) \<le> pt_start p)"
  using assms
proof (induction ps cs arbitrary: t0 rule: list_all2_induct)
  case (Cons p ps c cs)
  obtain i j ins where c: "c = (i, j, ins)" by (metis prod_cases3)
  with Cons have p: "i \<le> j" "pt_start p = str_len8 (take i s)" "pt_end p = str_len8 (take j s)" "t0 \<le> i"
    and IH: "sorted (map (\<lambda>p. (pt_start p, pt_end p)) ps) \<and> (\<forall>q \<in> set ps. str_len8 (take j s) \<le> pt_start q)"
    by (auto simp: patch_at_def)
  have m: "str_len8 (take t0 s) \<le> pt_start p" "pt_start p \<le> pt_end p" using p str_len8_take_mono by auto
  have ends: "\<forall>q \<in> set ps. pt_start q \<le> pt_end q"
    using Cons(2) by (fastforce simp: list_all2_conv_all_nth in_set_conv_nth patch_at_def str_len8_take_mono)
  have "(pt_start p, pt_end p) \<le> (pt_start q, pt_end q) \<and> str_len8 (take t0 s) \<le> pt_start q" if "q \<in> set ps" for q
  proof -
    have "pt_end p \<le> pt_start q" "pt_start q \<le> pt_end q" using IH ends p(3) that by auto
    with m show ?thesis by (auto simp: less_eq_prod_def)
  qed
  with IH m show ?case by auto
qed simp

lemma sort_stored:
  assumes "sorted (map (\<lambda>p. (pt_start p, pt_end p)) (map g (sort_key (\<lambda>p. (pt_start p, pt_end p)) ps)))"
    and "\<And>a b. a \<in> set ps \<Longrightarrow> b \<in> set ps \<Longrightarrow> ((pt_start (g a), pt_end (g a)) = (pt_start (g b), pt_end (g b))) =
      ((pt_start a, pt_end a) = (pt_start b, pt_end b))"
  shows "sort_key (\<lambda>p. (pt_start p, pt_end p)) (map g ps) = map g (sort_key (\<lambda>p. (pt_start p, pt_end p)) ps)"
proof (rule properties_for_sort_key)
  let ?k = "\<lambda>p. (pt_start p, pt_end p)"
  fix q assume "q \<in> set (map g (sort_key ?k ps))"
  then obtain a where a: "a \<in> set ps" "q = g a" by auto
  have "filter (\<lambda>x. ?k q = ?k x) (map g xs) = map g (filter (\<lambda>x. ?k x = ?k a) xs)" if "set xs \<subseteq> set ps" for xs
  proof -
    have "(?k (g a) = ?k (g x)) = (?k x = ?k a)" if "x \<in> set xs" for x
      using assms(2)[OF a(1), of x] that \<open>set xs \<subseteq> set ps\<close> by auto
    then have "filter (\<lambda>x. ?k (g a) = ?k (g x)) xs = filter (\<lambda>x. ?k x = ?k a) xs" by (intro filter_cong) simp_all
    then show ?thesis unfolding filter_map comp_def a(2) by simp
  qed
  then show "filter (\<lambda>x. ?k q = ?k x) (map g (sort_key ?k ps)) = filter (\<lambda>x. ?k q = ?k x) (map g ps)"
    using sort_key_stable[of ?k "?k a" ps] by simp
qed (use assms(1) in simp_all)

section \<open>The edits of a file\<close>

lemma to_code_points_at:
  assumes "text_laws T" "text_string T x = s" "str_len16 s < usize_max" "edits_at s edits cs"
  shows "to_code_points T x edits = Inr cs"
  using assms(4)
proof (induction edits arbitrary: cs)
  case Nil
  then show ?case by (simp add: edits_at_def)
next
  case (Cons e es)
  then obtain i j ins cs' where c: "cs = (i, j, ins) # cs'" "edit_at s e (i, j, ins)" "edits_at s es cs'"
    by (auto simp: edits_at_def list_all2_Cons1)
  then have e: "i \<le> j" "j \<le> length s" "ed_at e = str_len16 (take i s)" "ed_at e + ed_delete e = str_len16 (take j s)" "ins = ed_insert e"
    by (simp_all add: edit_at_def)
  have "usize_add (ed_at e) (ed_delete e) = str_len16 (take j s)"
    using e(4) assms(3) str_len16_take_le[of j s] by (simp add: usize_add_def)
  moreover have "convert_pos T x (str_len16 (take i s)) = Some i" "convert_pos T x (str_len16 (take j s)) = Some j"
    using text_laws.convert[OF assms(1)] assms(2) e(1,2) by auto
  ultimately show ?case using Cons.IH[OF c(3)] c(1) e(3,5) by simp
qed

definition untracked_state :: "file_state \<Rightarrow> plan option \<Rightarrow> file_state" where
  "untracked_state st r = (case r of None \<Rightarrow> st | Some pl \<Rightarrow> planned_state pl)"

lemma pieces_plain: "i \<le> j \<Longrightarrow> j \<le> length t \<Longrightarrow> pieces t [] [] i j = take (j - i) (drop i t)"
  using pieces_chars[of i j "[]" "[]" t "[]" "take (j - i) (drop i t)"] by (simp add: kept_char_def covered_def)

lemma pieces_plain_end: "i \<le> length t \<Longrightarrow> pieces t [] [] i (Suc (length t)) = drop i t"
  using pieces_split[of i "length t" "Suc (length t)" t "[]" "[]"] pieces_plain[of i "length t" t]
  by (simp add: pieces_single kept_char_def)

lemma pieces_edited_plain: "edits_ok t0 (length t) es \<Longrightarrow> t0 \<le> length t \<Longrightarrow> pieces_edited t [] [] t0 es = edited_from t0 t es"
proof (induction es arbitrary: t0)
  case (Cons e es)
  then show ?case by (cases e) (auto simp: pieces_plain)
qed (simp add: pieces_plain_end)

lemma untracked_edits_seen:
  assumes T: "text_laws T" "text_string T x = chars" "str_len16 chars < usize_max" and e: "edits_at chars edits es"
    and wf: "wf_rows (length chars) (state_rows (fs_changes st)) (state_rows (fs_gaps st))"
    and fresh: "fresh_ids mint k (state_rows (fs_changes st))"
    and ok: "edits_ok 0 (length chars) es" "clear_edits (state_rows (fs_gaps st)) es"
  shows "\<exists>x' r. untracked_edits T x st edits mint k = (x', Inr r) \<and> text_string T x' = edited chars es \<and>
    u_text (unsuggested (text_string T x') (untracked_state st r)) =
      pieces_edited chars (state_rows (fs_changes st)) (state_rows (fs_gaps st)) 0 es"
proof -
  obtain x' b where r: "apply_text_edits T edits x = (x', b)" by fastforce
  from apply_edits_result[OF T e r] ok(1) have x': "b" "text_string T x' = edited chars es" by simp_all
  note cp = to_code_points_at[OF T e]
  show ?thesis
  proof (cases "fs_changes st = [] \<and> fs_gaps st = []")
    case True
    then have "u_text (unsuggested (edited chars es) st) = edited chars es"
      using seen_is_original[of "edited chars es" st] pieces_plain_end[of 0 "edited chars es"]
      by (simp add: original_def state_rows_def wf_rows_def)
    then show ?thesis using True cp r x' pieces_edited_plain[OF ok(1)]
      by (simp add: untracked_edits_def apply_planned_def untracked_state_def state_rows_def edited_def)
  next
    case False
    then show ?thesis using cp r x' T(2) untracked_batch_seen[OF wf fresh ok, of nobody None 0]
      by (auto simp: untracked_edits_def apply_planned_def untracked_state_def)
  qed
qed

section \<open>A prepared change\<close>

lemma prepared_parts:
  assumes "prepare_change lb tree doc change (Sync pv) rules max_files = Some (Inr (Some change2))"
  obtains pr where "project_files doc tree (touched_paths change) = (pr, [])"
    "validate_source_change lb (seen_tree tree pr) change (Sync pv) rules max_files = Inr ()"
    "store_patches pr (sc_patches change) = Some (Inr (sc_patches change2))"
  using assms by (auto simp: prepare_change_def prepare_sync_def Let_def split: prod.splits if_splits sum.splits option.splits)

abbreviation range_of :: "patch \<Rightarrow> nat \<times> nat" where
  "range_of p \<equiv> (pt_start p, pt_end p)"

lemma prepared_file:
  assumes prep: "prepare_change lb tree doc change (Sync pv) rules max_files = Some (Inr (Some change2))"
    and held: "map_of (st_files tree) path = Some fl" "doc (sf_file_id fl) = Some (sf_text fl, st)"
    and wf: "wf_rows (length (sf_text fl)) (state_rows (fs_changes st)) (state_rows (fs_gaps st))"
  defines "ps \<equiv> sort_key range_of (filter (\<lambda>p. pt_path p = path) (sc_patches change))"
  shows "\<exists>cs es. list_all2 (patch_at (u_text (unsuggested (sf_text fl) st))) ps cs \<and>
    edits_ok 0 (length (u_text (unsuggested (sf_text fl) st))) cs \<and>
    list_all2 (same_edit (sf_text fl) (state_rows (fs_changes st)) (state_rows (fs_gaps st))) cs es \<and>
    list_all2 (patch_at (sf_text fl)) (sort_key range_of (filter (\<lambda>p. pt_path p = path) (sc_patches change2))) es"
proof -
  let ?u = "unsuggested (sf_text fl) st" and ?chars = "sf_text fl" and ?fs = "filter (\<lambda>p. pt_path p = path) (sc_patches change)"
  let ?R = "state_rows (fs_changes st)" let ?G = "state_rows (fs_gaps st)"
  obtain pr where pr: "project_files doc tree (touched_paths change) = (pr, [])"
    "validate_source_change lb (seen_tree tree pr) change (Sync pv) rules max_files = Inr ()"
    "store_patches pr (sc_patches change) = Some (Inr (sc_patches change2))" using prepared_parts[OF prep] .
  have proj: "map_of pr path = Some ?u" if "p \<in> set (sc_patches change)" "pt_path p = path" for p
    using project_files_result[OF pr(1), of path fl] that held by (auto simp: set_touched doc_unsuggested_def)
  have sp: "filter (\<lambda>p. pt_path p = path) (sc_patches change2) = map (stored_patch ?u) ?fs"
    "\<And>p. p \<in> set ?fs \<Longrightarrow> \<exists>a b. to_stored ?u (pt_start p) (pt_end p) = Inr (a, b)"
    using store_patches_result[OF pr(3), of path ?u] proj by auto
  have "\<exists>c s. patch_at (u_text ?u) p c \<and> same_edit ?chars ?R ?G c s \<and> patch_at ?chars (stored_patch ?u p) s" if p: "p \<in> set ?fs" for p
  proof -
    obtain fl' c where "map_of (st_files (seen_tree tree pr)) (pt_path p) = Some fl'" "patch_at (sf_text fl') p c"
      using validated_patch_at[OF pr(2), of p] p by auto
    then have c: "patch_at (u_text ?u) p c" using p proj held(1) by (auto simp: seen_tree_lookup)
    obtain a b where "to_stored ?u (pt_start p) (pt_end p) = Inr (a, b)" using sp(2)[OF p] by blast
    from stored_patch_edit[OF wf c this] c show ?thesis by blast
  qed
  then obtain c s where cs: "\<And>p. p \<in> set ?fs \<Longrightarrow> patch_at (u_text ?u) p (c p) \<and> same_edit ?chars ?R ?G (c p) (s p) \<and> patch_at ?chars (stored_patch ?u p) (s p)"
    by metis
  have l: "list_all2 (patch_at (u_text ?u)) ps (map c ps)" "list_all2 (same_edit ?chars ?R ?G) (map c ps) (map s ps)"
    "list_all2 (patch_at ?chars) (map (stored_patch ?u) ps) (map s ps)"
    using cs by (simp_all add: list_all2_map1 list_all2_map2 list_all2_same ps_def)
  have ok: "edits_ok 0 (length (u_text ?u)) (map c ps)"
    using before_ranges_ok[OF l(1) validated_apart[OF pr(2), of path, folded ps_def], of 0] by simp
  have oke: "edits_ok 0 (length ?chars) (map s ps)"
    using same_edits[OF l(2), of 0] ok seen_is_original[OF wf] by simp
  have "sort_key range_of (map (stored_patch ?u) ?fs) = map (stored_patch ?u) ps"
    unfolding ps_def
  proof (rule sort_stored)
    show "sorted (map range_of (map (stored_patch ?u) (sort_key range_of ?fs)))"
      using patches_ascend[OF l(3) oke] by (simp add: ps_def)
    fix a b assume ab: "a \<in> set ?fs" "b \<in> set ?fs"
    show "(range_of (stored_patch ?u a) = range_of (stored_patch ?u b)) = (range_of a = range_of b)"
    proof
      assume "range_of a = range_of b"
      then show "range_of (stored_patch ?u a) = range_of (stored_patch ?u b)" by (auto simp: stored_patch_def split: sum.splits)
    next
      assume eq: "range_of (stored_patch ?u a) = range_of (stored_patch ?u b)"
      obtain i j ins i' j' ins' where s: "s a = (i, j, ins)" "s b = (i', j', ins')" by (metis prod_cases3)
      with cs[OF ab(1)] cs[OF ab(2)] eq have "i = i'" "j = j'"
        using str_len8_take_inj[of i ?chars i'] str_len8_take_inj[of j ?chars j'] by (auto simp: patch_at_def)
      with cs[OF ab(1)] cs[OF ab(2)] s show "range_of a = range_of b"
        by (cases "c a"; cases "c b") (auto simp: same_edit_def patch_at_def)
    qed
  qed
  with sp(1) have "list_all2 (patch_at ?chars) (sort_key range_of (filter (\<lambda>p. pt_path p = path) (sc_patches change2))) (map s ps)"
    using l(3) by simp
  with l(1,2) ok show ?thesis by blast
qed

lemma prepared_file_seen:
  assumes prep: "prepare_change lb tree doc change (Sync pv) rules max_files = Some (Inr (Some change2))"
    and held: "map_of (st_files tree) path = Some fl" "doc (sf_file_id fl) = Some (sf_text fl, st)"
    and wf: "wf_rows (length (sf_text fl)) (state_rows (fs_changes st)) (state_rows (fs_gaps st))"
    and fresh: "fresh_ids mint k (state_rows (fs_changes st))"
    and T: "text_laws T" "text_string T x = sf_text fl" "str_len16 (sf_text fl) < usize_max"
  shows "\<exists>edits x' r cs. file_edits tree (sc_patches change2) path = Inr edits \<and> untracked_edits T x st edits mint k = (x', Inr r) \<and>
    list_all2 (patch_at (u_text (unsuggested (sf_text fl) st))) (sort_key range_of (filter (\<lambda>p. pt_path p = path) (sc_patches change))) cs \<and>
    edits_ok 0 (length (u_text (unsuggested (sf_text fl) st))) cs \<and>
    u_text (unsuggested (text_string T x') (untracked_state st r)) = edited (u_text (unsuggested (sf_text fl) st)) cs"
proof -
  let ?R = "state_rows (fs_changes st)" let ?G = "state_rows (fs_gaps st)" let ?u = "u_text (unsuggested (sf_text fl) st)"
  obtain cs es where l: "list_all2 (patch_at ?u) (sort_key range_of (filter (\<lambda>p. pt_path p = path) (sc_patches change))) cs"
    "edits_ok 0 (length ?u) cs" "list_all2 (same_edit (sf_text fl) ?R ?G) cs es"
    "list_all2 (patch_at (sf_text fl)) (sort_key range_of (filter (\<lambda>p. pt_path p = path) (sc_patches change2))) es"
    using prepared_file[OF prep held wf] by blast
  have same: "edits_ok 0 (length (sf_text fl)) es" "clear_edits ?G es" "edited ?u cs = pieces_edited (sf_text fl) ?R ?G 0 es"
    using same_edits[OF l(3), of 0] l(2) seen_is_original[OF wf] by (simp_all add: edited_def)
  obtain edits where e: "patch_edits path (sf_text fl) (sort_key range_of (filter (\<lambda>p. pt_path p = path) (sc_patches change2))) = Inr edits"
    "edits_at (sf_text fl) edits es" using patch_edits_at[OF l(4)] by blast
  then have "file_edits tree (sc_patches change2) path = Inr edits" using held(1) by (simp add: file_edits_def)
  moreover obtain x' r where "untracked_edits T x st edits mint k = (x', Inr r)"
    "u_text (unsuggested (text_string T x') (untracked_state st r)) = edited ?u cs"
    using untracked_edits_seen[OF T e(2) wf fresh same(1,2)] same(3) by auto
  ultimately show ?thesis using l(1,2) by blast
qed


text \<open>A file with a suggested insertion and a suggested deletion; the push changes its last letter.\<close>

definition push_tree :: source_tree where
  "push_tree = \<lparr>st_files = [(lit ''a.tex'', \<lparr>sf_file_id = lit ''f'', sf_text = sample_text\<rparr>)], st_assets = [], st_revision = lit ''r''\<rparr>"

definition push_doc :: doc_files where
  "push_doc file_id = (if file_id = lit ''f'' then Some (sample_text, sample_state) else None)"

definition push_patch :: patch where
  "push_patch = \<lparr>pt_path = lit ''a.tex'', pt_file_id = [], pt_start = 6, pt_end = 7, pt_exact = lit ''f'', pt_replacement = lit ''F!''\<rparr>"

definition push_change :: source_change where
  "push_change = \<lparr>sc_operation = \<lparr>op_epoch = lit ''e'', op_id = lit ''v2.17.'' @ replicate 32 0x61\<rparr>, sc_base_tree = [],
    sc_consistency = Unchanged_Dependencies,
    sc_dependencies = [\<lparr>dp_path = lit ''a.tex'', dp_file_id = [], dp_file_hash = lit ''adoldef'', dp_start = 0, dp_end = 0, dp_exact = []\<rparr>],
    sc_patches = [push_patch], sc_create = [], sc_delete = [], sc_put_binary = []\<rparr>"

lemma sample_seen: "u_text (unsuggested sample_text sample_state) = lit ''adoldef''"
  by code_simp

lemma sample_project: "project_files push_doc push_tree (touched_paths push_change) = ([(lit ''a.tex'', unsuggested sample_text sample_state)], [])"
  by (simp add: touched_paths_def push_change_def push_patch_def bset_insert_def push_tree_def push_doc_def doc_unsuggested_def)

lemma sample_push_valid:
  "validate_source_change sample_libs (seen_tree push_tree [(lit ''a.tex'', unsuggested sample_text sample_state)]) push_change (Sync pv) sample_rules 2 = Inr ()"
proof -
  have key: "validate_key (sc_operation push_change) = Inr ()"
    by (simp add: validate_key_def push_change_def request_key_timestamp_def parse_digits_def DOT_def starts_with_def is_ascii_digit_def
        is_lower_hex_def printable_ascii_def MAX_OPERATION_EPOCH_def MAX_OPERATION_ID_def len_utf8_def numeral_eq_Suc)
  have tree: "seen_tree push_tree [(lit ''a.tex'', unsuggested sample_text sample_state)] =
      \<lparr>st_files = [(lit ''a.tex'', \<lparr>sf_file_id = lit ''f'', sf_text = lit ''adoldef''\<rparr>)], st_assets = [], st_revision = lit ''r''\<rparr>"
    using sample_seen by (simp add: seen_tree_def push_tree_def)
  show ?thesis unfolding validate_source_change_def key tree
    by (simp add: push_change_def push_patch_def check_origin_def check_read_def check_hashed_def unhashed_paths_def validate_path_def
        starts_with_def SLASH_def BACKSLASH_def DOT_def range_matches_def is_char_boundary_def str_get_def len_utf8_def sample_libs_def
        validate_file_operations_def has_file_operations_def reject_overlaps_def check_overlaps_def AGENT_PATCH_def)
qed

lemma sample_prepared:
  "prepare_change sample_libs push_tree push_doc push_change (Sync pv) sample_rules 2 =
    Some (Inr (Some (push_change\<lparr>sc_patches := [push_patch\<lparr>pt_start := 5, pt_end := 6\<rparr>]\<rparr>)))"
  using sample_push_valid[of pv] sample_to_stored
  by (simp add: prepare_change_def prepare_sync_def sample_project change_is_empty_def has_file_operations_def)
    (simp add: push_change_def push_patch_def Let_def change_is_empty_def)


section \<open>From the client's text to the text people see\<close>

lemma patch_at_unique: "patch_at s p c \<Longrightarrow> patch_at s p d \<Longrightarrow> c = d"
proof -
  assume a: "patch_at s p c" "patch_at s p d"
  obtain i j ins i' j' ins' where cd: "c = (i, j, ins)" "d = (i', j', ins')" by (metis prod_cases3)
  with a str_len8_take_inj[of i s i'] str_len8_take_inj[of j s j'] show "c = d" by (auto simp: patch_at_def)
qed

lemma patches_at_unique: "list_all2 (patch_at s) ps cs \<Longrightarrow> list_all2 (patch_at s) ps ds \<Longrightarrow> cs = ds"
proof (induction ps arbitrary: cs ds)
  case (Cons p ps)
  then show ?case by (auto simp: list_all2_Cons1 dest: patch_at_unique)
qed simp

end
