(* ===== verification/Sync_State.thy ===== *)
theory Sync_State
  imports Source_Change Utf8_Bytes
begin

text \<open>
  What a synced directory remembers and what it holds: \<open>sync/state.rs\<close>, \<open>sync/files.rs\<close>,
  \<open>sync/error.rs\<close> and \<open>sync/walk.rs\<close>.  An ordered map is an association list kept in key order,
  an ordered set a sorted list.  The disk is a map from the paths as the disk spells them to the
  bytes of a file that can be read.  The directory walk, \<open>symlink_metadata\<close>, git, the digest and
  the Unicode library are arguments.
\<close>

section \<open>Ordered maps and sets\<close>

type_synonym 'v bmap = "(ustr \<times> 'v) list"

definition bmap_insert :: "ustr \<Rightarrow> 'v \<Rightarrow> 'v bmap \<Rightarrow> 'v bmap" where
  "bmap_insert k v m = insort_key fst (k, v) (AList.delete k m)"

definition bmap_extend :: "'v bmap \<Rightarrow> 'v bmap \<Rightarrow> 'v bmap" where
  "bmap_extend new m = fold (\<lambda>(k, v). bmap_insert k v) new m"

definition bset_extend :: "ustr list \<Rightarrow> ustr list \<Rightarrow> ustr list" where
  "bset_extend new s = fold bset_insert new s"

lemma set_bset_extend [simp]: "set (bset_extend xs s) = set xs \<union> set s"
  by (induction xs arbitrary: s) (auto simp: bset_extend_def)

lemma map_of_insort: "k \<notin> fst ` set m \<Longrightarrow> map_of (insort_key fst (k, v) m) = (map_of m)(k \<mapsto> v)"
  by (induction m) (auto simp: fun_eq_iff)

lemma map_of_bmap_insert [simp]: "map_of (bmap_insert k v m) = (map_of m)(k \<mapsto> v)"
  using map_of_insort[OF AList.delete_notin_dom[of k m], of v] by (simp add: bmap_insert_def AList.delete_conv')

lemma map_of_bmap_extend:
  "distinct (map fst new) \<Longrightarrow> map_of (bmap_extend new m) p = (case map_of new p of None \<Rightarrow> map_of m p | Some v \<Rightarrow> Some v)"
proof (induction new arbitrary: m)
  case (Cons kv new)
  obtain k v where kv: "kv = (k, v)" by (cases kv)
  have "map_of new k = None" using Cons.prems by (simp add: kv map_of_eq_None_iff)
  with Cons.IH[of "bmap_insert k v m"] Cons.prems show ?case by (auto simp: bmap_extend_def kv split: option.splits)
qed (simp add: bmap_extend_def)

lemma distinct_bmap_insert: "distinct (map fst m) \<Longrightarrow> distinct (map fst (bmap_insert k v m))"
proof -
  have "distinct (map fst m) \<Longrightarrow> k \<notin> fst ` set m \<Longrightarrow> distinct (map fst (insort_key fst (k, v) m))" for m :: "(ustr \<times> 'a) list"
    by (induction m) (auto simp: set_insort_key)
  then show "distinct (map fst m) \<Longrightarrow> distinct (map fst (bmap_insert k v m))"
    by (simp add: bmap_insert_def AList.delete_notin_dom AList.distinct_delete)
qed

lemma distinct_bset_insert: "distinct s \<Longrightarrow> distinct (bset_insert x s)"
  by (simp add: bset_insert_def distinct_insort)

lemma distinct_bset_extend: "distinct s \<Longrightarrow> distinct (bset_extend xs s)"
  by (induction xs arbitrary: s) (simp_all add: bset_extend_def distinct_bset_insert)

section \<open>Records\<close>

text \<open>What can go wrong, in the terms a caller acts on.\<close>

datatype sync_error =
    BadLink ustr
  | NotLinked
  | Merging
  | DetachedHead
  | BranchUnbound ustr
  | BranchMismatch ustr ustr
  | BranchRebind ustr ustr
  | BranchNeedsRepository
  | PendingPush
  | PendingActor
  | OtherProject ustr ustr
  | Http nat ustr
  | Network ustr
  | GitFailed ustr
  | IoFailed ustr ustr
  | RulesRefused ustr
  | Trimmed
  | BadState ustr
  | InvalidReply ustr

record file_record =
  fr_kind :: path_kind
  fr_sha :: ustr

record link =
  ln_site :: ustr
  ln_slug :: ustr

record pushed =
  ps_label :: ustr
  ps_commit :: "ustr option"

record fetched =
  ft_commit :: ustr
  ft_files :: "file_record bmap"

text \<open>The body of a source-change request, as it is posted.\<close>

record push_request =
  rq_operation :: ustr
  rq_dependencies :: "dependency list"
  rq_patches :: "patch list"
  rq_create :: "create_file list"
  rq_delete :: "delete_file list"
  rq_put_binary :: "put_binary list"
  rq_provider :: ustr
  rq_message :: ustr
  rq_author :: "ustr option"

record pending_push =
  pp_request_key :: ustr
  pp_actor :: ustr
  pp_request :: push_request
  pp_upsert :: "file_record bmap"
  pp_deleted :: "ustr list"
  pp_commit :: "ustr option"

record sync_state =
  ss_link :: link
  ss_pulled :: "int option"
  ss_head :: "ustr option"
  ss_files :: "file_record bmap"
  ss_pushed :: "pushed list"
  ss_fetched :: "fetched option"
  ss_synced :: "ustr list"
  ss_branch :: "ustr option"
  ss_web_head :: "ustr option"
  ss_pending :: "pending_push option"

definition new_state :: "link \<Rightarrow> sync_state" where
  "new_state l = \<lparr>ss_link = l, ss_pulled = None, ss_head = None, ss_files = [], ss_pushed = [], ss_fetched = None,
    ss_synced = [], ss_branch = None, ss_web_head = None, ss_pending = None\<rparr>"

definition refuse_while_pending :: "sync_state \<Rightarrow> sync_error + unit" where
  "refuse_while_pending s = (case ss_pending s of Some _ \<Rightarrow> Inl PendingPush | None \<Rightarrow> Inr ())"

text \<open>The first argument is what git answers when it is asked for the branch, in a repository.\<close>

definition pin_branch :: "(sync_error + ustr) option \<Rightarrow> ustr option \<Rightarrow> sync_state \<Rightarrow> sync_error + sync_state \<times> bool" where
  "pin_branch repository requested s =
    (case repository of
       None \<Rightarrow> (case requested of Some _ \<Rightarrow> Inl BranchNeedsRepository | None \<Rightarrow> Inr (s, False))
     | Some answer \<Rightarrow>
         rbind answer (\<lambda>checked_out.
           case (ss_branch s, requested) of
             (None, None) \<Rightarrow> Inl (BranchUnbound checked_out)
           | (None, Some r) \<Rightarrow>
               if r \<noteq> checked_out then Inl (BranchMismatch r checked_out)
               else Inr (s\<lparr>ss_branch := Some r\<rparr>, True)
           | (Some bound, Some r) \<Rightarrow>
               if bound \<noteq> r then Inl (BranchRebind bound r)
               else if bound \<noteq> checked_out then Inl (BranchMismatch bound checked_out)
               else Inr (s, False)
           | (Some bound, None) \<Rightarrow>
               if bound \<noteq> checked_out then Inl (BranchMismatch bound checked_out) else Inr (s, False)))"

section \<open>The scan of a directory\<close>

datatype file_source = Disk ustr | Blob ustr

record local_file =
  lf_kind :: path_kind
  lf_sha :: ustr
  lf_source :: file_source
  lf_text :: "ustr option"

definition lf_disk :: "local_file \<Rightarrow> ustr option" where
  "lf_disk f = (case lf_source f of Disk file \<Rightarrow> Some file | Blob _ \<Rightarrow> None)"

record scan =
  sn_files :: "local_file bmap"
  sn_committed :: "ustr list option"
  sn_exclude :: "ustr list"

definition scan_records :: "scan \<Rightarrow> file_record bmap" where
  "scan_records sn = map (\<lambda>(path, f). (path, \<lparr>fr_kind = lf_kind f, fr_sha = lf_sha f\<rparr>)) (sn_files sn)"

text \<open>A path is excluded when it is an entry or lies below one.\<close>

definition excluded :: "ustr \<Rightarrow> ustr list \<Rightarrow> bool" where
  "excluded path exclude =
    list_ex (\<lambda>entry. path = entry \<or>
      take (length entry) path = entry \<and> starts_with (drop (length entry) path) SLASH) exclude"

definition scan_excludes :: "scan \<Rightarrow> ustr \<Rightarrow> bool" where
  "scan_excludes sn path = excluded path (sn_exclude sn)"

definition inside :: "ustr \<Rightarrow> ustr \<Rightarrow> sync_error + ustr" where
  "inside dir relative =
    (case rbind (rel_try_from relative) (\<lambda>path. under path dir) of
       Inl _ \<Rightarrow> Inl (InvalidReply (relative @ lit '' leaves the folder''))
     | Inr target \<Rightarrow> Inr target)"

text \<open>\<open>may_exist\<close> answers for the full path; it is false only when the disk says nothing is there.\<close>

definition left_out :: "ustr \<Rightarrow> (ustr \<Rightarrow> bool) \<Rightarrow> scan \<Rightarrow> ustr list \<Rightarrow> ustr list" where
  "left_out dir may_exist sn paths =
    bset_extend
      (filter (\<lambda>path.
         case sn_committed sn of
           Some held \<Rightarrow> path \<in> set held
         | None \<Rightarrow> (case inside dir path of Inr target \<Rightarrow> may_exist target | Inl _ \<Rightarrow> False))
       (filter (\<lambda>path. map_of (sn_files sn) path = None) paths)) []"

record local_changes =
  lc_added :: "ustr list"
  lc_changed :: "ustr list"
  lc_deleted :: "ustr list"

definition changes_count :: "local_changes \<Rightarrow> nat" where
  "changes_count c = length (lc_added c) + length (lc_changed c) + length (lc_deleted c)"

definition changes_empty :: "local_changes \<Rightarrow> bool" where
  "changes_empty c \<longleftrightarrow> changes_count c = 0"

definition compare :: "ustr \<Rightarrow> (ustr \<Rightarrow> bool) \<Rightarrow> file_record bmap \<Rightarrow> scan \<Rightarrow> local_changes" where
  "compare dir may_exist recs sn =
    (let gone = left_out dir may_exist sn (map fst recs) in
     \<lparr>lc_added = map fst (filter (\<lambda>(path, f). map_of recs path = None) (sn_files sn)),
      lc_changed = map fst (filter (\<lambda>(path, f).
        case map_of recs path of Some r \<Rightarrow> fr_sha r \<noteq> lf_sha f | None \<Rightarrow> False) (sn_files sn)),
      lc_deleted = filter (\<lambda>path. map_of (sn_files sn) path = None \<and> path \<notin> set gone \<and> \<not> scan_excludes sn path)
        (map fst recs)\<rparr>)"

text \<open>\<open>String::from_utf8\<close>: the bytes of a text and nothing else.\<close>

definition from_utf8 :: "byte list \<Rightarrow> ustr option" where
  "from_utf8 bs = (let t = from_utf8_lossy bs in if as_bytes t = bs then Some t else None)"

definition local_of :: "(byte list \<Rightarrow> ustr) \<Rightarrow> path_kind \<Rightarrow> byte list \<Rightarrow> file_source \<Rightarrow> local_file option" where
  "local_of sha kind bytes source =
    (case kind of
       Kind_Text \<Rightarrow>
         (case from_utf8 bytes of
            Some t \<Rightarrow>
              (let t' = (if CR \<in> set t then normalise_lines t else t) in
               Some \<lparr>lf_kind = kind, lf_sha = sha (as_bytes t'), lf_source = source, lf_text = Some t'\<rparr>)
          | None \<Rightarrow> None)
     | Kind_Asset \<Rightarrow> Some \<lparr>lf_kind = kind, lf_sha = sha bytes, lf_source = source, lf_text = None\<rparr>)"

text \<open>What the walk yields: one name for each regular file, with \<open>None\<close> for a name that is not
  UTF-8; and, in a repository, the names git marks as left out of the sync.\<close>

type_synonym disk = "ustr \<Rightarrow> byte list option"

definition scan_entry ::
  "(ustr \<Rightarrow> ustr) \<Rightarrow> unicode \<Rightarrow> sync_rules \<Rightarrow> ustr list \<Rightarrow> ustr option \<Rightarrow> (ustr \<times> ustr \<times> path_kind) option" where
  "scan_entry debug U rules exclude entry =
    (case entry of
       None \<Rightarrow> None
     | Some spelled \<Rightarrow>
         (let path = nfc U spelled in
          if excluded path exclude then None
          else (case sync_check debug U rules path of Inr kind \<Rightarrow> Some (path, spelled, kind) | Inl _ \<Rightarrow> None)))"

definition scan_file :: "(byte list \<Rightarrow> ustr) \<Rightarrow> disk \<Rightarrow> ustr \<times> ustr \<times> path_kind \<Rightarrow> local_file bmap \<Rightarrow> local_file bmap" where
  "scan_file sha disk item files =
    (case item of (path, spelled, kind) \<Rightarrow>
     (case disk spelled of
        None \<Rightarrow> files
      | Some bytes \<Rightarrow>
          (case local_of sha kind bytes (Disk spelled) of Some f \<Rightarrow> bmap_insert path f files | None \<Rightarrow> files)))"

definition scan_dir ::
  "(byte list \<Rightarrow> ustr) \<Rightarrow> (ustr \<Rightarrow> ustr) \<Rightarrow> unicode \<Rightarrow> sync_rules \<Rightarrow> (ustr list \<Rightarrow> sync_error + ustr list) option \<Rightarrow>
    ustr list \<Rightarrow> ustr option list \<Rightarrow> disk \<Rightarrow> sync_error + scan" where
  "scan_dir sha debug U rules git exclude entries disk =
    (let exclude' = map (nfc U) exclude;
         found = List.map_filter (scan_entry debug U rules exclude') entries in
     rbind (case git of None \<Rightarrow> Inr [] | Some unset \<Rightarrow> unset (map (fst \<circ> snd) found)) (\<lambda>unset.
       Inr \<lparr>sn_files = fold (scan_file sha disk) (filter (\<lambda>item. fst (snd item) \<notin> set unset) found) [],
            sn_committed = None, sn_exclude = exclude'\<rparr>))"

end
