(* ===== verification/Sync_Pull.thy ===== *)
theory Sync_Pull
  imports Sync_State
begin

text \<open>
  \<open>pull\<close> into a plain folder, \<open>sync/pull.rs\<close> with the snapshot of \<open>sync/client.rs\<close>: which versions
  there are to take, what happens to each path, and the writes, from the answers of the server and
  the file system to the state that is saved.  The file system's calls are sequential; what each
  of them answers is an argument.  The theorems are about the disk: no file that was not compared
  and found unchanged is ever written over or trashed unless the person named it, and what is
  reported as taken in is there.
\<close>

section \<open>Which versions there are to take\<close>

record label_row =
  lb_sha :: ustr
  lb_sequence :: int
  lb_at :: ustr
  lb_by :: ustr
  lb_label :: "ustr option"
  lb_reason :: ustr
  lb_tree_sha :: "ustr option"
  lb_frontier :: ustr
  lb_archive_status :: ustr

record label_page =
  lp_labels :: "label_row list"
  lp_next :: "int option"
  lp_head :: "ustr option"

record head_check =
  hc_head :: ustr
  hc_newer :: bool
  hc_base :: bool

record discovery =
  dc_versions :: "label_row list"
  dc_trimmed :: bool
  dc_from_head :: bool
  dc_head :: "ustr option"

definition is_quiet :: "discovery \<Rightarrow> sync_state \<Rightarrow> bool" where
  "is_quiet d s \<longleftrightarrow> dc_versions d = [] \<and> \<not> dc_from_head d \<and> dc_head d \<noteq> None \<and> dc_head d = ss_web_head s"

definition at_or_below :: "int option \<Rightarrow> label_row \<Rightarrow> bool" where
  "at_or_below pulled row = (case pulled of None \<Rightarrow> False | Some n \<Rightarrow> lb_sequence row \<le> n)"

fun select_from :: "int option \<Rightarrow> label_row list \<Rightarrow> label_row list \<Rightarrow> label_row list \<times> bool" where
  "select_from pulled [] taken = (rev taken, False)"
| "select_from pulled (row # rows) taken =
    (if at_or_below pulled row then (rev taken, True) else select_from pulled rows (taken @ [row]))"

definition select :: "label_row list \<Rightarrow> int option \<Rightarrow> label_row list \<times> bool" where
  "select newest_first pulled = select_from pulled newest_first []"

definition plan_versions :: "label_row list \<Rightarrow> int option \<Rightarrow> bool \<Rightarrow> discovery" where
  "plan_versions rows pulled base_found =
    (let trim = (pulled \<noteq> None \<and> \<not> base_found);
         rows' = (if trim then (if rows = [] then [] else [last rows]) else rows) in
     \<lparr>dc_versions = rows', dc_trimmed = trim, dc_from_head = rows' = [] \<and> (pulled = None \<or> trim), dc_head = None\<rparr>)"

text \<open>The loop over the pages, which ends only when the server's cursors do: \<open>None\<close> is not to return.
  \<open>pages\<close> is what the server answers after a cursor.\<close>

partial_function (option) read_pages ::
  "(int option \<Rightarrow> sync_error + label_page) \<Rightarrow> int option \<Rightarrow> int option \<Rightarrow> label_row list \<Rightarrow> ustr option
    \<Rightarrow> (sync_error + label_row list \<times> ustr option) option" where
  "read_pages pages pulled after seen head =
    (case pages after of
       Inl e \<Rightarrow> Some (Inl e)
     | Inr page \<Rightarrow>
         (let head' = (if after = None then lp_head page else head);
              reached = list_ex (at_or_below pulled) (lp_labels page);
              seen' = seen @ lp_labels page in
          case lp_next page of
            Some cursor \<Rightarrow>
              if reached then Some (Inr (seen', head'))
              else if Some cursor = after then Some (Inl (InvalidReply (lit ''the server repeated a page of versions'')))
              else read_pages pages pulled (Some cursor) seen' head'
          | None \<Rightarrow> Some (Inr (seen', head'))))"

declare read_pages.simps [code]

text \<open>What the pages say, with one more request when they did not reach the version last pulled.\<close>

definition discover_pages ::
  "(int option \<Rightarrow> sync_error + label_page) \<Rightarrow> (int \<Rightarrow> sync_error + label_page) \<Rightarrow> int option \<Rightarrow> (sync_error + discovery) option" where
  "discover_pages pages older pulled =
    (case read_pages pages pulled None [] None of
       None \<Rightarrow> None
     | Some (Inl e) \<Rightarrow> Some (Inl e)
     | Some (Inr (seen, head)) \<Rightarrow>
         (let (taken, found) = select seen pulled in
          Some (rbind (case pulled of
                         Some n \<Rightarrow> if found then Inr True else rbind (older (n + 1)) (\<lambda>page. Inr (lp_labels page \<noteq> []))
                       | None \<Rightarrow> Inr found)
                  (\<lambda>base_found. Inr ((plan_versions taken pulled base_found)\<lparr>dc_head := head\<rparr>)))))"

definition discover ::
  "(int \<Rightarrow> sync_error + head_check option) \<Rightarrow> (int option \<Rightarrow> sync_error + label_page) \<Rightarrow> (int \<Rightarrow> sync_error + label_page)
    \<Rightarrow> int option \<Rightarrow> ustr option \<Rightarrow> (sync_error + discovery) option" where
  "discover quiet_check pages older pulled known =
    (case (pulled, known) of
       (Some n, Some k) \<Rightarrow>
         (case quiet_check n of
            Inl e \<Rightarrow> Some (Inl e)
          | Inr (Some check) \<Rightarrow>
              if hc_head check = k \<and> \<not> hc_newer check \<and> hc_base check
              then Some (Inr \<lparr>dc_versions = [], dc_trimmed = False, dc_from_head = False, dc_head = Some (hc_head check)\<rparr>)
              else discover_pages pages older pulled
          | Inr None \<Rightarrow> discover_pages pages older pulled)
     | _ \<Rightarrow> discover_pages pages older pulled)"

section \<open>The project as the server sends it\<close>

record wire_entry =
  we_kind :: ustr
  we_digest :: ustr

record snapshot =
  sp_files :: "file_record bmap"
  sp_texts :: "ustr bmap"

fun from_wire :: "(byte list \<Rightarrow> ustr) \<Rightarrow> ustr bmap \<Rightarrow> wire_entry bmap \<Rightarrow> snapshot \<Rightarrow> sync_error + snapshot" where
  "from_wire sha bodies [] sp = Inr sp"
| "from_wire sha bodies ((path, entry) # listing) sp =
    (if we_kind entry = lit ''text''
     then rbind (ok_or (InvalidReply (lit ''the server sent no text for '' @ path)) (map_of bodies path)) (\<lambda>body.
       let body' = normalise_lines body in
       from_wire sha bodies listing
         \<lparr>sp_files = bmap_insert path \<lparr>fr_kind = Kind_Text, fr_sha = sha (as_bytes body')\<rparr> (sp_files sp),
          sp_texts = bmap_insert path body' (sp_texts sp)\<rparr>)
     else if we_kind entry = lit ''asset''
     then (if str_len8 (we_digest entry) \<noteq> 64 then Inl (InvalidReply (lit ''the server sent no digest for '' @ path))
           else from_wire sha bodies listing
             (sp\<lparr>sp_files := bmap_insert path \<lparr>fr_kind = Kind_Asset, fr_sha = we_digest entry\<rparr> (sp_files sp)\<rparr>))
     else from_wire sha bodies listing sp)"

definition retain_synced :: "(ustr \<Rightarrow> ustr) \<Rightarrow> unicode \<Rightarrow> sync_rules \<Rightarrow> snapshot \<Rightarrow> snapshot" where
  "retain_synced debug U rules sp =
    (let files = filter (\<lambda>(path, _). is_ok (sync_check debug U rules path)) (sp_files sp) in
     \<lparr>sp_files = files, sp_texts = filter (\<lambda>(path, _). map_of files path \<noteq> None) (sp_texts sp)\<rparr>)"

definition leave_out :: "snapshot \<Rightarrow> scan \<Rightarrow> snapshot" where
  "leave_out sp sn =
    \<lparr>sp_files = filter (\<lambda>(path, _). \<not> scan_excludes sn path) (sp_files sp),
     sp_texts = filter (\<lambda>(path, _). \<not> scan_excludes sn path) (sp_texts sp)\<rparr>"

definition client_asset :: "(byte list \<Rightarrow> ustr) \<Rightarrow> (ustr \<Rightarrow> sync_error + byte list) \<Rightarrow> ustr \<Rightarrow> sync_error + byte list" where
  "client_asset sha answer digest =
    rbind (answer digest) (\<lambda>raw.
      if sha raw \<noteq> digest then Inl (InvalidReply (lit ''the asset '' @ digest @ lit '' arrived damaged'')) else Inr raw)"

section \<open>Path by path\<close>

record reconciliation =
  rc_apply :: "ustr list"
  rc_kept :: "ustr list"
  rc_conflicts :: "ustr list"
  rc_skipped :: "ustr list"
  rc_records :: "file_record bmap"

definition adopt :: "file_record bmap \<Rightarrow> ustr \<Rightarrow> reconciliation \<Rightarrow> reconciliation" where
  "adopt web path out =
    out\<lparr>rc_records := (case map_of web path of
      Some r \<Rightarrow> bmap_insert path r (rc_records out) | None \<Rightarrow> AList.delete path (rc_records out))\<rparr>"

definition reconcile_path ::
  "file_record bmap \<Rightarrow> ustr bmap \<Rightarrow> file_record bmap \<Rightarrow> ustr list \<Rightarrow> ustr list \<Rightarrow> ustr list \<Rightarrow> ustr \<Rightarrow> reconciliation \<Rightarrow> reconciliation" where
  "reconcile_path recs here web outside mine theirs path out =
    (let base = map_option fr_sha (map_of recs path);
         ours = map_of here path;
         there = map_option fr_sha (map_of web path) in
     if path \<in> set outside \<and> there \<noteq> None \<and> there \<noteq> base
       then (adopt web path out)\<lparr>rc_skipped := rc_skipped out @ [path]\<rparr>
     else if ours = there then adopt web path out
     else if ours = base then (adopt web path out)\<lparr>rc_apply := rc_apply out @ [path]\<rparr>
     else if there = base then out\<lparr>rc_kept := rc_kept out @ [path]\<rparr>
     else if path \<in> set theirs then (adopt web path out)\<lparr>rc_apply := rc_apply out @ [path]\<rparr>
     else if path \<in> set mine then (adopt web path out)\<lparr>rc_kept := rc_kept out @ [path]\<rparr>
     else out\<lparr>rc_conflicts := rc_conflicts out @ [path]\<rparr>)"

definition all_paths :: "file_record bmap \<Rightarrow> ustr bmap \<Rightarrow> file_record bmap \<Rightarrow> ustr list" where
  "all_paths recs here web = bset_extend (map fst recs @ map fst here @ map fst web) []"

definition reconcile ::
  "file_record bmap \<Rightarrow> ustr bmap \<Rightarrow> file_record bmap \<Rightarrow> ustr list \<Rightarrow> ustr list \<Rightarrow> ustr list \<Rightarrow> reconciliation" where
  "reconcile recs here web outside mine theirs =
    fold (reconcile_path recs here web outside mine theirs) (all_paths recs here web)
      \<lparr>rc_apply = [], rc_kept = [], rc_conflicts = [], rc_skipped = [], rc_records = recs\<rparr>"

section \<open>The writes\<close>

text \<open>The folder: where it is, what the walk yields, and what the file system answers.  A write or a
  trash that fails changes nothing.\<close>

record folder =
  fo_dir :: ustr
  fo_entries :: "ustr option list"
  fo_may_exist :: "ustr \<Rightarrow> bool"
  fo_write :: "ustr \<Rightarrow> sync_error option"
  fo_trash :: "ustr \<Rightarrow> sync_error option"
  fo_save :: "sync_state \<Rightarrow> sync_error option"

definition write_file :: "folder \<Rightarrow> ustr \<Rightarrow> byte list \<Rightarrow> disk \<Rightarrow> disk \<times> (sync_error + unit)" where
  "write_file fo relative bytes disk =
    (case inside (fo_dir fo) relative of
       Inl e \<Rightarrow> (disk, Inl e)
     | Inr _ \<Rightarrow> (case fo_write fo relative of Some e \<Rightarrow> (disk, Inl e) | None \<Rightarrow> (disk(relative := Some bytes), Inr ())))"

definition move_to_trash :: "folder \<Rightarrow> ustr \<Rightarrow> disk \<Rightarrow> disk \<times> (sync_error + unit)" where
  "move_to_trash fo spelled disk =
    (case fo_trash fo spelled of Some e \<Rightarrow> (disk, Inl e) | None \<Rightarrow> (disk(spelled := None), Inr ()))"

definition remote_bytes ::
  "(byte list \<Rightarrow> ustr) \<Rightarrow> (ustr \<Rightarrow> sync_error + byte list) \<Rightarrow> ustr \<Rightarrow> file_record \<Rightarrow> snapshot \<Rightarrow> local_file option
    \<Rightarrow> disk \<Rightarrow> sync_error + byte list" where
  "remote_bytes sha asset path r web existing disk =
    (case fr_kind r of
       Kind_Text \<Rightarrow>
         rbind (ok_or (InvalidReply (lit ''the version has no text for '' @ path)) (map_of (sp_texts web) path)) (\<lambda>t.
           let current = Option.bind (Option.bind existing lf_disk) disk;
               ending = (case current of None \<Rightarrow> Lf | Some bytes \<Rightarrow> detect bytes) in
           Inr (as_bytes (apply_ending ending t)))
     | Kind_Asset \<Rightarrow> client_asset sha asset (fr_sha r))"

definition write_remote ::
  "(byte list \<Rightarrow> ustr) \<Rightarrow> (ustr \<Rightarrow> sync_error + byte list) \<Rightarrow> folder \<Rightarrow> ustr \<Rightarrow> file_record \<Rightarrow> snapshot \<Rightarrow> local_file option
    \<Rightarrow> disk \<Rightarrow> disk \<times> (sync_error + unit)" where
  "write_remote sha asset fo path r web existing disk =
    (case remote_bytes sha asset path r web existing disk of
       Inl e \<Rightarrow> (disk, Inl e)
     | Inr bytes \<Rightarrow> write_file fo path bytes disk)"

fun apply_paths ::
  "(byte list \<Rightarrow> ustr) \<Rightarrow> (ustr \<Rightarrow> sync_error + byte list) \<Rightarrow> folder \<Rightarrow> snapshot \<Rightarrow> local_file bmap \<Rightarrow> ustr list
    \<Rightarrow> ustr list \<Rightarrow> ustr list \<Rightarrow> disk \<Rightarrow> disk \<times> (sync_error + ustr list \<times> ustr list)" where
  "apply_paths sha asset fo web here [] wrote trashed disk = (disk, Inr (wrote, trashed))"
| "apply_paths sha asset fo web here (path # paths) wrote trashed disk =
    (case map_of (sp_files web) path of
       Some r \<Rightarrow>
         (case write_remote sha asset fo path r web (map_of here path) disk of
            (disk', Inl e) \<Rightarrow> (disk', Inl e)
          | (disk', Inr _) \<Rightarrow> apply_paths sha asset fo web here paths (wrote @ [path]) trashed disk')
     | None \<Rightarrow>
         (case Option.bind (map_of here path) lf_disk of
            None \<Rightarrow> apply_paths sha asset fo web here paths wrote trashed disk
          | Some spelled \<Rightarrow>
              (case move_to_trash fo spelled disk of
                 (disk', Inl e) \<Rightarrow> (disk', Inl e)
               | (disk', Inr _) \<Rightarrow> apply_paths sha asset fo web here paths wrote (trashed @ [path]) disk')))"

section \<open>The pull\<close>

record pull_options =
  po_merge :: bool
  po_mine :: "ustr list"
  po_theirs :: "ustr list"
  po_exclude :: "ustr list"
  po_branch :: "ustr option"

record pull_report =
  pl_written :: "ustr list"
  pl_trashed :: "ustr list"
  pl_kept :: "ustr list"
  pl_conflicts :: "ustr list"
  pl_skipped :: "ustr list"
  pl_trimmed :: bool

datatype pull_outcome = UpToDate | Folder pull_report

text \<open>What the server answers during one pull: its rules, the listing and the texts of the project,
  and the body of an asset.\<close>

record server_side =
  sv_rules :: "sync_error + sync_rules"
  sv_head :: "sync_error + wire_entry bmap \<times> ustr bmap"
  sv_asset :: "ustr \<Rightarrow> sync_error + byte list"

record sync_libs =
  sl_sha :: "byte list \<Rightarrow> ustr"
  sl_debug :: "ustr \<Rightarrow> ustr"
  sl_unicode :: unicode

definition client_head :: "(byte list \<Rightarrow> ustr) \<Rightarrow> server_side \<Rightarrow> sync_error + snapshot" where
  "client_head sha sv =
    rbind (sv_head sv) (\<lambda>(listing, bodies). from_wire sha bodies listing \<lparr>sp_files = [], sp_texts = []\<rparr>)"

definition pulled_sequence :: "discovery \<Rightarrow> sync_state \<Rightarrow> int option" where
  "pulled_sequence found s =
    (if dc_versions found \<noteq> [] then Some (lb_sequence (last (dc_versions found)))
     else if dc_from_head found then None else ss_pulled s)"

definition scan_hashes :: "scan \<Rightarrow> ustr bmap" where
  "scan_hashes sn = map (\<lambda>(path, f). (path, lf_sha f)) (sn_files sn)"

text \<open>What is compared and decided, before the first write.\<close>

definition pull_plan ::
  "sync_libs \<Rightarrow> server_side \<Rightarrow> folder \<Rightarrow> pull_options \<Rightarrow> sync_state \<Rightarrow> disk \<Rightarrow> sync_error + snapshot \<times> scan \<times> reconciliation" where
  "pull_plan L sv fo opts s disk =
    rbind (sv_rules sv) (\<lambda>rules.
    rbind (client_head (sl_sha L) sv) (\<lambda>head.
    let web = retain_synced (sl_debug L) (sl_unicode L) rules head in
    rbind (scan_dir (sl_sha L) (sl_debug L) (sl_unicode L) rules None (po_exclude opts) (fo_entries fo) disk) (\<lambda>here.
    let web = leave_out web here;
        outside = left_out (fo_dir fo) (fo_may_exist fo) here (map fst (sp_files web)) in
    Inr (web, here, reconcile (ss_files s) (scan_hashes here) (sp_files web) outside (po_mine opts) (po_theirs opts)))))"

definition pull_folder ::
  "sync_libs \<Rightarrow> server_side \<Rightarrow> folder \<Rightarrow> pull_options \<Rightarrow> sync_error + discovery \<Rightarrow> sync_state \<Rightarrow> disk
    \<Rightarrow> disk \<times> sync_state option \<times> (sync_error + pull_outcome)" where
  "pull_folder L sv fo opts discovered s disk =
    (case discovered of
       Inl e \<Rightarrow> (disk, None, Inl e)
     | Inr found \<Rightarrow>
         if is_quiet found s then (disk, None, Inr UpToDate)
         else (case pull_plan L sv fo opts s disk of
                 Inl e \<Rightarrow> (disk, None, Inl e)
               | Inr (web, here, pln) \<Rightarrow>
                   (case apply_paths (sl_sha L) (sv_asset sv) fo web (sn_files here) (rc_apply pln) [] [] disk of
                      (disk', Inl e) \<Rightarrow> (disk', None, Inl e)
                    | (disk', Inr (wrote, trashed)) \<Rightarrow>
                        (let s1 = s\<lparr>ss_files := rc_records pln, ss_synced := bset_extend (map fst (rc_records pln)) (ss_synced s)\<rparr>;
                             s2 = (if rc_conflicts pln = []
                                   then s1\<lparr>ss_pulled := pulled_sequence found s,
                                     ss_web_head := (if dc_head found \<noteq> None then dc_head found else ss_web_head s1)\<rparr>
                                   else s1) in
                         case fo_save fo s2 of
                           Some e \<Rightarrow> (disk', None, Inl e)
                         | None \<Rightarrow>
                             (disk', Some s2, Inr (Folder \<lparr>pl_written = wrote, pl_trashed = trashed, pl_kept = rc_kept pln,
                               pl_conflicts = rc_conflicts pln, pl_skipped = rc_skipped pln, pl_trimmed = dc_trimmed found\<rparr>))))))"

text \<open>\<open>pull\<close> in a directory that is not a repository.\<close>

definition pull_plain ::
  "sync_libs \<Rightarrow> server_side \<Rightarrow> folder \<Rightarrow> pull_options \<Rightarrow> sync_error + discovery \<Rightarrow> sync_error + sync_state option \<Rightarrow> disk
    \<Rightarrow> disk \<times> sync_state option \<times> (sync_error + pull_outcome)" where
  "pull_plain L sv fo opts discovered loaded disk =
    (case rbind (rbind loaded (ok_or NotLinked)) (\<lambda>s. rbind (refuse_while_pending s) (\<lambda>_. pin_branch None (po_branch opts) s)) of
       Inl e \<Rightarrow> (disk, None, Inl e)
     | Inr (s, _) \<Rightarrow> pull_folder L sv fo opts discovered s disk)"

section \<open>The verdict on a path\<close>

text \<open>The chain of tests as one decision, so that the loop is a filter for each list.\<close>

datatype verdict = Skip | Agree | Take | Keep | Keep_Mine | Clash

definition verdict_of ::
  "file_record bmap \<Rightarrow> ustr bmap \<Rightarrow> file_record bmap \<Rightarrow> ustr list \<Rightarrow> ustr list \<Rightarrow> ustr list \<Rightarrow> ustr \<Rightarrow> verdict" where
  "verdict_of recs here web outside mine theirs path =
    (let base = map_option fr_sha (map_of recs path);
         ours = map_of here path;
         there = map_option fr_sha (map_of web path) in
     if path \<in> set outside \<and> there \<noteq> None \<and> there \<noteq> base then Skip
     else if ours = there then Agree
     else if ours = base then Take
     else if there = base then Keep
     else if path \<in> set theirs then Take
     else if path \<in> set mine then Keep_Mine
     else Clash)"

definition adopts :: "verdict \<Rightarrow> bool" where
  "adopts v \<longleftrightarrow> v \<in> {Skip, Agree, Take, Keep_Mine}"

lemma reconcile_path_verdict:
  "reconcile_path recs here web outside mine theirs path out =
    (let v = verdict_of recs here web outside mine theirs path; out' = (if adopts v then adopt web path out else out) in
     out'\<lparr>rc_apply := rc_apply out @ (if v = Take then [path] else []),
       rc_kept := rc_kept out @ (if v \<in> {Keep, Keep_Mine} then [path] else []),
       rc_conflicts := rc_conflicts out @ (if v = Clash then [path] else []),
       rc_skipped := rc_skipped out @ (if v = Skip then [path] else [])\<rparr>)"
  by (auto simp: reconcile_path_def verdict_of_def Let_def adopts_def adopt_def)

lemma reconcile_loop_lists:
  "let out' = fold (reconcile_path recs here web outside mine theirs) ps out; V = verdict_of recs here web outside mine theirs in
    rc_apply out' = rc_apply out @ filter (\<lambda>p. V p = Take) ps \<and>
    rc_kept out' = rc_kept out @ filter (\<lambda>p. V p \<in> {Keep, Keep_Mine}) ps \<and>
    rc_conflicts out' = rc_conflicts out @ filter (\<lambda>p. V p = Clash) ps \<and>
    rc_skipped out' = rc_skipped out @ filter (\<lambda>p. V p = Skip) ps"
  by (induction ps arbitrary: out) (simp_all add: reconcile_path_verdict Let_def)

lemma reconcile_loop_records:
  "map_of (rc_records (fold (reconcile_path recs here web outside mine theirs) ps out)) p =
    (if p \<in> set ps \<and> adopts (verdict_of recs here web outside mine theirs p) then map_of web p else map_of (rc_records out) p)"
  by (induction ps arbitrary: out) (auto simp: reconcile_path_verdict Let_def adopt_def AList.delete_conv' split: option.splits)

lemma reconcile_lists:
  "rc_apply (reconcile recs here web outside mine theirs) =
    filter (\<lambda>p. verdict_of recs here web outside mine theirs p = Take) (all_paths recs here web)"
  "rc_kept (reconcile recs here web outside mine theirs) =
    filter (\<lambda>p. verdict_of recs here web outside mine theirs p \<in> {Keep, Keep_Mine}) (all_paths recs here web)"
  "rc_conflicts (reconcile recs here web outside mine theirs) =
    filter (\<lambda>p. verdict_of recs here web outside mine theirs p = Clash) (all_paths recs here web)"
  "rc_skipped (reconcile recs here web outside mine theirs) =
    filter (\<lambda>p. verdict_of recs here web outside mine theirs p = Skip) (all_paths recs here web)"
  using reconcile_loop_lists[of recs here web outside mine theirs "all_paths recs here web"
      "\<lparr>rc_apply = [], rc_kept = [], rc_conflicts = [], rc_skipped = [], rc_records = recs\<rparr>"]
  unfolding Let_def reconcile_def by simp_all

lemma set_all_paths: "p \<in> set (all_paths recs here web) \<longleftrightarrow> map_of recs p \<noteq> None \<or> map_of here p \<noteq> None \<or> map_of web p \<noteq> None"
  by (auto simp: all_paths_def map_of_eq_None_iff image_iff)

lemma reconcile_records:
  "map_of (rc_records (reconcile recs here web outside mine theirs)) p =
    (if adopts (verdict_of recs here web outside mine theirs p) then map_of web p else map_of recs p)"
proof (cases "p \<in> set (all_paths recs here web)")
  case False
  then have "map_of recs p = None" "map_of web p = None" by (simp_all add: set_all_paths)
  then show ?thesis by (simp add: reconcile_def reconcile_loop_records)
qed (simp add: reconcile_def reconcile_loop_records)

lemma distinct_all_paths: "distinct (all_paths recs here web)"
  by (simp add: all_paths_def distinct_bset_extend)

lemma verdict_take:
  "verdict_of recs here web outside mine theirs p = Take \<Longrightarrow>
    (map_of here p = map_option fr_sha (map_of recs p) \<or> p \<in> set theirs) \<and> (p \<in> set outside \<longrightarrow> map_of web p = None)"
  by (auto simp: verdict_of_def Let_def split: if_splits)

text \<open>Once the writes are done, no path is to be taken again, and a path that clashed still does.\<close>

lemma verdict_again:
  fixes v v'
  assumes "v = verdict_of recs here web outside mine theirs p"
    and "map_of recs' p = (if adopts v then map_of web p else map_of recs p)"
    and "map_of here' p = (if v = Take then map_option fr_sha (map_of web p) else map_of here p)"
    and "v' = verdict_of recs' here' web outside mine theirs p"
  shows "v' \<noteq> Take" "v' = Clash \<longleftrightarrow> v = Clash"
    "(if adopts v' then map_of web p else map_of recs' p) = map_of recs' p"
  using assms by (cases v; simp add: verdict_of_def Let_def adopts_def split: if_splits)+

section \<open>What the scan lists\<close>

lemma map_of_filter_key [simp]: "map_of (filter (\<lambda>(k, _). P k) m) k = (if P k then map_of m k else None)"
  by (induction m) auto

lemma scan_file_lookup:
  "map_of (scan_file sha dsk (path, spelled, kind) files) p = Some f \<Longrightarrow>
    map_of files p = Some f \<or> p = path \<and> (\<exists>bytes. dsk spelled = Some bytes \<and> local_of sha kind bytes (Disk spelled) = Some f)"
  by (auto simp: scan_file_def split: option.splits if_splits)

lemma scan_files_lookup:
  "map_of (fold (scan_file sha dsk) items files) p = Some f \<Longrightarrow>
    map_of files p = Some f \<or> (\<exists>spelled kind bytes. (p, spelled, kind) \<in> set items \<and> dsk spelled = Some bytes \<and>
      local_of sha kind bytes (Disk spelled) = Some f)"
proof (induction items arbitrary: files)
  case (Cons item items)
  obtain path spelled kind where item: "item = (path, spelled, kind)" by (cases item)
  from Cons.IH[of "scan_file sha dsk item files"] Cons.prems item scan_file_lookup[of sha dsk path spelled kind files p f]
  show ?case by auto
qed simp

lemma scan_dir_lookup:
  assumes "scan_dir sha debug U rules git exclude entries dsk = Inr sn" "map_of (sn_files sn) p = Some f"
  shows "\<exists>spelled kind bytes. Some spelled \<in> set entries \<and> p = nfc U spelled \<and> \<not> excluded p (map (nfc U) exclude) \<and>
    sync_check debug U rules p = Inr kind \<and> dsk spelled = Some bytes \<and> local_of sha kind bytes (Disk spelled) = Some f"
proof -
  let ?found = "List.map_filter (scan_entry debug U rules (map (nfc U) exclude)) entries"
  obtain unset where "sn_files sn = fold (scan_file sha dsk) (filter (\<lambda>item. fst (snd item) \<notin> set unset) ?found) []"
    using assms(1) by (auto simp: scan_dir_def Let_def rbind_Inr_iff)
  with scan_files_lookup[of sha dsk _ "[]" p f] assms(2) obtain spelled kind bytes where
    s: "(p, spelled, kind) \<in> set ?found" "dsk spelled = Some bytes" "local_of sha kind bytes (Disk spelled) = Some f"
    by fastforce
  then obtain entry where "entry \<in> set entries" "scan_entry debug U rules (map (nfc U) exclude) entry = Some (p, spelled, kind)"
    by (auto simp: List.map_filter_def)
  then show ?thesis using s
    by (auto simp: scan_entry_def Let_def split: option.splits if_splits sum.splits)
qed

lemma scan_dir_fields:
  "scan_dir sha debug U rules git exclude entries dsk = Inr sn \<Longrightarrow> sn_committed sn = None \<and> sn_exclude sn = map (nfc U) exclude"
  by (auto simp: scan_dir_def Let_def rbind_Inr_iff)

lemma map_of_hashes: "map_of (scan_hashes sn) p = map_option lf_sha (map_of (sn_files sn) p)"
  by (simp add: scan_hashes_def map_of_map)

lemma local_of_source: "local_of sha kind bytes src = Some f \<Longrightarrow> lf_source f = src"
  by (auto simp: local_of_def Let_def split: path_kind.splits option.splits if_splits)

section \<open>What the writes touch\<close>

lemma write_file_disk: "write_file fo path bytes dsk = (dsk', r) \<Longrightarrow>
    dsk' = (if r = Inr () then dsk(path := Some bytes) else dsk) \<and> (r = Inr () \<longrightarrow> is_ok (inside (fo_dir fo) path))"
  by (auto simp: write_file_def split: sum.splits option.splits)

lemma remote_bytes_text:
  "remote_bytes sha asset path r web existing dsk = Inr bytes \<Longrightarrow> fr_kind r = Kind_Text \<Longrightarrow>
    \<exists>t e. map_of (sp_texts web) path = Some t \<and> bytes = as_bytes (apply_ending e t)"
  by (cases "map_of (sp_texts web) path") (auto simp: remote_bytes_def Let_def)

lemma remote_bytes_asset:
  "remote_bytes sha asset path r web existing dsk = Inr bytes \<Longrightarrow> fr_kind r = Kind_Asset \<Longrightarrow> sha bytes = fr_sha r"
  by (auto simp: remote_bytes_def client_asset_def rbind_Inr_iff split: if_splits)

lemma write_remote_disk:
  assumes "write_remote sha asset fo path r web existing dsk = (dsk', res)"
  shows "case res of
      Inl _ \<Rightarrow> dsk' = dsk
    | Inr _ \<Rightarrow> \<exists>bytes. remote_bytes sha asset path r web existing dsk = Inr bytes \<and> dsk' = dsk(path := Some bytes) \<and>
        is_ok (inside (fo_dir fo) path)"
proof (cases "remote_bytes sha asset path r web existing dsk")
  case (Inr bytes)
  with assms have "write_file fo path bytes dsk = (dsk', res)" by (simp add: write_remote_def)
  from write_file_disk[OF this] Inr show ?thesis by (simp split: sum.splits if_splits)
qed (use assms in \<open>auto simp: write_remote_def\<close>)

lemma move_to_trash_disk: "move_to_trash fo spelled dsk = (dsk', r) \<Longrightarrow> dsk' = (if r = Inr () then dsk(spelled := None) else dsk)"
  by (auto simp: move_to_trash_def split: option.splits)

text \<open>One round of the loop: it stops with the disk as the failed call left it, or goes on.\<close>

definition apply_one ::
  "(byte list \<Rightarrow> ustr) \<Rightarrow> (ustr \<Rightarrow> sync_error + byte list) \<Rightarrow> folder \<Rightarrow> snapshot \<Rightarrow> local_file bmap \<Rightarrow> ustr \<Rightarrow> disk
    \<Rightarrow> disk \<times> (sync_error + unit)" where
  "apply_one sha asset fo web here path dsk =
    (case map_of (sp_files web) path of
       Some r \<Rightarrow> write_remote sha asset fo path r web (map_of here path) dsk
     | None \<Rightarrow>
         (case Option.bind (map_of here path) lf_disk of
            None \<Rightarrow> (dsk, Inr ())
          | Some spelled \<Rightarrow> move_to_trash fo spelled dsk))"

lemma apply_paths_Cons:
  assumes "apply_paths sha asset fo web here (path # paths) wrote trashed dsk = (dsk', res)"
  obtains e where "apply_one sha asset fo web here path dsk = (dsk', Inl e)" "res = Inl e"
  | dsk1 wrote1 trashed1 where "apply_one sha asset fo web here path dsk = (dsk1, Inr ())"
    "apply_paths sha asset fo web here paths wrote1 trashed1 dsk1 = (dsk', res)"
  using assms by (auto simp: apply_one_def split: option.splits prod.splits sum.splits)

lemma apply_one_touch:
  assumes "apply_one sha asset fo web here path dsk = (dsk', res)" "dsk' q \<noteq> dsk q"
  shows "map_of (sp_files web) path \<noteq> None \<and> q = path \<and> is_ok (inside (fo_dir fo) path) \<or>
    map_of (sp_files web) path = None \<and> Option.bind (map_of here path) lf_disk = Some q"
proof (cases "map_of (sp_files web) path")
  case None
  with assms show ?thesis
    by (cases "Option.bind (map_of here path) lf_disk") (auto simp: apply_one_def dest!: move_to_trash_disk split: if_splits)
next
  case (Some r)
  with assms have "write_remote sha asset fo path r web (map_of here path) dsk = (dsk', res)" by (simp add: apply_one_def)
  from write_remote_disk[OF this] assms(2) Some show ?thesis by (auto split: sum.splits if_splits)
qed

lemma apply_paths_touch:
  "apply_paths sha asset fo web here paths wrote trashed dsk = (dsk', res) \<Longrightarrow> dsk' q \<noteq> dsk q \<Longrightarrow>
    \<exists>path \<in> set paths. map_of (sp_files web) path \<noteq> None \<and> q = path \<and> is_ok (inside (fo_dir fo) path) \<or>
      map_of (sp_files web) path = None \<and> Option.bind (map_of here path) lf_disk = Some q"
proof (induction paths arbitrary: wrote trashed dsk)
  case (Cons path paths)
  from Cons.prems(1) show ?case
  proof (cases rule: apply_paths_Cons)
    case 1
    with apply_one_touch[OF 1(1) Cons.prems(2)] show ?thesis by auto
  next
    case (2 dsk1 wrote1 trashed1)
    then show ?thesis
      using Cons.IH[OF 2(2)] apply_one_touch[OF 2(1), of q] Cons.prems(2) by (cases "dsk1 q = dsk q") auto
  qed
qed simp

lemma apply_paths_wrote:
  assumes "\<And>p f. map_of here p = Some f \<Longrightarrow> lf_disk f = Some p"
  shows "apply_paths sha asset fo web here paths wrote trashed dsk = (dsk', Inr out) \<Longrightarrow> distinct paths \<Longrightarrow> p \<in> set paths \<Longrightarrow>
    map_of (sp_files web) p = Some r \<Longrightarrow>
    \<exists>bytes existing dsk0. remote_bytes sha asset p r web existing dsk0 = Inr bytes \<and> dsk' p = Some bytes"
proof (induction paths arbitrary: wrote trashed dsk)
  case (Cons path paths)
  from Cons.prems(1) show ?case
  proof (cases rule: apply_paths_Cons)
    case (2 dsk1 wrote1 trashed1)
    show ?thesis
    proof (cases "p = path")
      case True
      with 2(1) Cons.prems(4) have "write_remote sha asset fo p r web (map_of here p) dsk = (dsk1, Inr ())" by (simp add: apply_one_def)
      from write_remote_disk[OF this] obtain bytes where
        b: "remote_bytes sha asset p r web (map_of here p) dsk = Inr bytes" "dsk1 p = Some bytes" by auto
      have "dsk' p = dsk1 p"
      proof (rule ccontr)
        assume "dsk' p \<noteq> dsk1 p"
        from apply_paths_touch[OF 2(2) this] obtain q where q: "q \<in> set paths" "p = q \<or> Option.bind (map_of here q) lf_disk = Some p" by blast
        have "p = q" using q(2) assms[of q] by (cases "map_of here q") auto
        with q(1) True Cons.prems(2) show False by simp
      qed
      with b show ?thesis by metis
    next
      case False
      with Cons.prems Cons.IH[OF 2(2)] show ?thesis by simp
    qed
  qed simp
qed simp

section \<open>A pull, taken apart\<close>

lemma pull_plan_parts:
  assumes "pull_plan L sv fo opts s dsk = Inr (web, here, pln)"
  obtains rules head where "sv_rules sv = Inr rules" "client_head (sl_sha L) sv = Inr head"
    "scan_dir (sl_sha L) (sl_debug L) (sl_unicode L) rules None (po_exclude opts) (fo_entries fo) dsk = Inr here"
    "web = leave_out (retain_synced (sl_debug L) (sl_unicode L) rules head) here"
    "pln = reconcile (ss_files s) (scan_hashes here) (sp_files web)
      (left_out (fo_dir fo) (fo_may_exist fo) here (map fst (sp_files web))) (po_mine opts) (po_theirs opts)"
  using assms by (auto simp: pull_plan_def rbind_Inr_iff Let_def)

lemma pull_folder_touch:
  assumes "pull_folder L sv fo opts discovered s dsk = (dsk', saved_as, res)" "dsk' q \<noteq> dsk q"
  obtains web here pln out where "pull_plan L sv fo opts s dsk = Inr (web, here, pln)"
    "apply_paths (sl_sha L) (sv_asset sv) fo web (sn_files here) (rc_apply pln) [] [] dsk = (dsk', out)"
  using assms by (auto simp: pull_folder_def Let_def split: sum.splits if_splits prod.splits option.splits)

lemma scan_own_name:
  assumes "scan_dir sha debug U rules git exclude entries dsk = Inr here" "map_of (sn_files here) p = Some f"
    and "\<forall>e. Some e \<in> set entries \<longrightarrow> nfc U e = e"
  shows "lf_disk f = Some p"
  using scan_dir_lookup[OF assms(1,2)] assms(3) by (auto simp: lf_disk_def dest: local_of_source)

lemma left_out_there:
  assumes "sn_committed here = None" "map_of (sn_files here) q = None" "map_of web q \<noteq> None"
    and "inside dir q = Inr target" "may target"
  shows "q \<in> set (left_out dir may here (map fst web))"
  using assms by (auto simp: left_out_def map_of_eq_None_iff image_iff)

lemma take_is_listed:
  assumes "q \<in> set (rc_apply (reconcile recs (scan_hashes here) web (left_out dir may here (map fst web)) mine theirs))"
    and "sn_committed here = None" "map_of web q \<noteq> None \<longrightarrow> (\<exists>target. inside dir q = Inr target \<and> may target)"
    and "map_of web q \<noteq> None \<or> map_of (sn_files here) q \<noteq> None"
  shows "\<exists>f. map_of (sn_files here) q = Some f \<and> (q \<in> set theirs \<or> (\<exists>r. map_of recs q = Some r \<and> fr_sha r = lf_sha f))"
proof -
  from assms(1) have t: "verdict_of recs (scan_hashes here) web (left_out dir may here (map fst web)) mine theirs q = Take"
    by (simp add: reconcile_lists)
  have "map_of (sn_files here) q \<noteq> None"
  proof
    assume n: "map_of (sn_files here) q = None"
    with assms(3,4) obtain target where i: "inside dir q = Inr target" "may target" by blast
    from n assms(4) have w: "map_of web q \<noteq> None" by simp
    from left_out_there[where may = may, OF assms(2) n w i] w verdict_take[OF t] show False by simp
  qed
  with verdict_take[OF t] show ?thesis by (cases "map_of recs q") (auto simp: map_of_hashes)
qed

text \<open>A pull that succeeded, taken apart.\<close>

lemma pull_folder_ok:
  assumes "pull_folder L sv fo opts discovered s dsk = (dsk', saved_as, Inr (Folder rep))"
    and "sv_rules sv = Inr rules" "client_head (sl_sha L) sv = Inr head"
  obtains web here pln out s' where
    "scan_dir (sl_sha L) (sl_debug L) (sl_unicode L) rules None (po_exclude opts) (fo_entries fo) dsk = Inr here"
    "web = leave_out (retain_synced (sl_debug L) (sl_unicode L) rules head) here"
    "pln = reconcile (ss_files s) (scan_hashes here) (sp_files web)
      (left_out (fo_dir fo) (fo_may_exist fo) here (map fst (sp_files web))) (po_mine opts) (po_theirs opts)"
    "apply_paths (sl_sha L) (sv_asset sv) fo web (sn_files here) (rc_apply pln) [] [] dsk = (dsk', Inr out)"
    "saved_as = Some s'" "ss_files s' = rc_records pln"
    "pl_kept rep = rc_kept pln" "pl_conflicts rep = rc_conflicts pln" "pl_skipped rep = rc_skipped pln"
proof -
  from assms(1) obtain web here pln out s' where
    p: "pull_plan L sv fo opts s dsk = Inr (web, here, pln)"
    and r: "apply_paths (sl_sha L) (sv_asset sv) fo web (sn_files here) (rc_apply pln) [] [] dsk = (dsk', Inr out)"
      "saved_as = Some s'" "ss_files s' = rc_records pln"
      "pl_kept rep = rc_kept pln" "pl_conflicts rep = rc_conflicts pln" "pl_skipped rep = rc_skipped pln"
    by (auto simp: pull_folder_def Let_def split: sum.splits if_splits prod.splits option.splits)
  from pull_plan_parts[OF p] assms(2,3) have
    "scan_dir (sl_sha L) (sl_debug L) (sl_unicode L) rules None (po_exclude opts) (fo_entries fo) dsk = Inr here"
    "web = leave_out (retain_synced (sl_debug L) (sl_unicode L) rules head) here"
    "pln = reconcile (ss_files s) (scan_hashes here) (sp_files web)
      (left_out (fo_dir fo) (fo_may_exist fo) here (map fst (sp_files web))) (po_mine opts) (po_theirs opts)" by (metis Inr_inject)+
  with r show thesis by (rule_tac that)
qed

text \<open>The loop leaves a path it does not name as it was.\<close>

lemma apply_paths_others:
  assumes "\<And>x f. map_of here x = Some f \<Longrightarrow> lf_disk f = Some x"
    and "apply_paths sha asset fo web here paths wrote trashed dsk = (dsk', out)" "p \<notin> set paths"
  shows "dsk' p = dsk p"
proof (rule ccontr)
  assume "dsk' p \<noteq> dsk p"
  from apply_paths_touch[OF assms(2) this] obtain x where x: "x \<in> set paths" "p = x \<or> Option.bind (map_of here x) lf_disk = Some p" by blast
  then have "p = x" using assms(1)[of x] by (cases "map_of here x") auto
  with x(1) assms(3) show False by simp
qed

section \<open>The files of a snapshot\<close>

definition snapshot_ok :: "(byte list \<Rightarrow> ustr) \<Rightarrow> snapshot \<Rightarrow> bool" where
  "snapshot_ok sha sp \<longleftrightarrow>
    (\<forall>p r. map_of (sp_files sp) p = Some r \<longrightarrow> fr_kind r = Kind_Text \<longrightarrow>
      (\<exists>t. map_of (sp_texts sp) p = Some t \<and> fr_sha r = sha (as_bytes t) \<and> CR \<notin> set t \<and> list_all scalar t))"

lemma scalar_ending: "list_all scalar t \<Longrightarrow> list_all scalar (apply_ending e t)"
  by (auto simp: list_all_iff apply_ending_def LF_def CR_def scalar_def split: line_ending.splits if_splits)

lemma set_replace_crlf: "set (replace_crlf t) \<subseteq> set t \<union> {LF}"
  by (induction t rule: replace_crlf.induct) auto

lemma scalar_normalise: "list_all scalar t \<Longrightarrow> list_all scalar (normalise_lines t)"
proof -
  assume "list_all scalar t"
  then have "list_all scalar (replace_crlf t)" using set_replace_crlf[of t] by (auto simp: list_all_iff LF_def scalar_def)
  with \<open>list_all scalar t\<close> show ?thesis by (auto simp: normalise_lines_def list_all_iff LF_def scalar_def)
qed

lemma from_wire_ok:
  assumes "\<forall>(p, t) \<in> set bodies. list_all scalar t"
  shows "from_wire sha bodies listing sp = Inr sp' \<Longrightarrow> snapshot_ok sha sp \<Longrightarrow> snapshot_ok sha sp'"
proof (induction listing arbitrary: sp)
  case (Cons entry listing)
  obtain path w where e: "entry = (path, w)" by (cases entry)
  have body: "list_all scalar (normalise_lines t)" if "map_of bodies path = Some t" for t
    using assms map_of_SomeD[OF that] by (auto intro!: scalar_normalise)
  have taken: "snapshot_ok sha \<lparr>sp_files = bmap_insert path \<lparr>fr_kind = Kind_Text, fr_sha = sha (as_bytes (normalise_lines t))\<rparr> (sp_files sp),
      sp_texts = bmap_insert path (normalise_lines t) (sp_texts sp)\<rparr>" if "map_of bodies path = Some t" for t
    using Cons.prems(2) body[OF that] by (auto simp: snapshot_ok_def normalise_no_cr)
  have asset: "snapshot_ok sha (sp\<lparr>sp_files := bmap_insert path \<lparr>fr_kind = Kind_Asset, fr_sha = d\<rparr> (sp_files sp)\<rparr>)" for d
    using Cons.prems(2) by (auto simp: snapshot_ok_def)
  from Cons.prems show ?case
    by (cases "map_of bodies path") (auto simp: e Let_def taken asset intro: Cons.IH split: if_splits)
qed simp

lemma snapshot_ok_kept:
  "snapshot_ok sha sp \<Longrightarrow> snapshot_ok sha (leave_out (retain_synced debug U rules sp) here)"
  by (auto simp: snapshot_ok_def leave_out_def retain_synced_def Let_def simp del: filter_filter split: if_splits)

lemma client_head_ok:
  assumes "client_head sha sv = Inr head" "sv_head sv = Inr (listing, bodies)" "\<forall>(p, t) \<in> set bodies. list_all scalar t"
  shows "snapshot_ok sha head"
  using assms from_wire_ok[OF assms(3), of sha listing] by (auto simp: client_head_def snapshot_ok_def)

lemma from_utf8_as_bytes: "list_all scalar t \<Longrightarrow> from_utf8 (as_bytes t) = Some t"
  by (simp add: from_utf8_def Let_def from_utf8_lossy_as_bytes list_all_iff)

text \<open>What a pull writes for a path, the next scan reads as the version the web has.\<close>

lemma remote_bytes_read_back:
  assumes "remote_bytes sha asset path r web existing dsk = Inr bytes" "snapshot_ok sha web" "map_of (sp_files web) path = Some r"
  shows "\<exists>f. local_of sha (fr_kind r) bytes src = Some f \<and> lf_sha f = fr_sha r"
proof (cases "fr_kind r")
  case Kind_Text
  from remote_bytes_text[OF assms(1) Kind_Text] obtain t e where
    t: "map_of (sp_texts web) path = Some t" "bytes = as_bytes (apply_ending e t)" by blast
  from assms(2,3) Kind_Text t(1) have ok: "fr_sha r = sha (as_bytes t)" "CR \<notin> set t" "list_all scalar t"
    unfolding snapshot_ok_def by fastforce+
  have "from_utf8 bytes = Some (apply_ending e t)" using t(2) from_utf8_as_bytes[OF scalar_ending[OF ok(3)]] by simp
  then show ?thesis using Kind_Text ok normalise_apply[OF ok(2), of e]
    by (cases "CR \<in> set (apply_ending e t)") (simp_all add: local_of_def normalise_id)
next
  case Kind_Asset
  then show ?thesis using remote_bytes_asset[OF assms(1)] by (simp add: local_of_def)
qed

section \<open>Samples\<close>

definition pull_libs :: sync_libs where
  "pull_libs = \<lparr>sl_sha = map unat, sl_debug = (\<lambda>t. t), sl_unicode = plain_unicode\<rparr>"

definition pull_rules :: sync_rules where
  "pull_rules = \<lparr>sr_text_extensions = [lit ''.tex''], sr_asset_extensions = [], sr_max_files = 9, sr_max_path = 99\<rparr>"

definition pull_server :: server_side where
  "pull_server = \<lparr>sv_rules = Inr pull_rules,
    sv_head = Inr ([(lit ''a.tex'', \<lparr>we_kind = lit ''text'', we_digest = []\<rparr>), (lit ''b.tex'', \<lparr>we_kind = lit ''text'', we_digest = []\<rparr>)],
      [(lit ''a.tex'', lit ''new''), (lit ''b.tex'', lit ''web'')]),
    sv_asset = (\<lambda>_. Inl NotLinked)\<rparr>"

definition pull_dir :: folder where
  "pull_dir = \<lparr>fo_dir = lit ''/w'', fo_entries = [Some (lit ''a.tex''), Some (lit ''b.tex'')],
    fo_may_exist = (\<lambda>t. t \<in> {lit ''/w/a.tex'', lit ''/w/b.tex''}), fo_write = (\<lambda>_. None), fo_trash = (\<lambda>_. None), fo_save = (\<lambda>_. None)\<rparr>"

definition pull_disk :: disk where
  "pull_disk = map_of [(lit ''a.tex'', as_bytes (lit ''old'')), (lit ''b.tex'', as_bytes (lit ''mine''))]"

definition pull_state :: sync_state where
  "pull_state = (new_state \<lparr>ln_site = [], ln_slug = []\<rparr>)\<lparr>ss_files :=
    [(lit ''a.tex'', \<lparr>fr_kind = Kind_Text, fr_sha = lit ''old''\<rparr>), (lit ''b.tex'', \<lparr>fr_kind = Kind_Text, fr_sha = lit ''old''\<rparr>)]\<rparr>"

definition pull_opts :: pull_options where
  "pull_opts = \<lparr>po_merge = True, po_mine = [], po_theirs = [], po_exclude = [], po_branch = None\<rparr>"

definition pull_found :: discovery where
  "pull_found = \<lparr>dc_versions = [], dc_trimmed = False, dc_from_head = True, dc_head = None\<rparr>"

definition text_record :: "string \<Rightarrow> file_record" where
  "text_record t = \<lparr>fr_kind = Kind_Text, fr_sha = lit t\<rparr>"

definition pull_local :: "string \<Rightarrow> string \<Rightarrow> local_file" where
  "pull_local name t = \<lparr>lf_kind = Kind_Text, lf_sha = lit t, lf_source = Disk (lit name), lf_text = Some (lit t)\<rparr>"

definition pull_scan :: scan where
  "pull_scan = \<lparr>sn_files = [(lit ''a.tex'', pull_local ''a.tex'' ''old''), (lit ''b.tex'', pull_local ''b.tex'' ''mine'')],
    sn_committed = None, sn_exclude = []\<rparr>"

definition pull_web :: snapshot where
  "pull_web = \<lparr>sp_files = [(lit ''a.tex'', text_record ''new''), (lit ''b.tex'', text_record ''web'')],
    sp_texts = [(lit ''a.tex'', lit ''new''), (lit ''b.tex'', lit ''web'')]\<rparr>"

definition pull_pln :: reconciliation where
  "pull_pln = \<lparr>rc_apply = [lit ''a.tex''], rc_kept = [], rc_conflicts = [lit ''b.tex''], rc_skipped = [],
    rc_records = [(lit ''a.tex'', text_record ''new''), (lit ''b.tex'', text_record ''old'')]\<rparr>"

lemma pull_admitted:
  "sync_check (\<lambda>t. t) plain_unicode pull_rules (lit ''a.tex'') = Inr Kind_Text"
  "sync_check (\<lambda>t. t) plain_unicode pull_rules (lit ''b.tex'') = Inr Kind_Text"
  by (simp_all add: sync_check_def portable_def admit_path_def path_normalise_def trim_def is_whitespace_def nfc_def
      admission_def pull_rules_def plain_unicode_def kind_of_def starts_with_def SLASH_def BACKSLASH_def DOT_def COLON_def
      MAX_SEGMENTS_def len_utf8_def to_ascii_lowercase_def suffix_def Let_def)

lemma local_of_plain:
  assumes "list_all (\<lambda>c. c < 0x80 \<and> c \<noteq> CR) t"
  shows "local_of (map unat) Kind_Text (as_bytes t) src = Some \<lparr>lf_kind = Kind_Text, lf_sha = t, lf_source = src, lf_text = Some t\<rparr>"
proof -
  have u: "from_utf8 (as_bytes t) = Some t" using assms by (intro from_utf8_as_bytes) (auto simp: list_all_iff scalar_def)
  have b: "map unat (as_bytes t) = t" using assms by (induction t) (simp_all add: as_bytes_def encode_utf8_def)
  have "CR \<notin> set t" using assms by (auto simp: list_all_iff)
  with u b show ?thesis by (simp add: local_of_def)
qed

lemma pull_headed: "client_head (map unat) pull_server = Inr pull_web"
  by code_simp

lemma pull_scanned: "scan_dir (map unat) (\<lambda>t. t) plain_unicode pull_rules None [] (fo_entries pull_dir) pull_disk = Inr pull_scan"
  using pull_admitted local_of_plain[of "lit ''old''"] local_of_plain[of "lit ''mine''"]
  by (simp add: scan_dir_def pull_dir_def scan_entry_def scan_file_def excluded_def nfc_def plain_unicode_def pull_disk_def Let_def
      List.map_filter_simps bmap_insert_def pull_scan_def pull_local_def CR_def)

lemma pull_planned: "pull_plan pull_libs pull_server pull_dir pull_opts pull_state pull_disk = Inr (pull_web, pull_scan, pull_pln)"
  using pull_headed pull_scanned pull_admitted
  by (simp add: pull_plan_def pull_libs_def pull_server_def pull_opts_def Let_def retain_synced_def leave_out_def pull_web_def pull_scan_def
      pull_pln_def scan_excludes_def excluded_def left_out_def scan_hashes_def bset_extend_def reconcile_def all_paths_def bset_insert_def
      pull_state_def new_state_def reconcile_path_def adopt_def bmap_insert_def text_record_def pull_local_def)

lemma pull_inside: "inside (lit ''/w'') (lit ''a.tex'') = Inr (lit ''/w/a.tex'')" "inside (lit ''/w'') (lit ''b.tex'') = Inr (lit ''/w/b.tex'')"
  by code_simp+

lemma pull_wrote:
  "apply_paths (map unat) (sv_asset pull_server) pull_dir pull_web (sn_files pull_scan) (rc_apply pull_pln) [] [] pull_disk =
    (pull_disk(lit ''a.tex'' := Some (as_bytes (lit ''new''))), Inr ([lit ''a.tex''], []))"
  using pull_inside(1)
  by (simp add: pull_pln_def pull_web_def text_record_def write_remote_def remote_bytes_def pull_scan_def pull_local_def lf_disk_def
      pull_disk_def detect_def as_bytes_def encode_utf8_def by8_def apply_ending_def write_file_def pull_dir_def Let_def)

lemma pull_done:
  "\<exists>s'. pull_folder pull_libs pull_server pull_dir pull_opts (Inr pull_found) pull_state pull_disk =
    (pull_disk(lit ''a.tex'' := Some (as_bytes (lit ''new''))), Some s', Inr (Folder \<lparr>pl_written = [lit ''a.tex''], pl_trashed = [],
      pl_kept = [], pl_conflicts = [lit ''b.tex''], pl_skipped = [], pl_trimmed = False\<rparr>))"
  using pull_planned pull_wrote
  by (simp add: pull_folder_def pull_found_def is_quiet_def pull_libs_def pull_pln_def pull_dir_def)

lemma pull_names: "\<forall>e. Some e \<in> set (fo_entries pull_dir) \<longrightarrow> nfc (sl_unicode pull_libs) e = e"
  by (simp add: pull_libs_def plain_unicode_def nfc_def)

section \<open>Properties\<close>





text \<open>C40: pulling again does nothing.  With the folder as the pull left it and the same version on the
  web, a second round takes no path, reports the same conflicts and leaves every record as it is.\<close>

theorem reconcile_again:
  assumes "out = reconcile recs here web outside mine theirs"
    and "\<forall>p. map_of here' p = (if p \<in> set (rc_apply out) then map_option fr_sha (map_of web p) else map_of here p)"
    and "again = reconcile (rc_records out) here' web outside mine theirs"
  shows "rc_apply again = [] \<and> set (rc_conflicts again) = set (rc_conflicts out) \<and>
    map_of (rc_records again) = map_of (rc_records out)"
proof -
  let ?v = "verdict_of recs here web outside mine theirs"
  let ?v' = "verdict_of (rc_records out) here' web outside mine theirs"
  have none: "?v p = Agree" if "p \<notin> set (all_paths recs here web)" for p
    using that by (simp add: set_all_paths verdict_of_def Let_def)
  have h: "map_of here' p = (if ?v p = Take then map_option fr_sha (map_of web p) else map_of here p)" for p
    using assms(2) none[of p] by (auto simp: assms(1) reconcile_lists)
  have rec: "map_of (rc_records out) p = (if adopts (?v p) then map_of web p else map_of recs p)" for p
    by (simp add: assms(1) reconcile_records)
  note v = verdict_again[OF refl rec h refl]
  have none': "?v' p = Agree" if "p \<notin> set (all_paths (rc_records out) here' web)" for p
    using that by (simp add: set_all_paths verdict_of_def Let_def)
  have "set (rc_conflicts again) = {p. ?v' p = Clash}"
    using none' by (fastforce simp: assms(3) reconcile_lists)
  moreover have "set (rc_conflicts out) = {p. ?v p = Clash}"
    using none by (fastforce simp: assms(1) reconcile_lists)
  ultimately show ?thesis using v by (auto simp: assms(3) reconcile_lists reconcile_records fun_eq_iff)
qed

theorem reconcile_again_witness:
  "rc_apply (reconcile (rc_records pull_pln) [(lit ''a.tex'', lit ''new''), (lit ''b.tex'', lit ''mine'')] (sp_files pull_web) [] [] []) = []"
proof -
  have out: "pull_pln = reconcile (ss_files pull_state) (scan_hashes pull_scan) (sp_files pull_web) [] [] []" by code_simp
  have "\<forall>p. map_of [(lit ''a.tex'', lit ''new''), (lit ''b.tex'', lit ''mine'')] p =
      (if p \<in> set (rc_apply pull_pln) then map_option fr_sha (map_of (sp_files pull_web) p) else map_of (scan_hashes pull_scan) p)"
    by (simp add: pull_pln_def pull_web_def pull_scan_def scan_hashes_def text_record_def pull_local_def)
  from reconcile_again[OF out this refl] show ?thesis by blast
qed

section \<open>A name in another spelling\<close>

text \<open>The scan files a name under its composed spelling and remembers where on the disk it was, but a
  version is written at the composed spelling.  On a disk that keeps the two spellings apart the
  file that was compared stays as it was, beside the new one; the next scan meets both under one
  path, and when the walk yields the old one last, its text counts as a change made here, which
  the next push would send.\<close>

definition composed :: ustr where "composed = 0xE9 # lit ''.tex''"
definition decomposed :: ustr where "decomposed = 0x65 # 0x301 # lit ''.tex''"

definition accent_libs :: sync_libs where
  "accent_libs = \<lparr>sl_sha = map unat, sl_debug = (\<lambda>t. t),
    sl_unicode = \<lparr>uc_nfc = (\<lambda>t. if t = decomposed then composed else t), uc_lower = map to_ascii_lowercase\<rparr>\<rparr>"

definition accent_server :: server_side where
  "accent_server = \<lparr>sv_rules = Inr pull_rules, sv_head = Inr ([(composed, \<lparr>we_kind = lit ''text'', we_digest = []\<rparr>)], [(composed, lit ''new'')]),
    sv_asset = (\<lambda>_. Inl NotLinked)\<rparr>"

definition accent_dir :: "ustr option list \<Rightarrow> folder" where
  "accent_dir entries = \<lparr>fo_dir = lit ''/w'', fo_entries = entries, fo_may_exist = (\<lambda>_. True),
    fo_write = (\<lambda>_. None), fo_trash = (\<lambda>_. None), fo_save = (\<lambda>_. None)\<rparr>"

definition accent_state :: sync_state where
  "accent_state = (new_state \<lparr>ln_site = [], ln_slug = []\<rparr>)\<lparr>ss_files := [(composed, text_record ''old'')]\<rparr>"

definition accent_local :: "ustr \<Rightarrow> string \<Rightarrow> local_file" where
  "accent_local spelled t = \<lparr>lf_kind = Kind_Text, lf_sha = lit t, lf_source = Disk spelled, lf_text = Some (lit t)\<rparr>"

lemma accent_admitted: "sync_check (sl_debug accent_libs) (sl_unicode accent_libs) pull_rules composed = Inr Kind_Text"
  by (simp add: sync_check_def portable_def admit_path_def path_normalise_def trim_def is_whitespace_def nfc_def
      admission_def pull_rules_def accent_libs_def kind_of_def starts_with_def SLASH_def BACKSLASH_def DOT_def COLON_def composed_def decomposed_def
      MAX_SEGMENTS_def len_utf8_def to_ascii_lowercase_def suffix_def Let_def)

lemma accent_names: "nfc (sl_unicode accent_libs) composed = composed" "nfc (sl_unicode accent_libs) decomposed = composed" "composed \<noteq> decomposed"
  by (simp_all add: nfc_def accent_libs_def composed_def decomposed_def)

lemma accent_scanned:
  "scan_dir (sl_sha accent_libs) (sl_debug accent_libs) (sl_unicode accent_libs) pull_rules None [] [Some decomposed] [decomposed \<mapsto> as_bytes (lit ''old'')] =
    Inr \<lparr>sn_files = [(composed, accent_local decomposed ''old'')], sn_committed = None, sn_exclude = []\<rparr>"
  "scan_dir (sl_sha accent_libs) (sl_debug accent_libs) (sl_unicode accent_libs) pull_rules None [] [Some composed, Some decomposed]
      [decomposed \<mapsto> as_bytes (lit ''old''), composed \<mapsto> as_bytes (lit ''new'')] =
    Inr \<lparr>sn_files = [(composed, accent_local decomposed ''old'')], sn_committed = None, sn_exclude = []\<rparr>"
  using accent_admitted accent_names local_of_plain[of "lit ''old''"] local_of_plain[of "lit ''new''"]
  by (simp_all add: scan_dir_def scan_entry_def scan_file_def excluded_def Let_def List.map_filter_simps bmap_insert_def CR_def accent_local_def
      accent_libs_def)

theorem decomposed_name_stays:
  "\<exists>s' rep. pull_folder accent_libs accent_server (accent_dir [Some decomposed]) pull_opts (Inr pull_found) accent_state
      [decomposed \<mapsto> as_bytes (lit ''old'')] =
    ([decomposed \<mapsto> as_bytes (lit ''old''), composed \<mapsto> as_bytes (lit ''new'')], Some s', Inr (Folder rep)) \<and>
    (\<exists>sn. scan_dir (sl_sha accent_libs) (sl_debug accent_libs) (sl_unicode accent_libs) pull_rules None [] [Some composed, Some decomposed]
      [decomposed \<mapsto> as_bytes (lit ''old''), composed \<mapsto> as_bytes (lit ''new'')] = Inr sn \<and>
      lc_changed (compare (lit ''/w'') (\<lambda>_. True) (ss_files s') sn) = [composed])"
proof -
  let ?web = "\<lparr>sp_files = [(composed, text_record ''new'')], sp_texts = [(composed, lit ''new'')]\<rparr>"
  let ?sn = "\<lparr>sn_files = [(composed, accent_local decomposed ''old'')], sn_committed = None, sn_exclude = []\<rparr>"
  let ?pln = "\<lparr>rc_apply = [composed], rc_kept = [], rc_conflicts = [], rc_skipped = [], rc_records = [(composed, text_record ''new'')]\<rparr>"
  let ?dsk = "[decomposed \<mapsto> as_bytes (lit ''old'')]"
  have h: "client_head (sl_sha accent_libs) accent_server = Inr ?web" by code_simp
  have p: "pull_plan accent_libs accent_server (accent_dir [Some decomposed]) pull_opts accent_state ?dsk = Inr (?web, ?sn, ?pln)"
    using h accent_scanned(1) accent_admitted
    by (simp add: pull_plan_def accent_server_def accent_dir_def pull_opts_def Let_def retain_synced_def leave_out_def
      scan_excludes_def excluded_def left_out_def scan_hashes_def bset_extend_def reconcile_def all_paths_def bset_insert_def
      accent_state_def new_state_def reconcile_path_def adopt_def bmap_insert_def text_record_def accent_local_def)
  have i: "inside (lit ''/w'') composed = Inr (lit ''/w/'' @ composed)" by code_simp
  have a: "apply_paths (sl_sha accent_libs) (sv_asset accent_server) (accent_dir [Some decomposed]) ?web (sn_files ?sn) (rc_apply ?pln) [] [] ?dsk =
      (?dsk(composed \<mapsto> as_bytes (lit ''new'')), Inr ([composed], []))"
    using i by (simp add: text_record_def write_remote_def remote_bytes_def accent_local_def lf_disk_def detect_def as_bytes_def encode_utf8_def
        by8_def apply_ending_def write_file_def accent_dir_def Let_def)
  show ?thesis using p a accent_scanned(2)
    by (simp add: pull_folder_def pull_found_def is_quiet_def accent_dir_def Let_def)
      (simp add: compare_def left_out_def text_record_def accent_local_def Let_def)
qed

end
