(* ===== verification/Sync_Push.thy ===== *)
theory Sync_Push
  imports Sync_Pull Sync_Diff
begin

text \<open>
  \<open>push\<close>, \<open>sync/push.rs\<close>, with the request's reading on the server, \<open>server/source_change.rs\<close>.  A run
  is the sequence of its effects (a state saved, an asset uploaded, a request posted) and how it
  ended, so that a run that is cut off is a prefix.  What git, the disk, the server and the store
  answer are arguments.  The theorems say that an accepted push changes only what the directory had
  seen, that a lost answer never lets a second request out, and that an accepted push leaves
  nothing to push.
\<close>

section \<open>What is sent\<close>

definition MAX_PUSHED :: nat where "MAX_PUSHED = 200"

record push_options =
  pu_message :: ustr
  pu_author :: "ustr option"
  pu_exclude :: "ustr list"
  pu_branch :: "ustr option"
  pu_from_commit :: "ustr option"

datatype push_outcome =
    Nothing
  | Pushed ustr int nat
  | Refused "ustr list"
  | Suggestion ustr

record push_plan =
  pn_dependencies :: "dependency list"
  pn_patches :: "patch list"
  pn_create :: "create_file list"
  pn_delete :: "delete_file list"
  pn_put_binary :: "put_binary list"
  pn_uploads :: "(ustr \<times> local_file) list"

definition plan_is_empty :: "push_plan \<Rightarrow> bool" where
  "plan_is_empty p \<longleftrightarrow> pn_patches p = [] \<and> pn_create p = [] \<and> pn_delete p = [] \<and> pn_put_binary p = []"

definition plan_body :: "push_plan \<Rightarrow> ustr \<Rightarrow> ustr \<Rightarrow> ustr option \<Rightarrow> push_request" where
  "plan_body p operation message named =
    \<lparr>rq_operation = operation, rq_dependencies = pn_dependencies p, rq_patches = pn_patches p, rq_create = pn_create p,
     rq_delete = pn_delete p, rq_put_binary = pn_put_binary p, rq_provider = lit ''cli'', rq_message = message, rq_author = named\<rparr>"

definition dependency_on :: "ustr \<Rightarrow> ustr \<Rightarrow> dependency" where
  "dependency_on path hash =
    \<lparr>dp_path = path, dp_file_id = [], dp_file_hash = hash, dp_start = 0, dp_end = 0, dp_exact = []\<rparr>"

text \<open>Indexing the scan with a path it does not list would panic, which is \<open>None\<close>.\<close>

fun plan_added :: "local_file bmap \<Rightarrow> ustr list \<Rightarrow> push_plan \<Rightarrow> push_plan option" where
  "plan_added found [] p = Some p"
| "plan_added found (path # paths) p =
    (case map_of found path of
       None \<Rightarrow> None
     | Some f \<Rightarrow>
         plan_added found paths
           (case lf_kind f of
              Kind_Text \<Rightarrow> p\<lparr>pn_create := pn_create p @ [\<lparr>cf_path = path, cf_text = (case lf_text f of None \<Rightarrow> [] | Some t \<Rightarrow> t)\<rparr>]\<rparr>
            | Kind_Asset \<Rightarrow> p\<lparr>pn_uploads := pn_uploads p @ [(path, f)],
                pn_put_binary := pn_put_binary p @ [\<lparr>pb_path = path, pb_hash = lf_sha f, pb_expect = None\<rparr>]\<rparr>))"

fun plan_changed ::
  "(ustr \<Rightarrow> ustr \<Rightarrow> text_diff) \<Rightarrow> file_record bmap \<Rightarrow> local_file bmap \<Rightarrow> ustr bmap \<Rightarrow> ustr list \<Rightarrow> push_plan \<Rightarrow> push_plan option" where
  "plan_changed from_lines recs found bases [] p = Some p"
| "plan_changed from_lines recs found bases (path # paths) p =
    (case map_of found path of
       None \<Rightarrow> None
     | Some f \<Rightarrow>
         (case map_of recs path of
            None \<Rightarrow> plan_changed from_lines recs found bases paths p
          | Some before \<Rightarrow>
              (case lf_kind f of
                 Kind_Text \<Rightarrow>
                   (case map_of bases path of
                      None \<Rightarrow> plan_changed from_lines recs found bases paths p
                    | Some base \<Rightarrow>
                        (case patches from_lines path base (case lf_text f of None \<Rightarrow> [] | Some t \<Rightarrow> t) of
                           None \<Rightarrow> None
                         | Some edits \<Rightarrow>
                             plan_changed from_lines recs found bases paths
                               (if edits = [] then p
                                else p\<lparr>pn_dependencies := pn_dependencies p @ [dependency_on path (fr_sha before)],
                                  pn_patches := pn_patches p @ edits\<rparr>)))
               | Kind_Asset \<Rightarrow>
                   plan_changed from_lines recs found bases paths
                     (p\<lparr>pn_uploads := pn_uploads p @ [(path, f)],
                       pn_put_binary := pn_put_binary p @ [\<lparr>pb_path = path, pb_hash = lf_sha f, pb_expect = Some (fr_sha before)\<rparr>]\<rparr>))))"

definition plan_delete :: "file_record bmap \<Rightarrow> ustr \<Rightarrow> push_plan \<Rightarrow> push_plan" where
  "plan_delete recs path p =
    (case map_of recs path of
       None \<Rightarrow> p
     | Some before \<Rightarrow>
         p\<lparr>pn_dependencies := pn_dependencies p @ (if fr_kind before = Kind_Text then [dependency_on path (fr_sha before)] else []),
           pn_delete := pn_delete p @ [\<lparr>df_path = path, df_expect = Some (fr_sha before)\<rparr>]\<rparr>)"

definition plan_change ::
  "(ustr \<Rightarrow> ustr \<Rightarrow> text_diff) \<Rightarrow> file_record bmap \<Rightarrow> scan \<Rightarrow> local_changes \<Rightarrow> ustr bmap \<Rightarrow> push_plan option" where
  "plan_change from_lines recs sn changes bases =
    Option.bind (plan_added (sn_files sn) (lc_added changes)
      \<lparr>pn_dependencies = [], pn_patches = [], pn_create = [], pn_delete = [], pn_put_binary = [], pn_uploads = []\<rparr>) (\<lambda>p.
    Option.bind (plan_changed from_lines recs (sn_files sn) bases (lc_changed changes) p) (\<lambda>p.
    Some (fold (plan_delete recs) (lc_deleted changes) p)))"

section \<open>The answer\<close>

text \<open>The parts of the reply that are read; a list under a key that is not a list of strings reads
  as empty.\<close>

record reply =
  ry_status :: nat
  ry_detail :: ustr
  ry_reason :: "ustr option"
  ry_paths :: "ustr list option"
  ry_files :: "ustr list option"
  ry_path :: "ustr option"
  ry_label_sha :: "ustr option"
  ry_label_sequence :: "int option"

datatype sent = Was_Accepted ustr int | Was_Refused push_outcome

definition http_refusal :: "reply \<Rightarrow> sync_error" where
  "http_refusal r =
    Http (ry_status r)
      (if trim (ry_detail r) = [] \<or> ry_detail r = lit ''null''
       then lit ''the server answered '' @ nat_text (ry_status r) else ry_detail r)"

definition read_answer :: "sync_error + reply \<Rightarrow> sync_error + sent" where
  "read_answer answer =
    rbind answer (\<lambda>r.
      if ry_status r = 200 then
        (case (ry_label_sha r, ry_label_sequence r) of
           (None, _) \<Rightarrow> Inl (InvalidReply (lit ''the server did not name the version it recorded''))
         | (Some _, None) \<Rightarrow> Inl (InvalidReply (lit ''the server did not number the version it recorded''))
         | (Some sha, Some sequence) \<Rightarrow> Inr (Was_Accepted sha sequence))
      else if ry_status r = 409 then
        (if ry_reason r = Some (lit ''changed'') then
           Inr (Was_Refused (Refused (case ry_paths r of
             Some paths \<Rightarrow> paths | None \<Rightarrow> (case ry_files r of Some files \<Rightarrow> files | None \<Rightarrow> []))))
         else if ry_reason r = Some (lit ''suggestion'') then
           Inr (Was_Refused (Suggestion (case ry_path r of Some path \<Rightarrow> path | None \<Rightarrow> [])))
         else Inl (http_refusal r))
      else Inl (http_refusal r))"

section \<open>Runs\<close>

datatype push_event = Save sync_state | Upload ustr | Post push_request "sent option"

datatype stop = Failed sync_error | Panicked

type_synonym 'a push_run = "push_event list \<times> (stop + 'a)"

definition run_bind :: "'a push_run \<Rightarrow> ('a \<Rightarrow> 'b push_run) \<Rightarrow> 'b push_run" where
  "run_bind m f = (case snd m of Inl e \<Rightarrow> (fst m, Inl e) | Inr x \<Rightarrow> (fst m @ fst (f x), snd (f x)))"

definition run_ok :: "'a \<Rightarrow> 'a push_run" where "run_ok x = ([], Inr x)"

definition run_fail :: "sync_error \<Rightarrow> 'a push_run" where "run_fail e = ([], Inl (Failed e))"

definition ask :: "sync_error + 'a \<Rightarrow> 'a push_run" where
  "ask r = (case r of Inl e \<Rightarrow> run_fail e | Inr x \<Rightarrow> run_ok x)"

lemma run_bind_ok [simp]: "run_bind (run_ok x) f = f x"
  by (simp add: run_bind_def run_ok_def)

text \<open>What the surroundings of one push answer.\<close>

record repository =
  re_merging :: bool
  re_branch :: "sync_error + ustr"
  re_ancestor :: "ustr \<Rightarrow> ustr \<Rightarrow> bool"
  re_rev :: "ustr \<Rightarrow> ustr option"
  re_unset :: "ustr list \<Rightarrow> sync_error + ustr list"
  re_scan_commit :: "ustr \<Rightarrow> sync_rules \<Rightarrow> ustr list \<Rightarrow> sync_error + scan"

record push_env =
  en_libs :: sync_libs
  en_from_lines :: "ustr \<Rightarrow> ustr \<Rightarrow> text_diff"
  en_server :: server_side
  en_repository :: "repository option"
  en_folder :: folder
  en_disk :: disk
  en_actor :: ustr
  en_key :: ustr
  en_upload :: "ustr \<Rightarrow> local_file \<Rightarrow> sync_error option"
  en_answer :: "push_request \<Rightarrow> sync_error + reply"

definition save_state :: "push_env \<Rightarrow> sync_state \<Rightarrow> unit push_run" where
  "save_state E s = (case fo_save (en_folder E) s of Some e \<Rightarrow> run_fail e | None \<Rightarrow> ([Save s], Inr ()))"

definition post :: "push_env \<Rightarrow> push_request \<Rightarrow> sent push_run" where
  "post E rq =
    (case read_answer (en_answer E rq) of
       Inl e \<Rightarrow> ([Post rq None], Inl (Failed e))
     | Inr a \<Rightarrow> ([Post rq (Some a)], Inr a))"

definition accepted_state :: "pending_push \<Rightarrow> ustr \<Rightarrow> sync_state \<Rightarrow> sync_state" where
  "accepted_state p sha s =
    (let ps = ss_pushed s @ [\<lparr>ps_label = sha, ps_commit = pp_commit p\<rparr>] in
     s\<lparr>ss_files := fold AList.delete (pp_deleted p) (bmap_extend (pp_upsert p) (ss_files s)),
       ss_synced := bset_extend (map fst (pp_upsert p) @ pp_deleted p) (ss_synced s),
       ss_pushed := drop (length ps - MAX_PUSHED) ps,
       ss_head := (if pp_commit p \<noteq> None then pp_commit p else ss_head s),
       ss_web_head := None, ss_pending := None\<rparr>)"

definition settle_pending :: "push_env \<Rightarrow> sync_state \<Rightarrow> pending_push \<Rightarrow> (push_outcome \<times> sync_state) push_run" where
  "settle_pending E s p =
    run_bind (post E (pp_request p)) (\<lambda>a.
      case a of
        Was_Refused outcome \<Rightarrow>
          (let s' = s\<lparr>ss_pending := None\<rparr> in run_bind (save_state E s') (\<lambda>_. run_ok (outcome, s')))
      | Was_Accepted sha sequence \<Rightarrow>
          (let s' = accepted_state p sha s in
           run_bind (save_state E s') (\<lambda>_. run_ok (Pushed sha sequence (length (pp_upsert p) + length (pp_deleted p)), s'))))"

section \<open>The push\<close>

text \<open>A fetch that git has merged since becomes what the directory is based on.\<close>

definition promote :: "repository \<Rightarrow> sync_state \<Rightarrow> sync_state" where
  "promote g s =
    (case ss_fetched s of
       None \<Rightarrow> s
     | Some f \<Rightarrow>
         s\<lparr>ss_fetched := None,
           ss_head := (if (case ss_head s of None \<Rightarrow> True | Some head \<Rightarrow> re_ancestor g head (ft_commit f))
             then Some (ft_commit f) else ss_head s),
           ss_files := ft_files f\<rparr>)"

definition settle_fetch :: "repository \<Rightarrow> sync_state \<Rightarrow> sync_state \<times> bool" where
  "settle_fetch g s =
    (let merged = (case ss_fetched s of None \<Rightarrow> False | Some f \<Rightarrow> re_ancestor g (ft_commit f) (lit ''HEAD'')) in
     (if merged then promote g s else s, merged))"

definition push_scan :: "push_env \<Rightarrow> push_options \<Rightarrow> sync_rules \<Rightarrow> (scan \<times> ustr option) push_run" where
  "push_scan E opts rules =
    (case pu_from_commit opts of
       Some commit \<Rightarrow>
         (case en_repository E of
            None \<Rightarrow> run_fail (InvalidReply (lit ''a push from a commit needs a git repository, and this directory is a plain folder''))
          | Some g \<Rightarrow>
              (case re_rev g commit of
                 None \<Rightarrow> run_fail (InvalidReply (commit @ lit '' is not a commit in this repository''))
               | Some c \<Rightarrow> run_bind (ask (re_scan_commit g c rules (pu_exclude opts))) (\<lambda>sn. run_ok (sn, Some c))))
     | None \<Rightarrow>
         run_bind (ask (scan_dir (sl_sha (en_libs E)) (sl_debug (en_libs E)) (sl_unicode (en_libs E)) rules
             (map_option re_unset (en_repository E)) (pu_exclude opts) (fo_entries (en_folder E)) (en_disk E)))
           (\<lambda>sn. run_ok (sn, None)))"

text \<open>The texts the edits were made against: the web's, where it still is what was recorded.\<close>

fun base_texts :: "snapshot \<Rightarrow> file_record bmap \<Rightarrow> ustr list \<Rightarrow> ustr bmap \<Rightarrow> ustr list \<Rightarrow> (ustr bmap \<times> ustr list) option" where
  "base_texts head recs [] bases moved = Some (bases, moved)"
| "base_texts head recs (path # paths) bases moved =
    (case map_of recs path of
       None \<Rightarrow> None
     | Some r \<Rightarrow>
         (case (map_of (sp_files head) path, map_of (sp_texts head) path) of
            (Some now, Some t) \<Rightarrow>
              if fr_sha now = fr_sha r then base_texts head recs paths (bmap_insert path t bases) moved
              else base_texts head recs paths bases (moved @ [path])
          | _ \<Rightarrow> base_texts head recs paths bases (moved @ [path])))"

definition read_bases :: "push_env \<Rightarrow> file_record bmap \<Rightarrow> scan \<Rightarrow> local_changes \<Rightarrow> (ustr bmap \<times> ustr list) push_run" where
  "read_bases E recs sn changes =
    (let edited = filter (\<lambda>path. case map_of (sn_files sn) path of Some f \<Rightarrow> lf_kind f = Kind_Text | None \<Rightarrow> False) (lc_changed changes) in
     if edited = [] then run_ok ([], [])
     else run_bind (ask (client_head (sl_sha (en_libs E)) (en_server E))) (\<lambda>head.
       case base_texts head recs edited [] [] of None \<Rightarrow> ([], Inl Panicked) | Some found \<Rightarrow> run_ok found))"

fun upload_all :: "push_env \<Rightarrow> (ustr \<times> local_file) list \<Rightarrow> unit push_run" where
  "upload_all E [] = run_ok ()"
| "upload_all E ((path, f) # us) =
    (case en_upload E path f of
       Some e \<Rightarrow> ([Upload path], Inl (Failed e))
     | None \<Rightarrow> run_bind ([Upload path], Inr ()) (\<lambda>_. upload_all E us))"

definition upserted :: "scan \<Rightarrow> local_changes \<Rightarrow> file_record bmap" where
  "upserted sn changes =
    fold (\<lambda>path m. case map_of (sn_files sn) path of
        Some f \<Rightarrow> bmap_insert path \<lparr>fr_kind = lf_kind f, fr_sha = lf_sha f\<rparr> m | None \<Rightarrow> m)
      (lc_added changes @ lc_changed changes) []"

definition push_author :: "push_options \<Rightarrow> ustr option" where
  "push_author opts =
    (case pu_author opts of None \<Rightarrow> None | Some named \<Rightarrow> if trim named = [] then None else Some (trim named))"

definition pending_of :: "push_env \<Rightarrow> push_options \<Rightarrow> scan \<Rightarrow> ustr option \<Rightarrow> local_changes \<Rightarrow> push_plan \<Rightarrow> pending_push" where
  "pending_of E opts sn commit changes pln =
    \<lparr>pp_request_key = en_key E, pp_actor = en_actor E,
     pp_request = plan_body pln (en_key E) (pu_message opts) (push_author opts),
     pp_upsert = upserted sn changes, pp_deleted = lc_deleted changes,
     pp_commit = (case commit of Some c \<Rightarrow> Some c
       | None \<Rightarrow> (case en_repository E of Some g \<Rightarrow> re_rev g (lit ''HEAD'') | None \<Rightarrow> None))\<rparr>"

definition too_many :: "sync_rules \<Rightarrow> nat \<Rightarrow> sync_error" where
  "too_many rules found =
    RulesRefused (lit ''a project may hold '' @ nat_text (sr_max_files rules) @ lit '' files and this directory has '' @ nat_text found)"

definition push_changes :: "push_env \<Rightarrow> push_options \<Rightarrow> push_outcome option \<Rightarrow> sync_state \<Rightarrow> push_outcome push_run" where
  "push_changes E opts settled s =
    (let otherwise = (case settled of Some o' \<Rightarrow> o' | None \<Rightarrow> Nothing) in
     run_bind (ask (sv_rules (en_server E))) (\<lambda>rules.
     run_bind (case en_repository E of
                 None \<Rightarrow> run_ok s
               | Some g \<Rightarrow>
                   (case settle_fetch g s of (s', moved) \<Rightarrow> if moved then run_bind (save_state E s') (\<lambda>_. run_ok s') else run_ok s')) (\<lambda>s.
     run_bind (push_scan E opts rules) (\<lambda>(sn, commit).
     let changes = compare (fo_dir (en_folder E)) (fo_may_exist (en_folder E)) (ss_files s) sn in
     if changes_empty changes then run_ok otherwise
     else if lc_added changes \<noteq> [] \<and> length (sn_files sn) > sr_max_files rules then run_fail (too_many rules (length (sn_files sn)))
     else run_bind (read_bases E (ss_files s) sn changes) (\<lambda>(bases, moved).
     if moved \<noteq> [] then run_ok (Refused moved)
     else (case plan_change (en_from_lines E) (ss_files s) sn changes bases of
             None \<Rightarrow> ([], Inl Panicked)
           | Some pln \<Rightarrow>
               if plan_is_empty pln then run_ok otherwise
               else run_bind (upload_all E (pn_uploads pln)) (\<lambda>_.
                 let p = pending_of E opts sn commit changes pln; s' = s\<lparr>ss_pending := Some p\<rparr> in
                 run_bind (save_state E s') (\<lambda>_.
                 run_bind (settle_pending E s' p) (\<lambda>(outcome, _). run_ok outcome)))))))))"

definition push :: "push_env \<Rightarrow> push_options \<Rightarrow> sync_error + sync_state option \<Rightarrow> push_outcome push_run" where
  "push E opts loaded =
    (if trim (pu_message opts) = [] then run_fail (InvalidReply (lit ''a push needs a message''))
     else
     run_bind (ask (rbind loaded (ok_or NotLinked))) (\<lambda>s.
     if (case en_repository E of Some g \<Rightarrow> re_merging g | None \<Rightarrow> False) then run_fail Merging
     else
     run_bind (ask (pin_branch (map_option re_branch (en_repository E)) (pu_branch opts) s)) (\<lambda>(s, bound).
     run_bind (if bound then save_state E s else run_ok ()) (\<lambda>_.
     case ss_pending s of
       None \<Rightarrow> push_changes E opts None s
     | Some p \<Rightarrow>
         if pp_actor p \<noteq> en_actor E then run_fail PendingActor
         else run_bind (settle_pending E s p) (\<lambda>(outcome, s').
           case outcome of Pushed _ _ _ \<Rightarrow> push_changes E opts (Some outcome) s' | _ \<Rightarrow> run_ok outcome)))))"

section \<open>The request on the server\<close>

text \<open>How the route reads a request: one change against the dependencies it names.\<close>

definition change_of_request :: "push_request \<Rightarrow> source_change" where
  "change_of_request rq =
    \<lparr>sc_operation = \<lparr>op_epoch = lit ''sync'', op_id = rq_operation rq\<rparr>, sc_base_tree = [], sc_consistency = Unchanged_Dependencies,
     sc_dependencies = rq_dependencies rq, sc_patches = rq_patches rq, sc_create = rq_create rq, sc_delete = rq_delete rq,
     sc_put_binary = rq_put_binary rq\<rparr>"

section \<open>What the server has checked\<close>

lemma check_dependencies_result:
  "check_dependencies lb tree ds changed = Inr [] \<Longrightarrow> d \<in> set ds \<Longrightarrow>
    \<exists>fl. map_of (st_files tree) (dp_path d) = Some fl \<and> (dp_file_hash d \<noteq> [] \<longrightarrow> dp_file_hash d = lib_digest lb (sf_text fl))"
proof (induction ds arbitrary: changed)
  case (Cons e ds)
  note empty = check_dependencies_changed[of lb tree ds]
  show ?case
  proof (cases "map_of (st_files tree) (dp_path e)")
    case None
    with Cons.prems(1) have "check_dependencies lb tree ds (bset_insert (dp_path e) changed) = Inr []" by (auto simp: rbind_Inr_iff)
    from empty[OF this] show ?thesis by simp
  next
    case (Some fl)
    define stale where "stale \<longleftrightarrow> (dp_file_id e \<noteq> [] \<and> dp_file_id e \<noteq> sf_file_id fl) \<or>
      (dp_file_hash e \<noteq> [] \<and> dp_file_hash e \<noteq> lib_digest lb (sf_text fl)) \<or>
      \<not> range_matches (sf_text fl) (dp_start e) (dp_end e) (dp_exact e)"
    from Some Cons.prems(1) have t: "check_dependencies lb tree ds (if stale then bset_insert (dp_path e) changed else changed) = Inr []"
      unfolding stale_def by (auto simp: rbind_Inr_iff Let_def)
    from empty[OF t] have "\<not> stale" by (auto split: if_splits)
    then have "dp_file_hash e \<noteq> [] \<longrightarrow> dp_file_hash e = lib_digest lb (sf_text fl)" by (auto simp: stale_def)
    with Some Cons.IH[OF t] Cons.prems(2) show ?thesis by auto
  qed
qed simp

lemma check_deletes_expect:
  "check_deletes tree patched fs changed = Inr [] \<Longrightarrow> f \<in> set fs \<Longrightarrow> map_of (st_files tree) (df_path f) = None \<Longrightarrow>
    map_of (st_assets tree) (df_path f) = df_expect f"
proof (induction fs arbitrary: changed)
  case (Cons e fs)
  from Cons.prems(1) obtain ch where "check_deletes tree patched fs ch = Inr []" and
    e: "ch = [] \<longrightarrow> map_of (st_files tree) (df_path e) = None \<longrightarrow> map_of (st_assets tree) (df_path e) = df_expect e"
    by (auto split: option.splits if_splits)
  then show ?case using Cons.IH[of ch] Cons.prems(2,3) check_deletes_changed[of tree patched fs ch] by auto
qed simp

lemma collect_none:
  "fold (\<lambda>q acc. if P q then acc else bset_insert q acc) qs acc = [] \<Longrightarrow> acc = [] \<and> (\<forall>q \<in> set qs. P q)"
proof (induction qs arbitrary: acc)
  case (Cons q qs)
  show ?case
  proof (cases "P q")
    case True
    with Cons.prems have "fold (\<lambda>q acc. if P q then acc else bset_insert q acc) qs acc = []" by simp
    from Cons.IH[OF this] True show ?thesis by simp
  next
    case False
    with Cons.prems have "fold (\<lambda>q acc. if P q then acc else bset_insert q acc) qs (bset_insert q acc) = []" by simp
    from Cons.IH[OF this] show ?thesis by simp
  qed
qed simp

lemma unhashed_none:
  assumes "unhashed_paths tree change = []"
    and "path \<in> pt_path ` set (sc_patches change) \<or> path \<in> df_path ` set (sc_delete change) \<and> map_of (st_files tree) path \<noteq> None"
  shows "\<exists>d \<in> set (sc_dependencies change). dp_path d = path \<and> dp_file_hash d \<noteq> []"
proof -
  have "\<forall>q \<in> set (map pt_path (sc_patches change) @ filter (\<lambda>p. map_of (st_files tree) p \<noteq> None) (map df_path (sc_delete change))).
      list_ex (\<lambda>d. dp_path d = q \<and> dp_file_hash d \<noteq> []) (sc_dependencies change)"
    by (rule conjunct2[OF collect_none[OF assms(1)[unfolded unhashed_paths_def Let_def]]])
  moreover have "path \<in> set (map pt_path (sc_patches change) @ filter (\<lambda>p. map_of (st_files tree) p \<noteq> None) (map df_path (sc_delete change)))"
    using assms(2) by auto
  ultimately have "list_ex (\<lambda>d. dp_path d = path \<and> dp_file_hash d \<noteq> []) (sc_dependencies change)" by (rule bspec)
  then show ?thesis by (simp add: list_ex_iff)
qed

definition tree_sha :: "libs \<Rightarrow> source_tree \<Rightarrow> ustr \<Rightarrow> ustr option" where
  "tree_sha lb tree path =
    (case map_of (st_files tree) path of Some fl \<Rightarrow> Some (lib_digest lb (sf_text fl)) | None \<Rightarrow> map_of (st_assets tree) path)"

lemma validated_sync:
  assumes "validate_source_change lb tree change (Sync pv) rules max_files = Inr ()"
  shows "check_dependencies lb tree (sc_dependencies change) [] = Inr []" "unhashed_paths tree change = []"
    "validate_file_operations lb tree change rules max_files [] = Inr []"
proof -
  from assms obtain ch1 checked ch2 where
    c: "check_origin change (Sync pv) = Inr ()" "check_patches lb tree (sc_patches change) [] [] = Inr (ch1, checked)"
      "check_read lb tree change ch1 = Inr ch2" "check_hashed tree change (Sync pv) = Inr ()"
      "validate_file_operations lb tree change rules max_files ch2 = Inr []"
    by (auto simp: validate_source_change_def rbind_Inr_iff split: if_splits)
  have ch2: "ch2 = []" using file_operations_result[OF c(5)] by simp
  have "sc_consistency change = Unchanged_Dependencies" using c(1) by (auto simp: check_origin_def split: if_splits)
  with c(3) ch2 have d: "check_dependencies lb tree (sc_dependencies change) ch1 = Inr []" by (simp add: check_read_def)
  then have "ch1 = []" by (rule check_dependencies_changed)
  with d c ch2 show "check_dependencies lb tree (sc_dependencies change) [] = Inr []" "unhashed_paths tree change = []"
    "validate_file_operations lb tree change rules max_files [] = Inr []" by (auto simp: check_hashed_def split: if_splits)
qed

lemma file_operations_deletes:
  assumes "validate_file_operations lb tree change rules max_files [] = Inr []" "f \<in> set (sc_delete change)"
  shows "check_deletes tree (set (map pt_path (sc_patches change))) (sc_delete change) [] = Inr []"
proof -
  from assms(2) have "has_file_operations change" by (auto simp: has_file_operations_def)
  with assms(1) obtain ch1 ch2 ch3 a b where
    c: "check_deletes tree (set (map pt_path (sc_patches change))) (sc_delete change) [] = Inr ch1"
      "check_creates lb rules tree (sc_create change) ch1 [] = Inr (ch2, a)"
      "check_puts lb rules tree (sc_put_binary change) ch2 a = Inr (ch3, b)" "ch3 = []"
    by (auto simp: validate_file_operations_def Let_def rbind_Inr_iff split: if_splits)
  from check_puts_result[OF c(3)[unfolded c(4)]] check_creates_result[of lb rules tree "sc_create change" ch1 "[]" a] c show ?thesis by simp
qed

text \<open>Whatever a pushed change touches, the tree holds in the version its hashes name.\<close>

lemma validated_shas:
  assumes v: "validate_source_change lb tree change (Sync pv) rules max_files = Inr ()"
  shows "c \<in> set (sc_create change) \<Longrightarrow> tree_sha lb tree (cf_path c) = None"
    and "b \<in> set (sc_put_binary change) \<Longrightarrow> tree_sha lb tree (pb_path b) = pb_expect b"
    and "p \<in> set (sc_patches change) \<Longrightarrow>
      \<exists>d \<in> set (sc_dependencies change). dp_path d = pt_path p \<and> tree_sha lb tree (pt_path p) = Some (dp_file_hash d)"
    and "f \<in> set (sc_delete change) \<Longrightarrow> tree_sha lb tree (df_path f) = df_expect f \<or>
      (\<exists>d \<in> set (sc_dependencies change). dp_path d = df_path f \<and> tree_sha lb tree (df_path f) = Some (dp_file_hash d))"
proof -
  note fo = file_operations_result[OF validated_sync(3)[OF v]]
  have hashed: "\<exists>d \<in> set (sc_dependencies change). dp_path d = path \<and> tree_sha lb tree path = Some (dp_file_hash d)"
    if "path \<in> pt_path ` set (sc_patches change) \<or> path \<in> df_path ` set (sc_delete change) \<and> map_of (st_files tree) path \<noteq> None" for path
    using unhashed_none[OF validated_sync(2)[OF v] that] check_dependencies_result[OF validated_sync(1)[OF v]]
    by (fastforce simp: tree_sha_def)
  show "tree_sha lb tree (cf_path c) = None" if "c \<in> set (sc_create change)"
  proof -
    have "has_file_operations change" using that by (auto simp: has_file_operations_def)
    with fo that have "\<not> tree_has tree (cf_path c)" by blast
    then show ?thesis by (simp add: tree_sha_def)
  qed
  show "tree_sha lb tree (pb_path b) = pb_expect b" if "b \<in> set (sc_put_binary change)"
  proof -
    have "has_file_operations change" using that by (auto simp: has_file_operations_def)
    with fo that have "map_of (st_files tree) (pb_path b) = None" "map_of (st_assets tree) (pb_path b) = pb_expect b" by blast+
    then show ?thesis by (simp add: tree_sha_def)
  qed
  show "\<exists>d \<in> set (sc_dependencies change). dp_path d = pt_path p \<and> tree_sha lb tree (pt_path p) = Some (dp_file_hash d)"
    if "p \<in> set (sc_patches change)" using hashed that by blast
  show "tree_sha lb tree (df_path f) = df_expect f \<or>
      (\<exists>d \<in> set (sc_dependencies change). dp_path d = df_path f \<and> tree_sha lb tree (df_path f) = Some (dp_file_hash d))"
    if "f \<in> set (sc_delete change)"
  proof (cases "map_of (st_files tree) (df_path f)")
    case None
    with check_deletes_expect[OF file_operations_deletes[OF validated_sync(3)[OF v] that] that] show ?thesis by (simp add: tree_sha_def)
  next
    case (Some fl)
    with hashed[of "df_path f"] that show ?thesis by auto
  qed
qed

section \<open>What the client has planned\<close>

definition recorded_sha :: "file_record bmap \<Rightarrow> ustr \<Rightarrow> ustr option" where
  "recorded_sha recs path = map_option fr_sha (map_of recs path)"

text \<open>Everything a plan names carries the hash the state recorded, and what it creates had no record.\<close>

definition plan_ok :: "file_record bmap \<Rightarrow> push_plan \<Rightarrow> bool" where
  "plan_ok recs p \<longleftrightarrow>
    (\<forall>c \<in> set (pn_create p). recorded_sha recs (cf_path c) = None) \<and>
    (\<forall>b \<in> set (pn_put_binary p). recorded_sha recs (pb_path b) = pb_expect b) \<and>
    (\<forall>f \<in> set (pn_delete p). recorded_sha recs (df_path f) = df_expect f) \<and>
    (\<forall>d \<in> set (pn_dependencies p). recorded_sha recs (dp_path d) = Some (dp_file_hash d))"

lemma plan_added_ok:
  "plan_added found paths p = Some p' \<Longrightarrow> plan_ok recs p \<Longrightarrow> \<forall>path \<in> set paths. map_of recs path = None \<Longrightarrow> plan_ok recs p'"
proof (induction paths arbitrary: p)
  case (Cons path paths)
  then obtain f where f: "map_of found path = Some f" by (auto split: option.splits)
  show ?case
  proof (rule Cons.IH)
    show "\<forall>path \<in> set paths. map_of recs path = None" using Cons.prems(3) by simp
    show "plan_added found paths
        (case lf_kind f of
           Kind_Text \<Rightarrow> p\<lparr>pn_create := pn_create p @ [\<lparr>cf_path = path, cf_text = (case lf_text f of None \<Rightarrow> [] | Some t \<Rightarrow> t)\<rparr>]\<rparr>
         | Kind_Asset \<Rightarrow> p\<lparr>pn_uploads := pn_uploads p @ [(path, f)],
             pn_put_binary := pn_put_binary p @ [\<lparr>pb_path = path, pb_hash = lf_sha f, pb_expect = None\<rparr>]\<rparr>) = Some p'"
      using Cons.prems(1) f by simp
    show "plan_ok recs (case lf_kind f of
           Kind_Text \<Rightarrow> p\<lparr>pn_create := pn_create p @ [\<lparr>cf_path = path, cf_text = (case lf_text f of None \<Rightarrow> [] | Some t \<Rightarrow> t)\<rparr>]\<rparr>
         | Kind_Asset \<Rightarrow> p\<lparr>pn_uploads := pn_uploads p @ [(path, f)],
             pn_put_binary := pn_put_binary p @ [\<lparr>pb_path = path, pb_hash = lf_sha f, pb_expect = None\<rparr>]\<rparr>)"
      using Cons.prems(2,3) by (auto simp: plan_ok_def recorded_sha_def split: path_kind.splits)
  qed
qed simp

lemma plan_changed_ok:
  "plan_changed from_lines recs found bases paths p = Some p' \<Longrightarrow> plan_ok recs p \<Longrightarrow> plan_ok recs p'"
proof (induction paths arbitrary: p)
  case (Cons path paths)
  have text_ok: "plan_ok recs (p\<lparr>pn_dependencies := pn_dependencies p @ [dependency_on path (fr_sha r)], pn_patches := pn_patches p @ edits\<rparr>)"
    if "map_of recs path = Some r" for r edits
    using Cons.prems(2) that by (auto simp: plan_ok_def recorded_sha_def dependency_on_def)
  have asset_ok: "plan_ok recs (p\<lparr>pn_uploads := pn_uploads p @ [(path, f)],
      pn_put_binary := pn_put_binary p @ [\<lparr>pb_path = path, pb_hash = lf_sha f, pb_expect = Some (fr_sha r)\<rparr>]\<rparr>)"
    if "map_of recs path = Some r" for r f
    using Cons.prems(2) that by (auto simp: plan_ok_def recorded_sha_def)
  from Cons.prems show ?case
    by (auto intro: Cons.IH text_ok asset_ok split: option.splits path_kind.splits if_splits)
qed simp

lemma plan_delete_ok: "plan_ok recs p \<Longrightarrow> plan_ok recs (plan_delete recs path p)"
  by (auto simp: plan_delete_def plan_ok_def recorded_sha_def dependency_on_def split: option.splits)

lemma compare_added: "path \<in> set (lc_added (compare dir may recs sn)) \<Longrightarrow> map_of recs path = None"
  by (auto simp: compare_def Let_def)

lemma plan_change_ok:
  assumes "plan_change from_lines recs sn (compare dir may recs sn) bases = Some pln"
  shows "plan_ok recs pln"
proof -
  let ?c = "compare dir may recs sn"
  from assms obtain p1 p2 where p: "plan_added (sn_files sn) (lc_added ?c)
      \<lparr>pn_dependencies = [], pn_patches = [], pn_create = [], pn_delete = [], pn_put_binary = [], pn_uploads = []\<rparr> = Some p1"
    "plan_changed from_lines recs (sn_files sn) bases (lc_changed ?c) p1 = Some p2" "pln = fold (plan_delete recs) (lc_deleted ?c) p2"
    by (auto simp: plan_change_def bind_eq_Some_conv)
  have "plan_ok recs p1" by (rule plan_added_ok[OF p(1)]) (auto simp: plan_ok_def compare_added)
  then have "plan_ok recs p2" by (rule plan_changed_ok[OF p(2)])
  then show ?thesis unfolding p(3) by (rule fold_keeps[where P = "plan_ok recs"]) (rule plan_delete_ok)
qed

definition request_paths :: "push_request \<Rightarrow> ustr set" where
  "request_paths rq = pt_path ` set (rq_patches rq) \<union> cf_path ` set (rq_create rq) \<union> df_path ` set (rq_delete rq) \<union> pb_path ` set (rq_put_binary rq)"

lemma accepted_shas:
  assumes "plan_ok recs pln" "rq = plan_body pln key message named"
    and "validate_source_change lb tree (change_of_request rq) (Sync pv) rules max_files = Inr ()" "path \<in> request_paths rq"
  shows "tree_sha lb tree path = recorded_sha recs path"
proof -
  note v = validated_shas[OF assms(3)]
  have rq: "sc_create (change_of_request rq) = pn_create pln" "sc_put_binary (change_of_request rq) = pn_put_binary pln"
    "sc_delete (change_of_request rq) = pn_delete pln" "sc_dependencies (change_of_request rq) = pn_dependencies pln"
    "sc_patches (change_of_request rq) = pn_patches pln" by (simp_all add: assms(2) change_of_request_def plan_body_def)
  have "path \<in> pt_path ` set (pn_patches pln) \<union> cf_path ` set (pn_create pln) \<union> df_path ` set (pn_delete pln) \<union> pb_path ` set (pn_put_binary pln)"
    using assms(4) by (simp add: assms(2) request_paths_def plan_body_def)
  then consider p where "p \<in> set (pn_patches pln)" "path = pt_path p" | c where "c \<in> set (pn_create pln)" "path = cf_path c"
    | f where "f \<in> set (pn_delete pln)" "path = df_path f" | b where "b \<in> set (pn_put_binary pln)" "path = pb_path b" by auto
  then show ?thesis
  proof cases
    case 1
    with v(3)[of p, unfolded rq] assms(1) show ?thesis by (fastforce simp: plan_ok_def)
  next
    case 2
    with v(1)[of c, unfolded rq] assms(1) show ?thesis by (auto simp: plan_ok_def)
  next
    case 3
    with v(4)[of f, unfolded rq] assms(1) show ?thesis by (fastforce simp: plan_ok_def)
  next
    case 4
    with v(2)[of b, unfolded rq] assms(1) show ?thesis by (auto simp: plan_ok_def)
  qed
qed

section \<open>After an accepted push\<close>

lemma upserted_lookup:
  "map_of (upserted sn changes) p =
    (if p \<in> set (lc_added changes) \<union> set (lc_changed changes)
     then map_option (\<lambda>f. \<lparr>fr_kind = lf_kind f, fr_sha = lf_sha f\<rparr>) (map_of (sn_files sn) p) else None)"
  "distinct (map fst (upserted sn changes))"
proof -
  let ?step = "\<lambda>path m. case map_of (sn_files sn) path of
      Some f \<Rightarrow> bmap_insert path \<lparr>fr_kind = lf_kind f, fr_sha = lf_sha f\<rparr> m | None \<Rightarrow> m"
  have "map_of (fold ?step ps m) p = (if p \<in> set ps \<and> map_of (sn_files sn) p \<noteq> None
      then map_option (\<lambda>f. \<lparr>fr_kind = lf_kind f, fr_sha = lf_sha f\<rparr>) (map_of (sn_files sn) p) else map_of m p)" for ps m
    by (induction ps arbitrary: m) (auto split: option.splits)
  then show "map_of (upserted sn changes) p =
    (if p \<in> set (lc_added changes) \<union> set (lc_changed changes)
     then map_option (\<lambda>f. \<lparr>fr_kind = lf_kind f, fr_sha = lf_sha f\<rparr>) (map_of (sn_files sn) p) else None)"
    by (auto simp: upserted_def)
  show "distinct (map fst (upserted sn changes))"
    unfolding upserted_def by (rule fold_keeps[where P = "\<lambda>m. distinct (map fst m)"]) (auto simp: distinct_bmap_insert split: option.splits)
qed

lemma map_of_deletes: "map_of (fold AList.delete ds m) p = (if p \<in> set ds then None else map_of m p)"
  by (induction ds arbitrary: m) (auto simp: AList.delete_conv')

lemma accepted_lookup:
  assumes "pp_upsert p = upserted sn changes" "pp_deleted p = lc_deleted changes"
  shows "map_of (ss_files (accepted_state p sha s)) path =
    (if path \<in> set (lc_deleted changes) then None
     else if path \<in> set (lc_added changes) \<union> set (lc_changed changes) \<and> map_of (sn_files sn) path \<noteq> None
       then map_option (\<lambda>f. \<lparr>fr_kind = lf_kind f, fr_sha = lf_sha f\<rparr>) (map_of (sn_files sn) path)
     else map_of (ss_files s) path)"
  using assms
  by (auto simp: accepted_state_def Let_def map_of_deletes map_of_bmap_extend upserted_lookup split: option.splits)

lemma left_out_iff:
  "p \<in> set (left_out dir may sn paths) \<longleftrightarrow> p \<in> set paths \<and> map_of (sn_files sn) p = None \<and>
    (case sn_committed sn of Some held \<Rightarrow> p \<in> set held
      | None \<Rightarrow> (case inside dir p of Inr target \<Rightarrow> may target | Inl _ \<Rightarrow> False))"
  by (auto simp: left_out_def)

lemma accepted_agrees:
  assumes c: "changes = compare dir may (ss_files s) sn" and d: "distinct (map fst (sn_files sn))"
    and p: "pp_upsert p = upserted sn changes" "pp_deleted p = lc_deleted changes"
  shows "changes_empty (compare dir may (ss_files (accepted_state p sha s)) sn)"
proof -
  let ?r = "ss_files (accepted_state p sha s)"
  have look: "map_of (sn_files sn) path = Some f" if "(path, f) \<in> set (sn_files sn)" for path f
    using map_of_is_SomeI[OF d that] .
  have same: "map_option fr_sha (map_of ?r path) = Some (lf_sha f)" if "(path, f) \<in> set (sn_files sn)" for path f
  proof -
    have "path \<notin> set (lc_deleted changes)" using look[OF that] by (simp add: c compare_def Let_def)
    moreover have "path \<in> set (lc_added changes)" if "map_of (ss_files s) path = None"
      using that \<open>(path, f) \<in> _\<close> by (force simp: c compare_def Let_def)
    moreover have "path \<in> set (lc_changed changes)" if "map_of (ss_files s) path = Some r" "fr_sha r \<noteq> lf_sha f" for r
      using that \<open>(path, f) \<in> _\<close> by (force simp: c compare_def Let_def)
    ultimately show ?thesis using look[OF that] by (cases "map_of (ss_files s) path") (auto simp: accepted_lookup[OF p])
  qed
  have "lc_added (compare dir may ?r sn) = []" "lc_changed (compare dir may ?r sn) = []"
    using same by (fastforce simp: compare_def Let_def filter_empty_conv split: option.splits)+
  moreover have "path \<in> set (left_out dir may sn (map fst ?r)) \<or> scan_excludes sn path"
    if "path \<in> set (map fst ?r)" "map_of (sn_files sn) path = None" for path
  proof -
    from that(1) have "map_of ?r path \<noteq> None" by (simp add: map_of_eq_None_iff)
    then have o: "path \<notin> set (lc_deleted changes)" "path \<in> set (map fst (ss_files s))"
      using that(2) by (force simp: accepted_lookup[OF p] dest: map_of_SomeD split: if_splits)+
    from o that(2) have "path \<in> set (left_out dir may sn (map fst (ss_files s))) \<or> scan_excludes sn path"
      by (simp add: c compare_def Let_def)
    with that(1) show ?thesis by (simp only: left_out_iff) blast
  qed
  then have "lc_deleted (compare dir may ?r sn) = []" by (auto simp: compare_def Let_def filter_empty_conv)
  ultimately show ?thesis by (simp add: changes_empty_def changes_count_def)
qed

section \<open>Runs that are cut off\<close>

text \<open>What a directory is in: the state on disk, and the request that was posted and whose outcome
  nobody has read yet.  A run may stop between any two of its effects, and a posted request may be
  all that is left of it.\<close>

record world =
  w_store :: sync_state
  w_open :: "push_request option"

fun happens :: "push_event \<Rightarrow> world \<Rightarrow> world" where
  "happens (Save s) w = w\<lparr>w_store := s\<rparr>"
| "happens (Upload _) w = w"
| "happens (Post rq a) w = w\<lparr>w_open := (case a of None \<Rightarrow> Some rq | Some _ \<Rightarrow> None)\<rparr>"

definition cut :: "push_event list \<Rightarrow> push_event list \<Rightarrow> bool" where
  "cut evs evs' \<longleftrightarrow> prefix evs' evs \<or> (\<exists>before rq a. prefix (before @ [Post rq (Some a)]) evs \<and> evs' = before @ [Post rq None])"

inductive sync_world :: "world \<Rightarrow> bool" where
  linked: "ss_pending s = None \<Longrightarrow> sync_world \<lparr>w_store = s, w_open = None\<rparr>"
| pushed: "sync_world w \<Longrightarrow> push E opts (Inr (Some (w_store w))) = (evs, res) \<Longrightarrow> cut evs evs' \<Longrightarrow> sync_world (fold happens evs' w)"
| pulled: "sync_world w \<Longrightarrow> pull_plain L sv fo opts' found (Inr (Some (w_store w))) dsk = (dsk', Some s', res') \<Longrightarrow>
    sync_world (w\<lparr>w_store := s'\<rparr>)"

text \<open>The rules a run keeps: a request goes out only when it is the one saved, and never while
  another one's outcome is unknown; the saved record of an open request is not dropped.\<close>

fun keeps_rules :: "push_event \<Rightarrow> world \<Rightarrow> bool" where
  "keeps_rules (Save s) w \<longleftrightarrow> w_open w = None \<or> ss_pending s = ss_pending (w_store w)"
| "keeps_rules (Upload _) w \<longleftrightarrow> True"
| "keeps_rules (Post rq _) w \<longleftrightarrow> map_option pp_request (ss_pending (w_store w)) = Some rq \<and> (w_open w = None \<or> w_open w = Some rq)"

fun watch :: "push_event list \<Rightarrow> world \<Rightarrow> world option" where
  "watch [] w = Some w"
| "watch (e # es) w = (if keeps_rules e w then watch es (happens e w) else None)"

definition open_ok :: "world \<Rightarrow> bool" where
  "open_ok w \<longleftrightarrow> (\<forall>rq. w_open w = Some rq \<longrightarrow> map_option pp_request (ss_pending (w_store w)) = Some rq)"

lemma watch_append: "watch (xs @ ys) w = Option.bind (watch xs w) (watch ys)"
  by (induction xs arbitrary: w) simp_all

lemma watch_fold: "watch es w = Some w' \<Longrightarrow> w' = fold happens es w"
  by (induction es arbitrary: w) (auto split: if_splits)

lemma happens_open_ok: "open_ok w \<Longrightarrow> keeps_rules e w \<Longrightarrow> open_ok (happens e w)"
  by (cases e) (auto simp: open_ok_def split: option.splits)

lemma watch_open_ok: "watch es w = Some w' \<Longrightarrow> open_ok w \<Longrightarrow> open_ok w'"
  by (induction es arbitrary: w) (auto simp: happens_open_ok split: if_splits)

lemma watch_prefix: "watch (xs @ ys) w \<noteq> None \<Longrightarrow> watch xs w \<noteq> None"
  by (cases "watch xs w") (simp_all add: watch_append)

lemma watch_cut:
  assumes "watch evs w \<noteq> None" "cut evs evs'"
  shows "watch evs' w \<noteq> None"
proof (cases "prefix evs' evs")
  case True
  then obtain ys where "evs = evs' @ ys" by (auto simp: prefix_def)
  from watch_prefix[OF assms(1)[unfolded this]] show ?thesis .
next
  case False
  with assms(2) obtain before rq a ys where b: "evs = (before @ [Post rq (Some a)]) @ ys" "evs' = before @ [Post rq None]"
    unfolding cut_def prefix_def by blast
  from assms(1) have "watch (before @ [Post rq (Some a)]) w \<noteq> None" unfolding b(1) by (rule watch_prefix)
  then show ?thesis using b(2) by (cases "watch before w") (auto simp: watch_append split: if_splits)
qed

section \<open>Every run keeps the rules\<close>

text \<open>A run from a world with \<open>P\<close> keeps the rules, and if it returns then with \<open>Q\<close>.\<close>

definition safe_run :: "(world \<Rightarrow> bool) \<Rightarrow> 'a push_run \<Rightarrow> ('a \<Rightarrow> world \<Rightarrow> bool) \<Rightarrow> bool" where
  "safe_run P m Q \<longleftrightarrow> (\<forall>w. P w \<longrightarrow> (\<exists>w'. watch (fst m) w = Some w' \<and> (\<forall>x. snd m = Inr x \<longrightarrow> Q x w')))"

named_theorems safe_rules \<open>rules for the steps of a run\<close>

lemma safe_bind:
  assumes "safe_run P m R" "\<And>x. snd m = Inr x \<Longrightarrow> safe_run (R x) (f x) Q"
  shows "safe_run P (run_bind m f) Q"
  unfolding safe_run_def
proof (intro allI impI)
  fix w assume "P w"
  with assms(1) obtain w1 where w1: "watch (fst m) w = Some w1" "\<forall>x. snd m = Inr x \<longrightarrow> R x w1" by (auto simp: safe_run_def)
  show "\<exists>w'. watch (fst (run_bind m f)) w = Some w' \<and> (\<forall>x. snd (run_bind m f) = Inr x \<longrightarrow> Q x w')"
  proof (cases "snd m")
    case (Inl e)
    with w1 show ?thesis by (simp add: run_bind_def)
  next
    case (Inr x)
    with w1 assms(2)[OF Inr] show ?thesis by (auto simp: run_bind_def watch_append safe_run_def)
  qed
qed

lemma safe_ok [safe_rules]: "(\<And>w. P w \<Longrightarrow> Q x w) \<Longrightarrow> safe_run P (run_ok x) Q"
  by (simp add: safe_run_def run_ok_def)

lemma safe_fail [safe_rules]: "safe_run P (run_fail e) Q"
  by (simp add: safe_run_def run_fail_def)

lemma safe_panic [safe_rules]: "safe_run P ([], Inl e) Q"
  by (simp add: safe_run_def)

lemma safe_ask: "safe_run P (ask r) (\<lambda>x w. P w \<and> r = Inr x)"
  by (auto simp: ask_def safe_run_def run_ok_def run_fail_def split: sum.splits)

lemma safe_save:
  assumes "\<And>w. P w \<Longrightarrow> w_open w = None \<or> ss_pending s = ss_pending (w_store w)"
  shows "safe_run P (save_state E s) (\<lambda>_ w. \<exists>w0. P w0 \<and> w = w0\<lparr>w_store := s\<rparr>)"
  using assms by (auto simp: save_state_def safe_run_def run_fail_def split: option.splits)

lemma safe_post:
  assumes "\<And>w. P w \<Longrightarrow> map_option pp_request (ss_pending (w_store w)) = Some rq \<and> (w_open w = None \<or> w_open w = Some rq)"
  shows "safe_run P (post E rq) (\<lambda>_ w. \<exists>w0. P w0 \<and> w = w0\<lparr>w_open := None\<rparr>)"
  using assms by (auto simp: post_def safe_run_def split: sum.splits)

lemma safe_uploads: "safe_run P (upload_all E us) (\<lambda>_. P)"
proof (induction us)
  case (Cons u us)
  obtain path f where u: "u = (path, f)" by (cases u)
  have "safe_run P ([Upload path], Inr ()) (\<lambda>_. P)" "safe_run P ([Upload path], Inl e) (\<lambda>_. P)" for e
    by (simp_all add: safe_run_def)
  with Cons show ?case by (auto simp: u intro!: safe_bind split: option.splits)
qed (simp add: safe_ok)

definition idle_at :: "sync_state \<Rightarrow> world \<Rightarrow> bool" where
  "idle_at s w \<longleftrightarrow> w_store w = s \<and> ss_pending s = None \<and> w_open w = None"

lemma safe_settle:
  "safe_run (\<lambda>w. w_store w = s \<and> ss_pending s = Some p \<and> open_ok w) (settle_pending E s p) (\<lambda>(_, s'). idle_at s')"
proof -
  let ?P = "\<lambda>w. w_store w = s \<and> ss_pending s = Some p \<and> open_ok w"
  let ?R = "\<lambda>w. w_store w = s \<and> w_open w = None"
  have fin: "safe_run ?R (run_bind (save_state E s') (\<lambda>_. run_ok (o', s'))) (\<lambda>(_, s'). idle_at s')" if "ss_pending s' = None" for s' o'
    by (rule safe_bind[OF safe_save]) (auto intro!: safe_ok simp: idle_at_def that)
  have "safe_run ?P (post E (pp_request p)) (\<lambda>_ w. \<exists>w0. ?P w0 \<and> w = w0\<lparr>w_open := None\<rparr>)"
    by (rule safe_post) (metis (no_types, lifting) not_None_eq open_ok_def option.simps(9) option.inject)
  then have "safe_run ?P (post E (pp_request p)) (\<lambda>_. ?R)" by (fastforce simp: safe_run_def)
  then show ?thesis unfolding settle_pending_def
    by (rule safe_bind) (auto intro!: fin simp: Let_def accepted_state_def split: sent.splits)
qed

lemma pending_kept:
  "ss_pending (fst (settle_fetch g s)) = ss_pending s"
  "pin_branch rp requested s = Inr (s', bound) \<Longrightarrow> ss_pending s' = ss_pending s \<and> (\<not> bound \<longrightarrow> s' = s)"
  by (auto simp: settle_fetch_def promote_def Let_def pin_branch_def rbind_Inr_iff split: option.splits if_splits)

lemma safe_push_changes: "safe_run (idle_at s) (push_changes E opts settled s) (\<lambda>_ _. True)"
proof -
  have send: "safe_run (idle_at s) (run_bind (save_state E (s\<lparr>ss_pending := Some p\<rparr>)) (\<lambda>_.
      run_bind (settle_pending E (s\<lparr>ss_pending := Some p\<rparr>) p) (\<lambda>(outcome, _). run_ok outcome))) (\<lambda>_ _. True)" for s p
  proof (rule safe_bind[OF safe_save])
    let ?P = "\<lambda>w. w_store w = s\<lparr>ss_pending := Some p\<rparr> \<and> ss_pending (s\<lparr>ss_pending := Some p\<rparr>) = Some p \<and> open_ok w"
    have "safe_run ?P (run_bind (settle_pending E (s\<lparr>ss_pending := Some p\<rparr>) p) (\<lambda>(outcome, _). run_ok outcome)) (\<lambda>_ _. True)"
      by (rule safe_bind[OF safe_settle]) (auto intro!: safe_ok)
    then show "safe_run (\<lambda>w. \<exists>w0. idle_at s w0 \<and> w = w0\<lparr>w_store := s\<lparr>ss_pending := Some p\<rparr>\<rparr>)
        (run_bind (settle_pending E (s\<lparr>ss_pending := Some p\<rparr>) p) (\<lambda>(outcome, _). run_ok outcome)) (\<lambda>_ _. True)"
      by (auto simp: safe_run_def idle_at_def open_ok_def)
  qed (simp add: idle_at_def)
  have quiet: "safe_run P m (\<lambda>_. P)" if "fst m = []" for P and m :: "'b push_run" using that by (simp add: safe_run_def)
  have bases: "fst (read_bases E recs sn changes) = []" for recs sn changes
    by (auto simp: read_bases_def Let_def run_bind_def run_ok_def ask_def run_fail_def split: sum.splits option.splits)
  have scan: "fst (push_scan E opts rules) = []" for rules
    by (auto simp: push_scan_def run_bind_def run_ok_def ask_def run_fail_def split: sum.splits option.splits)
  have work: "safe_run (idle_at s) (run_bind (upload_all E us) (\<lambda>_. run_bind (save_state E (s\<lparr>ss_pending := Some p\<rparr>)) (\<lambda>_.
      run_bind (settle_pending E (s\<lparr>ss_pending := Some p\<rparr>) p) (\<lambda>(outcome, _). run_ok outcome)))) (\<lambda>_ _. True)" for s us p
    by (rule safe_bind[OF safe_uploads send])
  have fetched: "safe_run (idle_at s) (case en_repository E of None \<Rightarrow> run_ok s
      | Some g \<Rightarrow> (case settle_fetch g s of (s', moved) \<Rightarrow> if moved then run_bind (save_state E s') (\<lambda>_. run_ok s') else run_ok s')) idle_at"
  proof (cases "en_repository E")
    case (Some g)
    obtain s' moved where f: "settle_fetch g s = (s', moved)" by (cases "settle_fetch g s")
    then have p: "ss_pending s' = ss_pending s" "\<not> moved \<longrightarrow> s' = s" using pending_kept(1)[of g s] by (auto simp: settle_fetch_def Let_def)
    have "safe_run (idle_at s) (run_bind (save_state E s') (\<lambda>_. run_ok s')) idle_at"
      by (rule safe_bind[OF safe_save]) (auto intro!: safe_ok simp: idle_at_def p)
    with p show ?thesis by (auto simp: Some f intro!: safe_ok)
  qed (simp add: safe_ok)
  show ?thesis unfolding push_changes_def Let_def
    apply (rule safe_bind[OF safe_ask])
    apply (rule safe_bind[where R = idle_at])
    subgoal for rules using fetched by (simp add: safe_run_def)
    subgoal for rules s1
      apply (rule safe_bind[OF quiet[OF scan]])
      subgoal for x
        by (cases x) (auto intro!: safe_ok safe_fail safe_panic work safe_bind[OF quiet[OF bases]] split: option.splits)
      done
    done
qed

lemma push_safe: "safe_run (\<lambda>w. w_store w = s \<and> open_ok w) (push E opts (Inr (Some s))) (\<lambda>_ _. True)"
proof -
  have later: "safe_run (\<lambda>w. w_store w = s' \<and> open_ok w)
      (case ss_pending s' of
         None \<Rightarrow> push_changes E opts None s'
       | Some p \<Rightarrow>
           if pp_actor p \<noteq> en_actor E then run_fail PendingActor
           else run_bind (settle_pending E s' p) (\<lambda>(outcome, s'').
             case outcome of Pushed _ _ _ \<Rightarrow> push_changes E opts (Some outcome) s'' | _ \<Rightarrow> run_ok outcome)) (\<lambda>_ _. True)" for s'
  proof (cases "ss_pending s'")
    case None
    with safe_push_changes[of s' E opts None] show ?thesis by (auto simp: safe_run_def idle_at_def open_ok_def)
  next
    case (Some p)
    have "safe_run (\<lambda>w. w_store w = s' \<and> ss_pending s' = Some p \<and> open_ok w) (run_bind (settle_pending E s' p) (\<lambda>(outcome, s'').
             case outcome of Pushed _ _ _ \<Rightarrow> push_changes E opts (Some outcome) s'' | _ \<Rightarrow> run_ok outcome)) (\<lambda>_ _. True)"
      by (rule safe_bind[OF safe_settle]) (auto intro!: safe_push_changes safe_ok split: push_outcome.splits)
    with Some show ?thesis by (auto simp: safe_run_def run_fail_def)
  qed
  have pinned: "safe_run (\<lambda>w. w_store w = s \<and> open_ok w) (if bound then save_state E s' else run_ok ()) (\<lambda>_ w. w_store w = s' \<and> open_ok w)"
    if "pin_branch rp requested s = Inr (s', bound)" for rp requested s' bound
  proof -
    note kept = pending_kept(2)[OF that]
    have "safe_run (\<lambda>w. w_store w = s \<and> open_ok w) (save_state E s') (\<lambda>_ w. \<exists>w0. (w_store w0 = s \<and> open_ok w0) \<and> w = w0\<lparr>w_store := s'\<rparr>)"
      by (rule safe_save) (use kept in auto)
    then have "safe_run (\<lambda>w. w_store w = s \<and> open_ok w) (save_state E s') (\<lambda>_ w. w_store w = s' \<and> open_ok w)"
      using kept by (fastforce simp: safe_run_def open_ok_def)
    with kept show ?thesis by (auto intro!: safe_ok)
  qed
  have after_pin: "safe_run (\<lambda>w. w_store w = s \<and> open_ok w)
      (run_bind (if bound then save_state E s' else run_ok ()) (\<lambda>_.
        case ss_pending s' of
         None \<Rightarrow> push_changes E opts None s'
       | Some p \<Rightarrow>
           if pp_actor p \<noteq> en_actor E then run_fail PendingActor
           else run_bind (settle_pending E s' p) (\<lambda>(outcome, s'').
             case outcome of Pushed _ _ _ \<Rightarrow> push_changes E opts (Some outcome) s'' | _ \<Rightarrow> run_ok outcome))) (\<lambda>_ _. True)"
    if "pin_branch rp requested s = Inr (s', bound)" for rp requested s' bound
    by (rule safe_bind[OF pinned[OF that] later])
  have asked: "ask r = run_fail e" if "r = Inl e" for r :: "sync_error + (sync_state \<times> bool)" and e using that by (simp add: ask_def)
  show ?thesis
  proof (cases "pin_branch (map_option re_branch (en_repository E)) (pu_branch opts) s")
    case (Inl e)
    then show ?thesis by (auto simp: push_def ask_def run_bind_def run_ok_def run_fail_def safe_run_def)
  next
    case (Inr x)
    obtain s' bound where x: "x = (s', bound)" by (cases x)
    from after_pin[OF Inr[unfolded x]] Inr x show ?thesis
      by (auto simp: push_def ask_def safe_fail)
  qed
qed

lemma pull_needs_settled:
  "pull_plain L sv fo opts found (Inr (Some s)) dsk = (dsk', Some s', res) \<Longrightarrow> ss_pending s = None"
  by (cases "ss_pending s") (simp_all add: pull_plain_def refuse_while_pending_def)

lemma push_watched:
  assumes "open_ok w" "push E opts (Inr (Some (w_store w))) = (evs, res)" "cut evs evs'"
  shows "watch evs' w \<noteq> None"
proof -
  have "watch (fst (push E opts (Inr (Some (w_store w))))) w \<noteq> None"
    using push_safe[of "w_store w" E opts] assms(1) by (auto simp: safe_run_def)
  with assms(2) watch_cut[OF _ assms(3)] show ?thesis by simp
qed

lemma world_open_ok: "sync_world w \<Longrightarrow> open_ok w"
proof (induction rule: sync_world.induct)
  case (pushed w E opts evs res evs')
  from push_watched[OF pushed.IH pushed.hyps(2,3)] obtain w' where "watch evs' w = Some w'" by blast
  with watch_fold[OF this] watch_open_ok[OF this pushed.IH] show ?case by simp
next
  case (pulled w L sv fo opts' found dsk dsk' s' res')
  from pull_needs_settled[OF pulled.hyps(2)] pulled.IH show ?case by (simp add: open_ok_def)
qed (simp add: open_ok_def)

section \<open>Samples\<close>

definition push_state :: sync_state where
  "push_state = (new_state \<lparr>ln_site = [], ln_slug = []\<rparr>)\<lparr>ss_files := [(lit ''a.tex'', text_record ''old'')]\<rparr>"

definition empty_scan :: scan where
  "empty_scan = \<lparr>sn_files = [], sn_committed = None, sn_exclude = []\<rparr>"

definition push_sample :: push_env where
  "push_sample = \<lparr>en_libs = pull_libs, en_from_lines = replace_all, en_server = pull_server, en_repository = None,
    en_folder = \<lparr>fo_dir = lit ''/w'', fo_entries = [], fo_may_exist = (\<lambda>_. False), fo_write = (\<lambda>_. None), fo_trash = (\<lambda>_. None), fo_save = (\<lambda>_. None)\<rparr>,
    en_disk = (\<lambda>_. None), en_actor = lit ''me'', en_key = lit ''v2.17.'' @ replicate 32 0x61, en_upload = (\<lambda>_ _. None),
    en_answer = (\<lambda>_. Inl (Network []))\<rparr>"

definition push_opts :: push_options where
  "push_opts = \<lparr>pu_message = lit ''m'', pu_author = None, pu_exclude = [], pu_branch = None, pu_from_commit = None\<rparr>"

definition push_pln :: push_plan where
  "push_pln = \<lparr>pn_dependencies = [dependency_on (lit ''a.tex'') (lit ''old'')], pn_patches = [], pn_create = [],
    pn_delete = [\<lparr>df_path = lit ''a.tex'', df_expect = Some (lit ''old'')\<rparr>], pn_put_binary = [], pn_uploads = []\<rparr>"

definition push_changed :: local_changes where
  "push_changed = \<lparr>lc_added = [], lc_changed = [], lc_deleted = [lit ''a.tex'']\<rparr>"

definition push_pending :: pending_push where
  "push_pending = pending_of push_sample push_opts empty_scan None push_changed push_pln"

lemma push_compared: "compare (lit ''/w'') (\<lambda>_. False) (ss_files push_state) empty_scan = push_changed"
  by (simp add: compare_def push_state_def new_state_def empty_scan_def left_out_def bset_extend_def scan_excludes_def excluded_def push_changed_def)

lemma push_planned: "plan_change replace_all (ss_files push_state) empty_scan push_changed [] = Some push_pln"
  by (simp add: plan_change_def push_changed_def plan_delete_def push_state_def new_state_def text_record_def push_pln_def)

lemma push_sample_fields:
  "en_server push_sample = pull_server" "en_repository push_sample = None" "en_libs push_sample = pull_libs" "en_actor push_sample = lit ''me''"
  "en_from_lines push_sample = replace_all" "en_answer push_sample = (\<lambda>_. Inl (Network []))" "en_disk push_sample = (\<lambda>_. None)"
  "fo_save (en_folder push_sample) = (\<lambda>_. None)" "fo_dir (en_folder push_sample) = lit ''/w''" "fo_entries (en_folder push_sample) = []"
  "fo_may_exist (en_folder push_sample) = (\<lambda>_. False)" "sv_rules pull_server = Inr pull_rules"
  by (simp_all add: push_sample_def pull_server_def)

lemma push_scanned: "push_scan push_sample push_opts rules = run_ok (empty_scan, None)"
  by (simp add: push_scan_def push_sample_fields push_opts_def scan_dir_def List.map_filter_simps ask_def run_bind_def run_ok_def empty_scan_def)

lemma push_ran:
  "push push_sample push_opts (Inr (Some push_state)) =
    ([Save (push_state\<lparr>ss_pending := Some push_pending\<rparr>), Post (pp_request push_pending) None], Inl (Failed (Network [])))"
proof -
  have m: "trim (pu_message push_opts) \<noteq> []" "pu_branch push_opts = None" by (simp_all add: push_opts_def trim_def is_whitespace_def)
  have p: "ss_pending push_state = None" by (simp add: push_state_def new_state_def)
  have c: "\<not> changes_empty push_changed" "lc_added push_changed = []" "\<not> plan_is_empty push_pln" "pn_uploads push_pln = []"
    by (simp_all add: push_changed_def changes_empty_def changes_count_def plan_is_empty_def push_pln_def)
  have b: "read_bases push_sample recs empty_scan push_changed = run_ok ([], [])" for recs
    by (simp add: read_bases_def push_changed_def)
  have "push_changes push_sample push_opts None push_state =
    ([Save (push_state\<lparr>ss_pending := Some push_pending\<rparr>), Post (pp_request push_pending) None], Inl (Failed (Network [])))"
    using push_compared push_planned
    by (simp add: push_changes_def push_sample_fields ask_def push_scanned c b push_pending_def[symmetric] Let_def)
      (simp add: settle_pending_def post_def read_answer_def push_sample_fields save_state_def run_bind_def)
  with p show ?thesis
    by (simp add: push_def push_sample_fields ask_def pin_branch_def m)
qed

section \<open>Properties\<close>

text \<open>C2: a push overwrites nothing the directory has not seen.  If the server's validation accepts the
  request a push plans, against whatever tree the project then has, every path the request touches
  is in that tree exactly as the directory last recorded it: absent where there is no record, and
  otherwise a text or an asset with the recorded hash.\<close>

theorem accepted_push_overwrites_nothing:
  assumes "plan_change from_lines (ss_files s) sn changes bases = Some pln" "changes = compare dir may (ss_files s) sn"
    and "rq = pp_request (pending_of E opts sn commit changes pln)"
    and "validate_source_change lb tree (change_of_request rq) (Sync pv) rules max_files = Inr ()"
    and "path \<in> request_paths rq"
  shows "tree_sha lb tree path = recorded_sha (ss_files s) path"
  using accepted_shas[OF plan_change_ok[OF assms(1)[unfolded assms(2)]] _ assms(4,5)] assms(3) by (simp add: pending_of_def)

definition push_tree_now :: source_tree where
  "push_tree_now = \<lparr>st_files = [(lit ''a.tex'', \<lparr>sf_file_id = lit ''f'', sf_text = lit ''old''\<rparr>)], st_assets = [], st_revision = []\<rparr>"

lemma push_validated:
  "validate_source_change sample_libs push_tree_now (change_of_request (pp_request push_pending)) (Sync pv) sample_rules 2 = Inr ()"
proof -
  let ?c = "change_of_request (pp_request push_pending)"
  have f: "sc_operation ?c = \<lparr>op_epoch = lit ''sync'', op_id = lit ''v2.17.'' @ replicate 32 0x61\<rparr>" "sc_patches ?c = []" "sc_create ?c = []"
    "sc_put_binary ?c = []" "sc_consistency ?c = Unchanged_Dependencies" "sc_base_tree ?c = []"
    "sc_delete ?c = [\<lparr>df_path = lit ''a.tex'', df_expect = Some (lit ''old'')\<rparr>]"
    "sc_dependencies ?c = [dependency_on (lit ''a.tex'') (lit ''old'')]"
    by (simp_all add: change_of_request_def push_pending_def pending_of_def plan_body_def push_pln_def push_sample_def)
  have key: "validate_key (sc_operation ?c) = Inr ()" unfolding f
    by (simp add: validate_key_def request_key_timestamp_def parse_digits_def DOT_def starts_with_def is_ascii_digit_def
        is_lower_hex_def printable_ascii_def MAX_OPERATION_EPOCH_def MAX_OPERATION_ID_def len_utf8_def numeral_eq_Suc)
  have o: "check_origin ?c (Sync pv) = Inr ()" by (simp add: check_origin_def f)
  have r: "check_read sample_libs push_tree_now ?c [] = Inr []"
    by (simp add: check_read_def f dependency_on_def push_tree_now_def validate_path_def starts_with_def SLASH_def BACKSLASH_def DOT_def
        range_matches_def is_char_boundary_def str_get_def sample_libs_def)
  have h: "check_hashed push_tree_now ?c (Sync pv) = Inr ()"
    by (simp add: check_hashed_def unhashed_paths_def f dependency_on_def push_tree_now_def)
  have v: "validate_file_operations sample_libs push_tree_now ?c sample_rules 2 [] = Inr []"
    by (simp add: validate_file_operations_def has_file_operations_def f push_tree_now_def kept_names_def)
  show ?thesis unfolding validate_source_change_def key o
    using r h v by (simp add: f reject_overlaps_def)
qed

theorem accepted_push_overwrites_nothing_witness:
  "tree_sha sample_libs push_tree_now (lit ''a.tex'') = recorded_sha (ss_files push_state) (lit ''a.tex'')"
proof -
  have "lit ''a.tex'' \<in> request_paths (pp_request push_pending)"
    by (simp add: request_paths_def push_pending_def pending_of_def plan_body_def push_pln_def)
  from accepted_push_overwrites_nothing[OF push_planned push_compared[symmetric] push_pending_def[THEN arg_cong] push_validated this]
  show ?thesis .
qed

text \<open>C4: a lost answer never lets a second request out.  However often pushes and pulls run, stop half
  way or lose their answers, a push posts only the request its saved state holds, never posts
  another while the outcome of an earlier one is unknown, and never drops the record of that one
  before it has read an answer.\<close>

theorem lost_answers_are_settled_first:
  assumes "sync_world w" "push E opts (Inr (Some (w_store w))) = (evs, res)" "cut evs evs'"
  shows "watch evs' w \<noteq> None"
  using push_watched[OF world_open_ok[OF assms(1)] assms(2,3)] .

theorem lost_answers_are_settled_first_witness:
  "watch [Save (push_state\<lparr>ss_pending := Some push_pending\<rparr>), Post (pp_request push_pending) None] \<lparr>w_store = push_state, w_open = None\<rparr> \<noteq> None"
proof -
  have "sync_world \<lparr>w_store = push_state, w_open = None\<rparr>" by (rule linked) (simp add: push_state_def new_state_def)
  from lost_answers_are_settled_first[OF this] push_ran show ?thesis by (simp add: cut_def)
qed

text \<open>C39: an accepted push leaves nothing to push.  Once the answer to a planned request is recorded,
  comparing the same scan of the directory with the state finds nothing added, changed or deleted.\<close>

theorem accepted_push_leaves_nothing:
  assumes "changes = compare dir may (ss_files s) sn" "distinct (map fst (sn_files sn))"
    and "p = pending_of E opts sn commit changes pln"
  shows "changes_empty (compare dir may (ss_files (accepted_state p sha s)) sn)"
  using accepted_agrees[OF assms(1,2), of p sha] assms(3) by (simp add: pending_of_def)

theorem accepted_push_leaves_nothing_witness:
  "\<not> changes_empty (compare (lit ''/w'') (\<lambda>_. False) (ss_files push_state) empty_scan) \<and>
   changes_empty (compare (lit ''/w'') (\<lambda>_. False) (ss_files (accepted_state push_pending [] push_state)) empty_scan)"
proof -
  have d: "distinct (map fst (sn_files empty_scan))" by (simp add: empty_scan_def)
  have "\<not> changes_empty push_changed" by (simp add: push_changed_def changes_empty_def changes_count_def)
  with accepted_push_leaves_nothing[OF push_compared[symmetric] d push_pending_def] push_compared show ?thesis by simp
qed

end
