(* ===== verification/Sync_Discover.thy ===== *)
theory Sync_Discover
  imports Sync_Pull
begin

text \<open>
  Which versions a pull takes, client and server together: the pages and the quick check of
  \<open>server/history.rs\<close> with the queries of \<open>storage/postgres/labels.rs\<close>, and \<open>discover\<close> of
  \<open>sync/pull.rs\<close> asking them.  The labels of a document are listed newest first; the head
  identity is an argument.
\<close>

section \<open>The server's side\<close>

definition label_page_filtered :: "label_row list \<Rightarrow> int option \<Rightarrow> nat \<Rightarrow> bool \<Rightarrow> label_row list option" where
  "label_page_filtered rows after limit named =
    (if \<not> (1 \<le> limit \<and> limit \<le> 200) then None
     else Some (take limit (filter (\<lambda>r.
       lb_sequence r < (case after of None \<Rightarrow> 9223372036854775807 | Some a \<Rightarrow> a) \<and> (named \<longrightarrow> lb_label r \<noteq> None)) rows)))"

definition label_marks :: "label_row list \<Rightarrow> int \<Rightarrow> bool \<times> bool" where
  "label_marks rows pulled =
    (list_ex (\<lambda>r. lb_sequence r > pulled \<and> lb_label r \<noteq> None) rows, list_ex (\<lambda>r. lb_sequence r \<le> pulled) rows)"

definition handle_history :: "label_row list \<Rightarrow> ustr \<Rightarrow> bool \<Rightarrow> nat \<Rightarrow> int option \<Rightarrow> label_page option" where
  "handle_history rows head named limit after =
    map_option (\<lambda>page. \<lparr>lp_labels = page,
        lp_next = (if length page = limit then (if page = [] then None else Some (lb_sequence (last page))) else None), lp_head = Some head\<rparr>)
      (label_page_filtered rows after limit named)"

definition handle_history_head :: "label_row list \<Rightarrow> ustr \<Rightarrow> int \<Rightarrow> head_check" where
  "handle_history_head rows head pulled =
    (case label_marks rows pulled of (newer, base) \<Rightarrow> \<lparr>hc_head = head, hc_newer = newer, hc_base = base\<rparr>)"

text \<open>The three requests of the client; any failure of the catalogue is a failed request.\<close>

definition ask_pages :: "label_row list \<Rightarrow> ustr \<Rightarrow> int option \<Rightarrow> sync_error + label_page" where
  "ask_pages rows head after = ok_or (Http 500 []) (handle_history rows head True 200 after)"

definition ask_older :: "label_row list \<Rightarrow> ustr \<Rightarrow> int \<Rightarrow> sync_error + label_page" where
  "ask_older rows head after = ok_or (Http 500 []) (handle_history rows head False 1 (Some after))"

definition ask_quiet :: "label_row list \<Rightarrow> ustr \<Rightarrow> int \<Rightarrow> sync_error + head_check option" where
  "ask_quiet rows head pulled = Inr (Some (handle_history_head rows head pulled))"

section \<open>Descending lists\<close>

abbreviation newest_first :: "label_row list \<Rightarrow> bool" where
  "newest_first rows \<equiv> sorted_wrt (\<lambda>a b. lb_sequence b < lb_sequence a) rows"

lemma newest_first_filter: "newest_first rows \<Longrightarrow> newest_first (filter P rows)"
  by (rule sorted_wrt_filter)

lemma newest_first_cut:
  assumes "newest_first (xs @ [x] @ ys)"
  shows "filter (\<lambda>r. lb_sequence r < lb_sequence x) (xs @ [x] @ ys) = ys"
proof -
  have "filter (\<lambda>r. lb_sequence r < lb_sequence x) xs = []" using assms by (auto simp: sorted_wrt_append filter_empty_conv)
  moreover have "filter (\<lambda>r. lb_sequence r < lb_sequence x) ys = ys" using assms by (auto simp: sorted_wrt_append intro!: filter_True)
  ultimately show ?thesis by simp
qed

lemma newest_first_take:
  "newest_first rows \<Longrightarrow> takeWhile (\<lambda>r. \<not> at_or_below pulled r) rows = filter (\<lambda>r. \<not> at_or_below pulled r) rows"
proof (induction rows)
  case (Cons r rows)
  then have below: "filter (\<lambda>r. \<not> at_or_below pulled r) rows = []" if "at_or_below pulled r"
    using that by (auto simp: at_or_below_def filter_empty_conv split: option.splits)
  from Cons show ?case by (simp add: below)
qed simp

lemma select_result: "select rows pulled = (rev (takeWhile (\<lambda>r. \<not> at_or_below pulled r) rows), list_ex (at_or_below pulled) rows)"
proof -
  have "select_from pulled rows taken = (rev (taken @ takeWhile (\<lambda>r. \<not> at_or_below pulled r) rows), list_ex (at_or_below pulled) rows)" for taken
    by (induction rows arbitrary: taken) auto
  then show ?thesis by (simp add: select_def)
qed

section \<open>The loop over the pages\<close>

text \<open>What is left to show after a cursor.\<close>

definition rest_after :: "label_row list \<Rightarrow> int option \<Rightarrow> label_row list" where
  "rest_after rows after = filter (\<lambda>r. lb_sequence r < (case after of None \<Rightarrow> 9223372036854775807 | Some a \<Rightarrow> a) \<and> lb_label r \<noteq> None) rows"

lemma ask_pages_rest:
  "ask_pages rows head after = Inr \<lparr>lp_labels = take 200 (rest_after rows after),
    lp_next = (if 200 \<le> length (rest_after rows after) then Some (lb_sequence (rest_after rows after ! 199)) else None), lp_head = Some head\<rparr>"
  by (auto simp: ask_pages_def handle_history_def label_page_filtered_def rest_after_def last_conv_nth)

lemma rest_after_page:
  assumes "newest_first rows" "200 \<le> length (rest_after rows after)"
  shows "rest_after rows (Some (lb_sequence (rest_after rows after ! 199))) = drop 200 (rest_after rows after)"
    and "Some (lb_sequence (rest_after rows after ! 199)) \<noteq> after"
proof -
  let ?r = "rest_after rows after" let ?x = "?r ! 199"
  have n: "newest_first ?r" using assms(1) unfolding rest_after_def by (rule newest_first_filter)
  have split: "?r = take 199 ?r @ [?x] @ drop 200 ?r" using assms(2) id_take_nth_drop[of 199 ?r] by simp
  have x: "lb_sequence ?x < (case after of None \<Rightarrow> 9223372036854775807 | Some a \<Rightarrow> a)"
    using nth_mem[of 199 ?r] assms(2) by (simp add: rest_after_def)
  have "rest_after rows (Some (lb_sequence ?x)) = filter (\<lambda>r. lb_sequence r < lb_sequence ?x) ?r"
    using x by (auto simp: rest_after_def intro!: filter_cong)
  also have "\<dots> = drop 200 ?r" using newest_first_cut[of "take 199 ?r" ?x "drop 200 ?r"] n split by metis
  finally show "rest_after rows (Some (lb_sequence ?x)) = drop 200 ?r" .
  show "Some (lb_sequence ?x) \<noteq> after" using x by (cases after) auto
qed

text \<open>The loop returns, with everything that is left or with enough of it to reach the version asked
  about.\<close>

lemma read_pages_returns:
  assumes "newest_first rows"
  shows "\<exists>shown H. read_pages (ask_pages rows head) pulled after seen h = Some (Inr (seen @ shown, H)) \<and>
    H = (if after = None then Some head else h) \<and> prefix shown (rest_after rows after) \<and>
    (shown = rest_after rows after \<or> list_ex (at_or_below pulled) shown)"
proof (induction "length (rest_after rows after)" arbitrary: after seen h rule: less_induct)
  case less
  let ?r = "rest_after rows after"
  show ?case
  proof (cases "200 \<le> length ?r \<and> \<not> list_ex (at_or_below pulled) (take 200 ?r)")
    case False
    then show ?thesis
      by (subst read_pages.simps) (auto simp: ask_pages_rest Let_def take_is_prefix)
  next
    case True
    note page = rest_after_page[OF assms, of after, OF conjunct1[OF True]]
    let ?c = "Some (lb_sequence (?r ! 199))"
    let ?h = "if after = None then Some head else h"
    have "length (rest_after rows ?c) < length ?r" using True unfolding page(1) length_drop by linarith
    from less[OF this, of "seen @ take 200 ?r" ?h] obtain shown where
      m: "read_pages (ask_pages rows head) pulled ?c (seen @ take 200 ?r) ?h = Some (Inr ((seen @ take 200 ?r) @ shown, ?h))"
        "prefix shown (drop 200 ?r)" "shown = drop 200 ?r \<or> list_ex (at_or_below pulled) shown" by (auto simp: page(1))
    have "read_pages (ask_pages rows head) pulled after seen h = Some (Inr (seen @ (take 200 ?r @ shown), ?h))"
      using True page(2) m(1) by (subst read_pages.simps) (auto simp: ask_pages_rest Let_def)
    moreover have "prefix (take 200 ?r @ shown) ?r" using m(2) by (metis append_take_drop_id same_prefix_prefix)
    moreover have "take 200 ?r @ shown = ?r \<or> list_ex (at_or_below pulled) (take 200 ?r @ shown)" using m(3) by (metis append_take_drop_id list_ex_append)
    ultimately show ?thesis by blast
  qed
qed

section \<open>Properties\<close>

lemma kept_prefix_select:
  assumes "newest_first rest" "prefix shown rest" "shown = rest \<or> list_ex (at_or_below pulled) shown"
  shows "select shown pulled = (rev (filter (\<lambda>r. \<not> at_or_below pulled r) rest), list_ex (at_or_below pulled) rest)"
proof -
  from assms(2) obtain zs where z: "rest = shown @ zs" by (auto simp: prefix_def)
  have "takeWhile (\<lambda>r. \<not> at_or_below pulled r) shown = takeWhile (\<lambda>r. \<not> at_or_below pulled r) rest"
    "list_ex (at_or_below pulled) shown = list_ex (at_or_below pulled) rest"
    using assms(3) by (auto simp: z list_ex_iff takeWhile_append)
  with newest_first_take[OF assms(1), of pulled] show ?thesis by (simp add: select_result)
qed

lemma ask_older_found:
  assumes "\<forall>r \<in> set rows. lb_sequence r < 9223372036854775807"
  shows "\<exists>page. ask_older rows head (n + 1) = Inr page \<and> (lp_labels page \<noteq> [] \<longleftrightarrow> list_ex (at_or_below (Some n)) rows)"
  by (auto simp: ask_older_def handle_history_def label_page_filtered_def at_or_below_def list_ex_iff filter_empty_conv take_Suc)

text \<open>What the pages amount to, when they are all read.\<close>

lemma read_pages_selected:
  assumes "newest_first rows" "\<forall>r \<in> set rows. lb_sequence r < 9223372036854775807"
  shows "\<exists>shown found. read_pages (ask_pages rows head) pulled None [] None = Some (Inr (shown, Some head)) \<and>
    select shown pulled = (rev (filter (\<lambda>r. lb_label r \<noteq> None \<and> \<not> at_or_below pulled r) rows), found) \<and>
    (found \<longrightarrow> list_ex (at_or_below pulled) rows)"
proof -
  let ?rest = "rest_after rows None"
  have rest: "?rest = filter (\<lambda>r. lb_label r \<noteq> None) rows" using assms(2) by (auto simp: rest_after_def intro!: filter_cong)
  have nf: "newest_first ?rest" unfolding rest using assms(1) by (rule newest_first_filter)
  obtain shown where m: "read_pages (ask_pages rows head) pulled None [] None = Some (Inr (shown, Some head))"
    "prefix shown ?rest" "shown = ?rest \<or> list_ex (at_or_below pulled) shown"
    using read_pages_returns[OF assms(1), of head pulled None "[]" None] by auto
  have "filter (\<lambda>r. \<not> at_or_below pulled r) ?rest = filter (\<lambda>r. lb_label r \<noteq> None \<and> \<not> at_or_below pulled r) rows"
    by (simp add: rest conj_commute)
  with m(1) kept_prefix_select[OF nf m(2,3)] show ?thesis by (auto simp: rest list_ex_iff)
qed

lemma discover_pages_found:
  assumes "newest_first rows" "\<forall>r \<in> set rows. lb_sequence r < 9223372036854775807"
    and "newer = filter (\<lambda>r. lb_label r \<noteq> None \<and> \<not> at_or_below pulled r) rows"
    and "base \<longleftrightarrow> pulled = None \<or> list_ex (at_or_below pulled) rows"
  shows "discover_pages (ask_pages rows head) (ask_older rows head) pulled =
    Some (Inr \<lparr>dc_versions = rev (if base then newer else take 1 newer), dc_trimmed = (\<not> base),
      dc_from_head = (newer = [] \<and> (pulled = None \<or> \<not> base)), dc_head = Some head\<rparr>)"
proof -
  obtain shown found where m: "read_pages (ask_pages rows head) pulled None [] None = Some (Inr (shown, Some head))"
    "select shown pulled = (rev newer, found)" "found \<longrightarrow> list_ex (at_or_below pulled) rows"
    using read_pages_selected[OF assms(1,2), of head pulled] unfolding assms(3) by blast
  show ?thesis
  proof (cases pulled)
    case None
    with assms(4) have base by simp
    then show ?thesis unfolding discover_pages_def m(1) option.case sum.case prod.case m(2) Let_def unfolding None option.case rbind_simps
      by (simp add: plan_versions_def)
  next
    case (Some n)
    obtain page where page: "ask_older rows head (n + 1) = Inr page" "lp_labels page \<noteq> [] \<longleftrightarrow> list_ex (at_or_below (Some n)) rows"
      using ask_older_found[OF assms(2)] by blast
    have b: "(if found then Inr True else rbind (ask_older rows head (n + 1)) (\<lambda>page. Inr (lp_labels page \<noteq> []))) = Inr base"
      using m(3) page Some assms(4) by auto
    show ?thesis unfolding discover_pages_def m(1) option.case sum.case prod.case m(2) Let_def unfolding Some option.case b rbind_simps
      by (cases newer) (auto simp: plan_versions_def Let_def)
  qed
qed

text \<open>C38: a pull finds every version there is to take.  Asked over any number of pages, and by way of
  the quick check or not, \<open>discover\<close> returns, and what it returns is exactly the named versions
  newer than the one last pulled, oldest first; when nothing at or below that one is left it says
  that history was trimmed and takes only the newest; and it names the project as it stands as the
  base just when there is no version to stand on.\<close>

theorem discover_finds_versions:
  assumes "newest_first rows" "\<forall>r \<in> set rows. lb_sequence r < 9223372036854775807"
    and "newer = filter (\<lambda>r. lb_label r \<noteq> None \<and> \<not> at_or_below pulled r) rows"
    and "base \<longleftrightarrow> pulled = None \<or> list_ex (at_or_below pulled) rows"
  shows "discover (ask_quiet rows head) (ask_pages rows head) (ask_older rows head) pulled known =
    Some (Inr \<lparr>dc_versions = rev (if base then newer else take 1 newer), dc_trimmed = (\<not> base),
      dc_from_head = (newer = [] \<and> (pulled = None \<or> \<not> base)), dc_head = Some head\<rparr>)"
proof -
  have quiet: "newer = [] \<and> base"
    if "pulled = Some n" "\<not> hc_newer (handle_history_head rows head n)" "hc_base (handle_history_head rows head n)" for n
    using that assms(4) by (auto simp: assms(3) handle_history_head_def label_marks_def list_ex_iff at_or_below_def filter_empty_conv)
  have "hc_head (handle_history_head rows head n) = head" for n by (simp add: handle_history_head_def label_marks_def)
  then show ?thesis using quiet
    unfolding discover_def discover_pages_found[OF assms(1-4)] by (cases pulled; cases known) (auto simp: ask_quiet_def)
qed

definition label_at :: "int \<Rightarrow> string option \<Rightarrow> label_row" where
  "label_at n name = \<lparr>lb_sha = [], lb_sequence = n, lb_at = [], lb_by = [], lb_label = map_option lit name, lb_reason = [],
    lb_tree_sha = None, lb_frontier = [], lb_archive_status = []\<rparr>"

theorem discover_finds_versions_witness:
  "discover (ask_quiet [label_at 9 (Some ''c''), label_at 7 (Some ''b''), label_at 5 None] (lit ''h''))
      (ask_pages [label_at 9 (Some ''c''), label_at 7 (Some ''b''), label_at 5 None] (lit ''h''))
      (ask_older [label_at 9 (Some ''c''), label_at 7 (Some ''b''), label_at 5 None] (lit ''h'')) (Some 5) None =
    Some (Inr \<lparr>dc_versions = [label_at 7 (Some ''b''), label_at 9 (Some ''c'')], dc_trimmed = False, dc_from_head = False, dc_head = Some (lit ''h'')\<rparr>)"
  using discover_finds_versions[of "[label_at 9 (Some ''c''), label_at 7 (Some ''b''), label_at 5 None]" _ "Some 5" _ "lit ''h''" None, OF _ _ refl refl]
  by (simp add: label_at_def at_or_below_def)

end
