(* ===== verification/Spec2Isabelle.thy ===== *)
theory Spec2Isabelle
  imports Text_Index Log_Frame Budgets Schedule_Spec Sequencer_Books Source_Command Sync_Push Sync_Discover
begin

text \<open>
  A model of LibrePaper, a collaborative editor for papers (\<open>src/crates\<close>), and of
  what makes its core correct.

  \<^bold>\<open>The program.\<close> A project is a tree of text files in one CRDT document, with suggestions (tracked
  changes) stored beside the texts. Browsers send update blobs over sockets; the sequencer of the
  document applies them, acknowledges, buffers and flushes them as rows of a durable log, and a joining
  client gets the base, the rows and the buffer. Budgets bound the bytes each of these may hold. The
  command-line client keeps a folder in step with the project: \<open>pull\<close> takes versions of the web into
  the folder, \<open>push\<close> sends the folder's differences as one source change, which the server validates
  as a whole, maps onto the stored text past the suggestions and runs as one command of the sequencer.
  Each stage is a group of theories below; the last section here joins the two ends of a push.

  \<^bold>\<open>Suggestions\<close> (\<open>librepaper-document/src/document\<close>).
    \<^item> \<open>Track_Plan\<close>: the planner of \<open>track.rs\<close>, \<open>plan_edits\<close> and each stage of \<open>plan_one\<close>, over rows
      of suggested insertions (\<open>changes\<close>) and kept deletions (\<open>gaps\<close>).
    \<^item> \<open>Track_Original\<close>, \<open>Track_Wf\<close>, \<open>Track_Batch\<close>: a tracked batch keeps the original text, every
      plan is well formed, and no stored fragment is lost.
    \<^item> \<open>Track_Text\<close>: the reader, \<open>unsuggested\<close> and \<open>to_stored\<close>; what it renders is the original text.
    \<^item> \<open>Track_Untracked\<close>: an untracked batch that \<open>to_stored\<close> answers for changes what people see
      exactly by its edits; \<open>untracked_edits\<close>.
    \<^item> \<open>Edits\<close>: \<open>overlap.rs\<close>, \<open>session/edits.rs\<close> and the line endings of \<open>base/text.rs\<close>: batches land
      whole or not at all.
    \<^item> \<open>Text_Index\<close>: \<open>text_index.rs\<close>, the UTF-8 and UTF-16 offsets and their inverse conversions.

  \<^bold>\<open>Source changes\<close> (\<open>librepaper-room/src/room\<close>, \<open>librepaper-base/src\<close>).
    \<^item> \<open>Paths\<close>: \<open>base/paths.rs\<close> and \<open>sync/rules.rs\<close>: an admitted path stays in its folder.
    \<^item> \<open>Source_Change\<close>: the validation in \<open>room/source_change.rs\<close>, all or nothing, and the legal names
      it leaves.
    \<^item> \<open>Source_Command\<close>: the command's \<open>prepare\<close>: patches a client made against the text it was shown
      become edits of the stored text.

  \<^bold>\<open>The log\<close> (\<open>librepaper-engine/src/log\<close>, \<open>storage/postgres/document_log.rs\<close>).
    \<^item> \<open>Log_Frame\<close>: \<open>frame.rs\<close>, the bytes of a row, their round trip, and what a cut row decodes to.
    \<^item> \<open>Loro_Interface\<close>: the CRDT library as a record of operations with the laws \<open>loro_laws\<close>, and an
      operation-set instance of them.
    \<^item> \<open>Durable_Log\<close>: rows, head and base of one document as the queries read and write them.
    \<^item> \<open>Sequencer\<close>: the state \<open>Inner\<close> and the operations of \<open>sequencer.rs\<close>, each with its guards and
      early returns; \<open>Sequencer_Core\<close>: what they leave alone; \<open>Sequencer_Books\<close>: the byte accounting and
      the scratch of a flush; \<open>Sequencer_Log\<close>: sequencer and database as a step relation in which
      answers get lost, late transactions commit, and other writers append.

  \<^bold>\<open>Budgets, queues and the worker\<close> (\<open>librepaper-engine/src\<close>, \<open>librepaper-base/src\<close>).
    \<^item> \<open>Byte_Pool\<close> (\<open>pool.rs\<close>): the sequential operations, and the compare-and-swap loop as steps of
      any number of threads.
    \<^item> \<open>Budgets\<close> (\<open>pending.rs\<close>, \<open>budget.rs\<close>, \<open>ledger.rs\<close>, \<open>config/budget.rs\<close>), \<open>Socket_Budget\<close>
      (\<open>config/socket_budget.rs\<close>), \<open>Outgoing\<close> (\<open>storage/outgoing.rs\<close>): the counters are the sums of
      what is held, within their limits, in every reachable state.
    \<^item> \<open>Retry\<close> (\<open>base/retry.rs\<close>): the delays, and that the loop returns under an attempt limit.
    \<^item> \<open>Schedule\<close>, \<open>Schedule_Spec\<close> (\<open>storage/schedule.rs\<close>): the deadline map, its abstract
      specification and the refinement between them.

  \<^bold>\<open>The sync client\<close> (\<open>librepaper-sync/src\<close>, with \<open>server/history.rs\<close>, \<open>server/source_change.rs\<close>
  and \<open>storage/postgres/labels.rs\<close>).
    \<^item> \<open>Sync_Diff\<close> (\<open>diff.rs\<close>): the byte patches of a text file turn the old text into the new.
    \<^item> \<open>Sync_State\<close> (\<open>state.rs\<close>, \<open>walk.rs\<close>, \<open>files.rs\<close>, \<open>error.rs\<close>): what a directory remembers, and the
      comparison of a scan with it.
    \<^item> \<open>Sync_Pull\<close> (\<open>pull.rs\<close>, \<open>client.rs\<close>): a pull into a plain folder.  Local work survives wherever
      the pull stops, the web's files arrive, and pulling again does nothing.
    \<^item> \<open>Sync_Push\<close> (\<open>push.rs\<close>): a push as a run of events (saves, posts, uploads, answers) that may be
      cut after any of them.  Nothing unseen is overwritten, and a lost answer is settled first.
    \<^item> \<open>Sync_Discover\<close>: the label pages and the quick check on the server, and \<open>discover\<close>, which finds
      every version there is to take.

  \<^bold>\<open>The library.\<close> \<open>Prelude\<close> holds the types, the result type \<open>error + 'a\<close>, the text units and the
  arithmetic all theories share; \<open>Utf8_Bytes\<close> the part of the standard library between strings and
  bytes. Four interfaces are locales: \<open>refines\<close> (a simulation of operation sequences, interpreted by the
  deadline map), \<open>byte_pool\<close> (interpreted by the pool, used by both byte budgets), \<open>text_laws\<close> (a text
  container of the document, interpreted by plain texts) and \<open>loro_laws\<close> (interpreted by documents
  that are sets of operations). The last two state documented behaviour of the CRDT library.

  \<^bold>\<open>Conventions and bounds.\<close> A string is the list of its Unicode scalars; offsets are naturals with the
  widths of UTF-8 and UTF-16 and the checked or saturating arithmetic of the source, and machine
  integers are words where their wrap-around matters. Locks are held for a whole operation, so an
  operation is one step; the compare-and-swap loop, whose steps do interleave, is modelled step by
  step. Loops recurse over their data, except the retry loop (\<open>run_from\<close>) and the page
  loop of \<open>discover\<close> (\<open>read_pages\<close>), whose length their environment decides: these are partial
  functions, proved to return. A page
  is the 200 labels the source asks for. Hash functions, Unicode normalisation, the line diff, minted
  ids, clocks and random shares are arguments of the definitions that use them. A failed file-system
  call changes nothing, nobody else writes the folder between the scan and the writes, and
  version numbers are unbounded integers: \<open>pulled + 1\<close> would need 2^63 versions to overflow.

  \<^bold>\<open>Not modelled.\<close> HTTP routes, authorization, sign-in, chat, graphs and the agent protocol, which wrap
  the operations here in input and output; comments, anchors and the projection, which live in
  containers of the CRDT library and in the catalogue; SQL beyond the queries of the log and of
  the labels; object storage, backups and the task runners; the JSON forms of state and of metrics; of
  the sequencer, the historical projections, the eviction order and the export of a shallow snapshot;
  of the sync client, pulls and commits inside a git repository, publishing and the preview; the local
  companion, the command line and the desktop shell.
\<close>

section \<open>A push, end to end\<close>

text \<open>C1: what a person pushes is what everybody sees. The client computes the patches from the text
  it was shown, with pending suggestions left out, to its own text; once the server has prepared
  the change, the edits are taken whole by the stored text, suggestions and all, and the text shown
  afterwards is exactly the client's text.\<close>

theorem pushed_text_is_seen:
  assumes "prepare_change lb tree doc change (Sync pv) rules max_files = Some (Inr (Some change2))"
    and "map_of (st_files tree) path = Some fl" "doc (sf_file_id fl) = Some (sf_text fl, st)"
    and "wf_rows (length (sf_text fl)) (state_rows (fs_changes st)) (state_rows (fs_gaps st))"
    and "fresh_ids mint k (state_rows (fs_changes st))"
    and "text_laws T" "text_string T x = sf_text fl" "str_len16 (sf_text fl) < usize_max"
    and "u_text (unsuggested (sf_text fl) st) = shown"
    and "patches from_lines path shown after = Some (filter (\<lambda>p. pt_path p = path) (sc_patches change))"
    and "shown \<noteq> after \<Longrightarrow> diff_ok (from_lines shown after) shown after" "CR \<notin> set after"
  shows "\<exists>edits x' r. file_edits tree (sc_patches change2) path = Inr edits \<and> untracked_edits T x st edits mint k = (x', Inr r) \<and>
    u_text (unsuggested (text_string T x') (untracked_state st r)) = after"
proof -
  let ?ps = "filter (\<lambda>p. pt_path p = path) (sc_patches change)"
  obtain cs where cs: "list_all2 (patch_at shown) ?ps cs" "edited shown cs = after" "sorted_wrt (\<lambda>p q. pt_end p < pt_start q) ?ps"
    using patches_patched[of shown after from_lines path, OF assms(11,12)] assms(10) by auto
  have "\<forall>p \<in> set ?ps. pt_start p \<le> pt_end p"
    using patches_match[OF cs(1)] by (simp add: range_matches_def)
  then have "sort_key range_of ?ps = ?ps" by (rule ascending_sorted[OF cs(3)])
  with prepared_file_seen[OF assms(1-8)] assms(9) obtain edits x' r cs' where
    "file_edits tree (sc_patches change2) path = Inr edits" "untracked_edits T x st edits mint k = (x', Inr r)"
    "list_all2 (patch_at shown) ?ps cs'" "u_text (unsuggested (text_string T x') (untracked_state st r)) = edited shown cs'" by auto
  with patches_at_unique[OF cs(1)] cs(2) show ?thesis by blast
qed

theorem pushed_text_is_seen_witness:
  "\<exists>edits x' r. file_edits push_tree [push_patch\<lparr>pt_start := 5, pt_end := 6\<rparr>] (lit ''a.tex'') = Inr edits \<and>
    untracked_edits plain_text sample_text sample_state edits sample_mint 0 = (x', Inr r) \<and>
    u_text (unsuggested x' (untracked_state sample_state r)) = lit ''adoldeF!''"
proof -
  let ?fl = "\<lparr>sf_file_id = lit ''f'', sf_text = sample_text\<rparr>"
  have f: "map_of (st_files push_tree) (lit ''a.tex'') = Some ?fl" "push_doc (sf_file_id ?fl) = Some (sf_text ?fl, sample_state)"
    by (simp_all add: push_tree_def push_doc_def)
  have s: "str_len16 (sf_text ?fl) < usize_max" by (simp add: sample_text_def usize_max_def len_utf16_def)
  have w: "wf_rows (length (sf_text ?fl)) (state_rows (fs_changes sample_state)) (state_rows (fs_gaps sample_state))"
    "text_string plain_text sample_text = sf_text ?fl" using sample_wf by (simp_all add: plain_text_def)
  have u: "u_text (unsuggested (sf_text ?fl) sample_state) = lit ''adoldef''" using sample_seen by simp
  have "patches replace_all (lit ''a.tex'') (lit ''adoldef'') (lit ''adoldeF!'') = Some [push_patch]" by code_simp
  then have p: "patches replace_all (lit ''a.tex'') (lit ''adoldef'') (lit ''adoldeF!'') =
      Some (filter (\<lambda>p. pt_path p = lit ''a.tex'') (sc_patches push_change))"
    by (simp add: push_change_def push_patch_def)
  have c: "CR \<notin> set (lit ''adoldeF!'')" by (simp add: CR_def)
  from pushed_text_is_seen[OF sample_prepared f w(1) sample_fresh plain.text_laws_axioms w(2) s u p replace_all_ok c]
  show ?thesis by (simp add: plain_text_def)
qed

end
